(* ===== verification/QPrelude.thy ===== *)
theory QPrelude
  imports Main "HOL-Library.Word" "HOL-Library.AList" "HOL-Library.Char_ord"
    "HOL-Library.List_Lexorder" "HOL-Library.Multiset"
begin

text \<open>
  Shared vocabulary of the development: machine integers and byte strings, the
  conversion between C++ character strings and bytes, little-endian integer
  encodings (the representation that \<^verbatim>\<open>reinterpret_cast\<close> and \<^verbatim>\<open>memcpy\<close> expose on
  the supported x86-64 targets), the codec interface that every wire format of
  the program is an instance of, and association lists standing for
  \<^verbatim>\<open>std::unordered_map\<close> with its iteration order.
\<close>

section \<open>Types\<close>

type_synonym byte = "8 word"
type_synonym bytes = "byte list"
type_synonym u16 = "16 word"
type_synonym u32 = "32 word"
type_synonym u64 = "64 word"
type_synonym u256 = "256 word"

text \<open>A hash function (blake3, SHA-256, Keccak) is always an argument of the model.\<close>

type_synonym hash_fun = "bytes \<Rightarrow> bytes"

named_theorems codec_simps \<open>round-trip equations of the byte codecs\<close>
named_theorems alist_simps \<open>lookups in updated association lists\<close>

section \<open>Character strings as bytes\<close>

definition byte_of_char :: "char \<Rightarrow> byte" where
  "byte_of_char c = of_nat (of_char c)"

definition char_of_byte :: "byte \<Rightarrow> char" where
  "char_of_byte b = char_of (unat b)"

definition bytes_of_string :: "string \<Rightarrow> bytes" where
  "bytes_of_string s = map byte_of_char s"

definition string_of_bytes :: "bytes \<Rightarrow> string" where
  "string_of_bytes bs = map char_of_byte bs"

section \<open>Little-endian integers\<close>

fun le_bytes :: "nat \<Rightarrow> nat \<Rightarrow> bytes" where
  "le_bytes 0 v = []"
| "le_bytes (Suc n) v = of_nat v # le_bytes n (v div 256)"

fun le_value :: "bytes \<Rightarrow> nat" where
  "le_value [] = 0"
| "le_value (b # bs) = unat b + 256 * le_value bs"

definition u32_bytes :: "u32 \<Rightarrow> bytes" where
  "u32_bytes w = le_bytes 4 (unat w)"

definition u64_bytes :: "u64 \<Rightarrow> bytes" where
  "u64_bytes w = le_bytes 8 (unat w)"

definition u32_of_bytes :: "bytes \<Rightarrow> u32" where
  "u32_of_bytes bs = of_nat (le_value (take 4 bs))"

definition u64_of_bytes :: "bytes \<Rightarrow> u64" where
  "u64_of_bytes bs = of_nat (le_value (take 8 bs))"

text \<open>The length of a container as the \<^verbatim>\<open>size_t\<close> that \<^verbatim>\<open>size()\<close> returns.\<close>

definition size_t :: "'a list \<Rightarrow> u64" where
  "size_t xs = of_nat (length xs)"

text \<open>The bytes \<^verbatim>\<open>[off, off + n)\<close> of a buffer.\<close>

definition slice :: "nat \<Rightarrow> nat \<Rightarrow> 'a list \<Rightarrow> 'a list" where
  "slice off n xs = take n (drop off xs)"

text \<open>
  \<^verbatim>\<open>std::copy\<close> into the begin of an existing container: the destination must
  already be long enough, otherwise the write leaves its storage.
\<close>

definition overwrite :: "'a list \<Rightarrow> 'a list \<Rightarrow> 'a list option" where
  "overwrite src dst = (if length dst < length src then None
     else Some (src @ drop (length src) dst))"

text \<open>\<^verbatim>\<open>operator<<\<close> of an unsigned integer: decimal digits without leading zeros.\<close>

definition digit_char :: "nat \<Rightarrow> char" where
  "digit_char d = char_of (48 + d)"

fun dec_string :: "nat \<Rightarrow> string" where
  "dec_string n = (if n < 10 then [digit_char n]
     else dec_string (n div 10) @ [digit_char (n mod 10)])"

declare dec_string.simps [simp del]

definition digit_value :: "char \<Rightarrow> nat" where
  "digit_value c = of_char c - 48"

definition is_digit_char :: "char \<Rightarrow> bool" where
  "is_digit_char c = (48 \<le> (of_char c :: nat) \<and> (of_char c :: nat) \<le> 57)"

fun parse_digits :: "nat \<Rightarrow> string \<Rightarrow> nat" where
  "parse_digits acc [] = acc"
| "parse_digits acc (c # cs) = parse_digits (10 * acc + digit_value c) cs"

section \<open>Decoders that return the rest of the input\<close>

type_synonym 'a decoder = "bytes \<Rightarrow> ('a \<times> bytes) option"

definition dec_u32 :: "u32 decoder" where
  "dec_u32 bs = (if length bs < 4 then None else Some (u32_of_bytes bs, drop 4 bs))"

definition dec_u64 :: "u64 decoder" where
  "dec_u64 bs = (if length bs < 8 then None else Some (u64_of_bytes bs, drop 8 bs))"

definition dec_block :: "nat \<Rightarrow> bytes decoder" where
  "dec_block n bs = (if length bs < n then None else Some (take n bs, drop n bs))"

fun dec_many :: "'a decoder \<Rightarrow> nat \<Rightarrow> 'a list decoder" where
  "dec_many d 0 bs = Some ([], bs)"
| "dec_many d (Suc n) bs =
     (case d bs of None \<Rightarrow> None
      | Some (x, bs') \<Rightarrow> (case dec_many d n bs' of None \<Rightarrow> None
          | Some (xs, rest) \<Rightarrow> Some (x # xs, rest)))"

section \<open>The codec interface\<close>

text \<open>
  \<open>ok\<close> delimits the values that the encoding can represent (lengths below the
  width of their length field).  Everything a client of a codec needs follows
  from the one law: injectivity, unique readability of a concatenation, and the
  round trip of a sequence of encodings.
\<close>

locale byte_codec =
  fixes enc :: "'a \<Rightarrow> bytes"
    and dec :: "'a decoder"
    and ok :: "'a \<Rightarrow> bool"
  assumes dec_enc: "ok x \<Longrightarrow> dec (enc x @ rest) = Some (x, rest)"
begin

lemma dec_enc_all: "ok x \<Longrightarrow> dec (enc x) = Some (x, [])"
  using dec_enc [of x "[]"] by simp

lemma enc_append_inj:
  assumes "ok x" "ok y" "enc x @ r = enc y @ s"
  shows "x = y \<and> r = s"
proof -
  have "Some (x, r) = Some (y, s)"
    unfolding dec_enc [OF assms(1), of r, symmetric] dec_enc [OF assms(2), of s, symmetric]
    by (rule arg_cong [OF assms(3)])
  then show ?thesis by simp
qed

lemma enc_inj:
  assumes "ok x" "ok y" "enc x = enc y"
  shows "x = y"
  using enc_append_inj [OF assms(1,2), of "[]" "[]"] assms(3) by simp

lemma dec_many_enc:
  "list_all ok xs \<Longrightarrow> dec_many dec (length xs) (concat (map enc xs) @ rest) = Some (xs, rest)"
  by (induction xs) (simp_all add: dec_enc)

lemma concat_enc_inj:
  assumes "list_all ok xs" "list_all ok ys" "length xs = length ys"
    and "concat (map enc xs) @ r = concat (map enc ys) @ s"
  shows "xs = ys \<and> r = s"
proof -
  have "Some (xs, r) = Some (ys, s)"
    unfolding dec_many_enc [OF assms(1), of r, symmetric] dec_many_enc [OF assms(2), of s, symmetric]
      assms(3) by (rule arg_cong [OF assms(4)])
  then show ?thesis by simp
qed

end

section \<open>Lemmas on bytes and integers\<close>

lemma byte_high: "8 \<le> n \<Longrightarrow> \<not> bit (b :: byte) n"
  by (auto dest: bit_imp_le_length)

lemma of_char_lt_256: "(of_char c :: nat) < 256"
  using of_char_mod_256 [of c, where ?'a = nat] by (metis mod_less_divisor zero_less_numeral)

lemma char_of_byte_of_char [simp]: "char_of_byte (byte_of_char c) = c"
proof -
  have "unat (of_nat (of_char c) :: byte) = of_char c"
    using of_char_lt_256 [of c] by (simp add: unat_of_nat)
  then show ?thesis
    by (simp add: char_of_byte_def byte_of_char_def)
qed

lemma byte_of_char_of_byte [simp]: "byte_of_char (char_of_byte b) = b"
proof -
  have "unat b < 256" using unsigned_less [of b, where ?'a = nat] by simp
  then show ?thesis by (simp add: char_of_byte_def byte_of_char_def)
qed

lemma string_of_bytes_of_string [simp]: "string_of_bytes (bytes_of_string s) = s"
  by (simp add: string_of_bytes_def bytes_of_string_def comp_def)

lemma bytes_of_string_of_bytes [simp]: "bytes_of_string (string_of_bytes bs) = bs"
  by (simp add: string_of_bytes_def bytes_of_string_def comp_def)

lemma length_bytes_of_string [simp]: "length (bytes_of_string s) = length s"
  by (simp add: bytes_of_string_def)

lemma length_string_of_bytes [simp]: "length (string_of_bytes s) = length s"
  by (simp add: string_of_bytes_def)

lemma bytes_of_string_append [simp]:
  "bytes_of_string (s @ t) = bytes_of_string s @ bytes_of_string t"
  by (simp add: bytes_of_string_def)

lemma bytes_of_string_inj [simp]: "bytes_of_string s = bytes_of_string t \<longleftrightarrow> s = t"
  by (metis string_of_bytes_of_string)

lemma bytes_of_string_Nil [simp]: "bytes_of_string s = [] \<longleftrightarrow> s = []"
  by (simp add: bytes_of_string_def)

lemma string_of_bytes_append [simp]:
  "string_of_bytes (s @ t) = string_of_bytes s @ string_of_bytes t"
  by (simp add: string_of_bytes_def)

lemma length_le_bytes [simp]: "length (le_bytes n v) = n"
  by (induction n arbitrary: v) simp_all

lemma le_value_le_bytes: "v < 256 ^ n \<Longrightarrow> le_value (le_bytes n v) = v"
proof (induction n arbitrary: v)
  case (Suc n)
  then have "v div 256 < 256 ^ n"
    by (simp add: less_mult_imp_div_less mult.commute)
  moreover have "unat (of_nat v :: byte) = v mod 256"
    by (simp add: unat_of_nat)
  ultimately show ?case by (simp add: Suc.IH)
qed simp

lemma length_u32_bytes [simp]: "length (u32_bytes w) = 4"
  by (simp add: u32_bytes_def)

lemma length_u64_bytes [simp]: "length (u64_bytes w) = 8"
  by (simp add: u64_bytes_def)

lemma u32_of_u32_bytes [codec_simps]: "u32_of_bytes (u32_bytes w @ rest) = w"
proof -
  have "unat w < 256 ^ 4" using unsigned_less [of w, where ?'a = nat] by simp
  then show ?thesis by (simp add: u32_of_bytes_def u32_bytes_def le_value_le_bytes)
qed

lemma u64_of_u64_bytes [codec_simps]: "u64_of_bytes (u64_bytes w @ rest) = w"
proof -
  have "unat w < 256 ^ 8" using unsigned_less [of w, where ?'a = nat] by simp
  then show ?thesis by (simp add: u64_of_bytes_def u64_bytes_def le_value_le_bytes)
qed

lemmas u64_of_u64_bytes_all [codec_simps] = u64_of_u64_bytes [of _ "[]", simplified]

lemma u64_bytes_inj [simp]: "u64_bytes v = u64_bytes w \<longleftrightarrow> v = w"
  by (metis u64_of_u64_bytes_all)

lemma dec_u32_enc [codec_simps]: "dec_u32 (u32_bytes w @ rest) = Some (w, rest)"
  by (simp add: dec_u32_def u32_of_u32_bytes)

lemma dec_u64_enc [codec_simps]: "dec_u64 (u64_bytes w @ rest) = Some (w, rest)"
  by (simp add: dec_u64_def u64_of_u64_bytes)

lemma dec_block_append [codec_simps]:
  "length b = n \<Longrightarrow> dec_block n (b @ rest) = Some (b, rest)"
  by (simp add: dec_block_def)

interpretation u32_codec: byte_codec u32_bytes dec_u32 "\<lambda>_. True"
  by unfold_locales (simp add: dec_u32_enc)

interpretation u64_codec: byte_codec u64_bytes dec_u64 "\<lambda>_. True"
  by unfold_locales (simp add: dec_u64_enc)

lemma unat_size_t: "length xs < 2 ^ 64 \<Longrightarrow> unat (size_t xs) = length xs"
  by (simp add: size_t_def unat_of_nat)

lemma size_t_Nil [simp]: "size_t [] = 0"
  by (simp add: size_t_def)

lemma slice_append_left: "length a = off \<Longrightarrow> slice off n (a @ b) = take n b"
  by (simp add: slice_def)

lemma length_slice [simp]: "length (slice off n xs) = min n (length xs - off)"
  by (simp add: slice_def min.commute)

lemma overwrite_exact: "length src = length dst \<Longrightarrow> overwrite src dst = Some src"
  by (simp add: overwrite_def)

lemma overwrite_None: "overwrite src dst = None \<longleftrightarrow> length dst < length src"
  by (simp add: overwrite_def)

lemma digit_char_props:
  assumes "d < 10"
  shows "is_digit_char (digit_char d)" "digit_value (digit_char d) = d"
  using assms by (simp_all add: is_digit_char_def digit_char_def digit_value_def)

lemma parse_digits_append: "parse_digits a (s @ t) = parse_digits (parse_digits a s) t"
  by (induction s arbitrary: a) simp_all

lemma dec_string_digits: "list_all is_digit_char (dec_string n)"
  by (induction n rule: dec_string.induct)
     (subst dec_string.simps, simp add: digit_char_props)

lemma dec_string_not_Nil [simp]: "dec_string n \<noteq> []"
  by (subst dec_string.simps) simp

lemma parse_dec_string: "parse_digits 0 (dec_string n) = n"
proof (induction n rule: dec_string.induct)
  case (1 n)
  then show ?case
    by (subst dec_string.simps) (auto simp: parse_digits_append digit_char_props)
qed

lemma dec_string_inj [simp]: "dec_string m = dec_string n \<longleftrightarrow> m = n"
  by (metis parse_dec_string)

section \<open>Association lists\<close>

text \<open>
  \<^verbatim>\<open>m[k] = v\<close> on an \<^verbatim>\<open>std::unordered_map\<close> is \<^const>\<open>AList.update\<close>; the order of
  the list is the container's (implementation-defined) iteration order.  Keys
  are distinct in every state the program can build.
\<close>

abbreviation keys :: "('k \<times> 'v) list \<Rightarrow> 'k list" where
  "keys m \<equiv> map fst m"

lemma map_of_update [alist_simps]:
  "map_of (AList.update k v m) x = (if x = k then Some v else map_of m x)"
  by (simp add: update_conv')

lemma map_of_delete [alist_simps]:
  "map_of (AList.delete k m) x = (if x = k then None else map_of m x)"
  by (simp add: delete_conv')

lemma distinct_keys_update [intro, simp]:
  "distinct (keys m) \<Longrightarrow> distinct (keys (AList.update k v m))"
  by (rule distinct_update)

lemma distinct_keys_delete [intro, simp]:
  "distinct (keys m) \<Longrightarrow> distinct (keys (AList.delete k m))"
  by (rule distinct_delete)

lemma sum_list_update_alist:
  fixes f :: "'v \<Rightarrow> nat"
  assumes "distinct (keys m)" "map_of m k = Some v"
  shows "sum_list (map (f \<circ> snd) (AList.update k w m)) + f v = sum_list (map (f \<circ> snd) m) + f w"
  using assms
proof (induction m)
  case (Cons p m)
  then show ?case by (cases p) (auto split: if_splits)
qed simp

text \<open>Two lists that represent the same map with distinct keys sort to the same list.\<close>

lemma sort_alist_unique:
  fixes m :: "('k :: linorder \<times> 'v) list"
  assumes "distinct (keys m)" "distinct (keys n)" "map_of m = map_of n"
  shows "sort_key fst m = sort_key fst n"
proof -
  have "set m = set n"
    using assms by (metis map_of_inject_set)
  moreover have "distinct m" "distinct n"
    using assms(1,2) by (simp_all add: distinct_map)
  ultimately have "mset m = mset n"
    using set_eq_iff_mset_eq_distinct by blast
  moreover have "inj_on fst (set m)"
    using assms(1) distinct_map by blast
  ultimately show ?thesis
    by (metis sort_key_inj_key_eq sorted_sort_key mset_sort)
qed

end
