(* ===== verification/Transactions.thy ===== *)
theory Transactions
  imports QPrelude
begin

text \<open>
  Transactions of the base layer: the fields of \<^verbatim>\<open>blockchain::Transaction\<close>, their
  byte serialisation, hash, signature check and text form, as
  \<^verbatim>\<open>src/src/blockchain/StandardTransaction.cpp\<close> implements them for the concrete class
  and \<^verbatim>\<open>src/src/blockchain/Transaction.cpp\<close> for the abstract one.  An \<^verbatim>\<open>Address\<close> is a
  \<^verbatim>\<open>std::string\<close> of any length, \<^verbatim>\<open>sizeof(Address)\<close> is the size of the string object
  (32 bytes in the libstdc++ ABI), and a \<^verbatim>\<open>Signature\<close> is an array of 32 bytes.
\<close>

section \<open>Data\<close>

record transaction =
  tx_timestamp :: u64
  tx_sender :: string
  tx_receiver :: string
  tx_value :: u64
  tx_data :: bytes
  tx_signature :: bytes
  tx_nonce :: u64
  tx_gas_cost :: u64

definition sizeof_Address :: nat where "sizeof_Address = 32"
definition sizeof_Timestamp :: nat where "sizeof_Timestamp = 8"
definition sizeof_Value :: nat where "sizeof_Value = 8"
definition sizeof_Signature :: nat where "sizeof_Signature = 32"

text \<open>
  A default-constructed transaction: empty addresses, zero integers; the clock
  gives the timestamp and the signature array holds whatever was in memory.
\<close>

definition default_transaction :: "u64 \<Rightarrow> bytes \<Rightarrow> transaction" where
  "default_transaction now garbage =
     \<lparr>tx_timestamp = now, tx_sender = [], tx_receiver = [], tx_value = 0, tx_data = [],
      tx_signature = garbage, tx_nonce = 0, tx_gas_cost = 0\<rparr>"

definition getAmount :: "transaction \<Rightarrow> u64" where "getAmount tx = tx_value tx"
definition calculate_gas_cost :: "transaction \<Rightarrow> u64" where "calculate_gas_cost tx = tx_gas_cost tx"
definition getSender :: "transaction \<Rightarrow> string" where "getSender tx = tx_sender tx"
definition getRecipient :: "transaction \<Rightarrow> string" where "getRecipient tx = tx_receiver tx"
definition getNonce :: "transaction \<Rightarrow> u64" where "getNonce tx = tx_nonce tx"

lemmas tx_getters = getAmount_def calculate_gas_cost_def getSender_def getRecipient_def getNonce_def

section \<open>Serialisation\<close>

definition StandardTransaction_serialize :: "transaction \<Rightarrow> bytes" where
  "StandardTransaction_serialize tx =
     u64_bytes (tx_timestamp tx)
     @ bytes_of_string (tx_sender tx)
     @ bytes_of_string (tx_receiver tx)
     @ u64_bytes (tx_value tx)
     @ tx_data tx
     @ tx_signature tx
     @ u64_bytes (tx_nonce tx)
     @ u64_bytes (tx_gas_cost tx)"

datatype tx_error = Buffer_overrun

text \<open>
  \<^verbatim>\<open>deserialize\<close> overwrites the object it is called on.  The addresses are copied
  into the existing strings with \<^verbatim>\<open>std::copy\<close>, which writes out of bounds when
  a string is shorter than 32 characters: that branch is \<^const>\<open>Buffer_overrun\<close>.
\<close>

definition StandardTransaction_deserialize ::
  "bytes \<Rightarrow> transaction \<Rightarrow> tx_error + (bool \<times> transaction)" where
  "StandardTransaction_deserialize buf this =
     (if length buf < sizeof_Timestamp + 2 * sizeof_Address + sizeof_Value
                      + sizeof_Signature + 2 * 8
      then Inr (False, this)
      else
        let off1 = sizeof_Timestamp;
            ts = u64_of_bytes buf;
            off2 = off1 + sizeof_Address;
            off3 = off2 + sizeof_Address;
            off4 = off3 + sizeof_Value;
            data_size = length buf - off4 - sizeof_Signature - 2 * 8;
            off5 = off4 + data_size;
            off6 = off5 + sizeof_Signature
        in case overwrite (string_of_bytes (slice off1 sizeof_Address buf)) (tx_sender this) of
             None \<Rightarrow> Inl Buffer_overrun
           | Some snd' \<Rightarrow>
             (case overwrite (string_of_bytes (slice off2 sizeof_Address buf)) (tx_receiver this) of
                None \<Rightarrow> Inl Buffer_overrun
              | Some rcv' \<Rightarrow>
                Inr (True,
                  \<lparr>tx_timestamp = ts, tx_sender = snd', tx_receiver = rcv',
                   tx_value = u64_of_bytes (drop off3 buf),
                   tx_data = slice off4 data_size buf,
                   tx_signature = slice off5 sizeof_Signature buf,
                   tx_nonce = u64_of_bytes (drop off6 buf),
                   tx_gas_cost = u64_of_bytes (drop (off6 + 8) buf)\<rparr>)))"

definition StandardTransaction_computeHash :: "hash_fun \<Rightarrow> transaction \<Rightarrow> bytes" where
  "StandardTransaction_computeHash H tx = H (StandardTransaction_serialize tx)"

text \<open>The message that \<^verbatim>\<open>verify\<close> hashes: the serialisation without the signature.\<close>

definition signed_message :: "transaction \<Rightarrow> bytes" where
  "signed_message tx =
     u64_bytes (tx_timestamp tx)
     @ bytes_of_string (tx_sender tx)
     @ bytes_of_string (tx_receiver tx)
     @ u64_bytes (tx_value tx)
     @ tx_data tx
     @ u64_bytes (tx_nonce tx)
     @ u64_bytes (tx_gas_cost tx)"

definition StandardTransaction_verify :: "hash_fun \<Rightarrow> transaction \<Rightarrow> bool" where
  "StandardTransaction_verify H tx =
     (if tx_sender tx = [] \<or> tx_receiver tx = [] then False
      else H (signed_message tx) = tx_signature tx)"

definition StandardTransaction_toString :: "transaction \<Rightarrow> string" where
  "StandardTransaction_toString tx =
     ''Transaction{'' @ ''sender='' @ tx_sender tx
     @ '', receiver='' @ tx_receiver tx
     @ '', value='' @ dec_string (unat (tx_value tx))
     @ '', nonce='' @ dec_string (unat (tx_nonce tx))
     @ '', gas_cost='' @ dec_string (unat (tx_gas_cost tx))
     @ '', data_size='' @ dec_string (length (tx_data tx))
     @ ''}''"

section \<open>Lemmas\<close>

lemmas sizeof_defs = sizeof_Address_def sizeof_Timestamp_def sizeof_Value_def sizeof_Signature_def

text \<open>The shape the wire format can represent: addresses and signature of 32 bytes.\<close>

definition fixed_width :: "transaction \<Rightarrow> bool" where
  "fixed_width tx \<longleftrightarrow> length (tx_sender tx) = 32 \<and> length (tx_receiver tx) = 32
     \<and> length (tx_signature tx) = 32"

lemma length_serialize:
  "length (StandardTransaction_serialize tx) =
     32 + length (tx_sender tx) + length (tx_receiver tx) + length (tx_data tx)
     + length (tx_signature tx)"
  by (simp add: StandardTransaction_serialize_def)

lemma drop_append_exact: "length a = n \<Longrightarrow> drop n (a @ b) = b"
  by simp

lemma deserialize_fields:
  assumes "length a = 32" "length b = 32" "length sg = 32"
    and buf: "buf = u64_bytes ts @ a @ b @ u64_bytes v @ d @ sg @ u64_bytes n @ u64_bytes g"
  shows "u64_of_bytes buf = ts" "slice 8 32 buf = a" "slice 40 32 buf = b"
    "u64_of_bytes (drop 72 buf) = v" "slice 80 (length d) buf = d"
    "slice (80 + length d) 32 buf = sg"
    "u64_of_bytes (drop (112 + length d) buf) = n"
    "u64_of_bytes (drop (120 + length d) buf) = g"
  unfolding buf using assms(1-3)
  by (simp_all add: slice_def u64_of_u64_bytes u64_of_u64_bytes_all)

lemma deserialize_serialize:
  assumes "fixed_width tx"
  shows "StandardTransaction_deserialize (StandardTransaction_serialize tx) this =
    (if length (tx_sender this) < 32 \<or> length (tx_receiver this) < 32 then Inl Buffer_overrun
     else Inr (True, tx\<lparr>tx_sender := tx_sender tx @ drop 32 (tx_sender this),
                       tx_receiver := tx_receiver tx @ drop 32 (tx_receiver this)\<rparr>))"
proof -
  define buf where "buf = StandardTransaction_serialize tx"
  have len: "length buf = 128 + length (tx_data tx)"
    using assms by (simp add: buf_def length_serialize fixed_width_def)
  have "buf = u64_bytes (tx_timestamp tx) @ bytes_of_string (tx_sender tx)
      @ bytes_of_string (tx_receiver tx) @ u64_bytes (tx_value tx) @ tx_data tx
      @ tx_signature tx @ u64_bytes (tx_nonce tx) @ u64_bytes (tx_gas_cost tx)"
    by (simp add: buf_def StandardTransaction_serialize_def)
  note fields = deserialize_fields [OF _ _ _ this]
  have "overwrite (tx_sender tx) d = (if length d < 32 then None else Some (tx_sender tx @ drop 32 d))"
      "overwrite (tx_receiver tx) d = (if length d < 32 then None else Some (tx_receiver tx @ drop 32 d))" for d
    using assms by (simp_all add: overwrite_def fixed_width_def)
  then show ?thesis
    unfolding buf_def [symmetric] StandardTransaction_deserialize_def
    using assms len fields by (simp add: sizeof_defs fixed_width_def Let_def)
qed

lemma signed_message_inj:
  assumes "length (tx_sender tx) = length (tx_sender ty)"
    "length (tx_receiver tx) = length (tx_receiver ty)" "signed_message tx = signed_message ty"
  shows "tx_timestamp tx = tx_timestamp ty \<and> tx_sender tx = tx_sender ty
    \<and> tx_receiver tx = tx_receiver ty \<and> tx_value tx = tx_value ty \<and> tx_data tx = tx_data ty
    \<and> tx_nonce tx = tx_nonce ty \<and> tx_gas_cost tx = tx_gas_cost ty"
proof -
  have "length (tx_data tx) = length (tx_data ty)"
    using arg_cong [OF assms(3), of length] assms(1,2) by (simp add: signed_message_def)
  then show ?thesis
    using assms by (simp add: signed_message_def)
qed

section \<open>Properties\<close>

definition sample_tx :: transaction where
  "sample_tx = \<lparr>tx_timestamp = 7, tx_sender = replicate 32 CHR ''a'', tx_receiver = replicate 32 CHR ''b'',
     tx_value = 258, tx_data = [1, 2, 3], tx_signature = replicate 32 9, tx_nonce = 1, tx_gas_cost = 21000\<rparr>"

text \<open>C32: Reading back a serialised transaction with 32-character addresses and a 32-byte
  signature depends on the object it is read into.  When that object's two address strings
  already hold at least 32 characters, the call succeeds and every field comes back, an address
  string that was longer keeping its characters from the 33rd on; so the round trip is exact
  for strings of 32 characters.  When either string is shorter, as in every
  default-constructed transaction, the call writes past the end of it.\<close>

theorem transaction_roundtrip:
  assumes "fixed_width tx"
  shows "StandardTransaction_deserialize (StandardTransaction_serialize tx) this =
    (if length (tx_sender this) < 32 \<or> length (tx_receiver this) < 32 then Inl Buffer_overrun
     else Inr (True, tx\<lparr>tx_sender := tx_sender tx @ drop 32 (tx_sender this),
                       tx_receiver := tx_receiver tx @ drop 32 (tx_receiver this)\<rparr>))"
  using assms by (rule deserialize_serialize)

theorem transaction_roundtrip_witness:
  "StandardTransaction_deserialize (StandardTransaction_serialize sample_tx) (sample_tx\<lparr>tx_value := 0\<rparr>)
     = Inr (True, sample_tx)
   \<and> StandardTransaction_deserialize (StandardTransaction_serialize sample_tx) (default_transaction 0 [])
     = Inl Buffer_overrun"
  using transaction_roundtrip [of sample_tx "sample_tx\<lparr>tx_value := 0\<rparr>"]
    transaction_roundtrip [of sample_tx "default_transaction 0 []"]
  by (simp add: fixed_width_def default_transaction_def) (simp add: sample_tx_def)

text \<open>Reading into a default-constructed transaction, whose address strings are empty,
  writes past the end of the sender string for every buffer that passes the size test,
  and reports failure without a write for every shorter one.\<close>

theorem deserialize_default_overruns:
  "StandardTransaction_deserialize buf (default_transaction now garbage) =
     (if length buf < 128 then Inr (False, default_transaction now garbage) else Inl Buffer_overrun)"
  by (simp add: StandardTransaction_deserialize_def sizeof_defs default_transaction_def
      overwrite_def Let_def)

text \<open>A signature binds every other field: two verified transactions with the same signature
  and addresses of the same lengths agree in all the fields the signature covers, unless
  their two messages collide under the hash.\<close>

theorem signature_binds_fields:
  assumes "StandardTransaction_verify H tx" "StandardTransaction_verify H ty"
    and "tx_signature tx = tx_signature ty"
    and "length (tx_sender tx) = length (tx_sender ty)"
    and "length (tx_receiver tx) = length (tx_receiver ty)"
    and "H (signed_message tx) = H (signed_message ty) \<Longrightarrow> signed_message tx = signed_message ty"
  shows "tx = ty"
proof -
  have "signed_message tx = signed_message ty"
    using assms(1-3,6) by (simp add: StandardTransaction_verify_def split: if_splits)
  from signed_message_inj [OF assms(4,5) this] assms(3) show ?thesis
    by (intro transaction.equality) simp_all
qed

theorem signature_binds_fields_witness:
  "StandardTransaction_verify (\<lambda>m. m) (sample_tx\<lparr>tx_signature := signed_message sample_tx\<rparr>)
   \<and> sample_tx\<lparr>tx_signature := signed_message sample_tx\<rparr>
     = sample_tx\<lparr>tx_data := [1, 2, 3], tx_signature := signed_message sample_tx\<rparr>"
proof -
  let ?t = "sample_tx\<lparr>tx_signature := signed_message sample_tx\<rparr>"
  have "StandardTransaction_verify (\<lambda>m. m) ?t"
    by (simp add: StandardTransaction_verify_def signed_message_def sample_tx_def)
  moreover from this have "?t = sample_tx\<lparr>tx_data := [1, 2, 3], tx_signature := signed_message sample_tx\<rparr>"
    by (intro signature_binds_fields [where H = "\<lambda>m. m"]) (simp_all add: sample_tx_def)
  ultimately show ?thesis by blast
qed

text \<open>The signed message does not delimit the two addresses: moving a suffix of the sender
  to the front of the receiver leaves the message and therefore the verdict unchanged, so
  a verified transaction also verifies with different parties.\<close>

theorem address_boundary_ambiguous:
  assumes "StandardTransaction_verify H tx" "tx_sender tx = a @ b" "a \<noteq> []"
  shows "StandardTransaction_verify H (tx\<lparr>tx_sender := a, tx_receiver := b @ tx_receiver tx\<rparr>)"
  using assms by (auto simp: StandardTransaction_verify_def signed_message_def split: if_splits)

theorem address_boundary_ambiguous_witness:
  "StandardTransaction_verify (\<lambda>_. replicate 32 9)
     (sample_tx\<lparr>tx_sender := ''a'', tx_receiver := replicate 31 CHR ''a'' @ replicate 32 CHR ''b''\<rparr>)"
  using address_boundary_ambiguous [of "\<lambda>_. replicate 32 9" sample_tx "''a''" "replicate 31 CHR ''a''"]
  by (simp add: StandardTransaction_verify_def sample_tx_def numeral_eq_Suc)

text \<open>The signature is an unkeyed hash: anyone can complete any transaction with non-empty
  addresses to one that verify accepts, by hashing its message.\<close>

theorem signature_forgeable:
  assumes "tx_sender tx \<noteq> []" "tx_receiver tx \<noteq> []"
  shows "StandardTransaction_verify H (tx\<lparr>tx_signature := H (signed_message tx)\<rparr>)"
  using assms by (simp add: StandardTransaction_verify_def signed_message_def)

theorem signature_forgeable_witness:
  "StandardTransaction_verify (\<lambda>m. replicate 32 (of_nat (length m)))
     (sample_tx\<lparr>tx_signature := replicate 32 99\<rparr>)"
  using signature_forgeable [of sample_tx "\<lambda>m. replicate 32 (of_nat (length m))"]
  by (simp add: signed_message_def sample_tx_def)

end
