(* ===== verification/State_Manager.thy ===== *)
theory State_Manager
  imports Transactions
begin

text \<open>
  The rollup's account state: \<^verbatim>\<open>rollup::StateManager\<close> of
  \<^verbatim>\<open>src/src/rollup/StateManager.cpp\<close>.  Every public method takes the object's
  \<^verbatim>\<open>std::shared_mutex\<close> for its own scope and several of them call one another, so
  a method is a computation in a monad that knows which locks the calling thread
  holds; \<open>grant\<close> says whether the platform's mutex lets that thread lock
  again.  An exception leaves the state as it was when it was thrown.
\<close>

section \<open>Locks and the method monad\<close>

datatype lock_mode = Shared_lock | Unique_lock
datatype sm_error = Deadlock

type_synonym locks = "lock_mode list"
type_synonym grant = "locks \<Rightarrow> lock_mode \<Rightarrow> bool"

text \<open>
  \<^verbatim>\<open>std::shared_mutex\<close> is not recursive.  \<open>glibc_grant\<close> is what its libstdc++ implementation
  over \<^verbatim>\<open>pthread_rwlock_t\<close> does: read locks nest, any other second acquisition by the owner
  throws \<^verbatim>\<open>resource_deadlock_would_occur\<close>.
\<close>

definition glibc_grant :: grant where
  "glibc_grant held m = (case m of Shared_lock \<Rightarrow> Unique_lock \<notin> set held | Unique_lock \<Rightarrow> held = [])"

text \<open>
  The method bodies with the locks erased.  This is not the behaviour of any
  \<^verbatim>\<open>std::shared_mutex\<close>; it serves to state what a body would compute if the nested
  locking were repaired.
\<close>

definition locks_erased :: grant where
  "locks_erased held m = True"

record sm_account =
  acc_address :: string
  acc_balance :: u64
  acc_nonce :: u64
  acc_code :: bytes
  acc_storage :: "(bytes \<times> bytes) list"

record sm_state =
  accounts :: "(string \<times> sm_account) list"
  current_state_root :: bytes
  previous_state_root :: bytes
  history :: "(string \<times> transaction list) list"

type_synonym 'a sm = "locks \<Rightarrow> sm_state \<Rightarrow> (sm_error + 'a) \<times> sm_state"

definition sm_return :: "'a \<Rightarrow> 'a sm" where
  "sm_return a held s = (Inr a, s)"

definition sm_bind :: "'a sm \<Rightarrow> ('a \<Rightarrow> 'b sm) \<Rightarrow> 'b sm" where
  "sm_bind m f held s = (case m held s of (Inl e, s') \<Rightarrow> (Inl e, s') | (Inr a, s') \<Rightarrow> f a held s')"

definition sm_gets :: "(sm_state \<Rightarrow> 'a) \<Rightarrow> 'a sm" where
  "sm_gets f held s = (Inr (f s), s)"

definition sm_modify :: "(sm_state \<Rightarrow> sm_state) \<Rightarrow> unit sm" where
  "sm_modify f held s = (Inr (), f s)"

definition with_lock :: "grant \<Rightarrow> lock_mode \<Rightarrow> 'a sm \<Rightarrow> 'a sm" where
  "with_lock grant m body held s =
     (if grant held m then body (m # held) s else (Inl Deadlock, s))"

lemmas sm_defs = sm_return_def sm_bind_def sm_gets_def sm_modify_def with_lock_def

section \<open>Account serialisation and the state root\<close>

definition MAX_HISTORY_PER_ACCOUNT :: nat where "MAX_HISTORY_PER_ACCOUNT = 1000"

definition hex_digit :: "nat \<Rightarrow> char" where
  "hex_digit d = (if d < 10 then char_of (48 + d) else char_of (87 + d))"

definition address_to_hex :: "bytes \<Rightarrow> string" where
  "address_to_hex addr =
     concat (map (\<lambda>b. [hex_digit (unat b div 16), hex_digit (unat b mod 16)]) addr)"

definition entry_bytes :: "bytes \<times> bytes \<Rightarrow> bytes" where
  "entry_bytes kv = u64_bytes (size_t (fst kv)) @ fst kv @ u64_bytes (size_t (snd kv)) @ snd kv"

definition Account_serialize :: "sm_account \<Rightarrow> bytes" where
  "Account_serialize a =
     u64_bytes (size_t (acc_address a)) @ bytes_of_string (acc_address a)
     @ u64_bytes (acc_balance a)
     @ u64_bytes (acc_nonce a)
     @ u64_bytes (size_t (acc_code a)) @ acc_code a
     @ u64_bytes (size_t (acc_storage a))
     @ concat (map entry_bytes (acc_storage a))"

text \<open>
  The reader keeps an offset of type \<^verbatim>\<open>size_t\<close> and tests \<^verbatim>\<open>offset + n > data.size()\<close>
  with wrap-around.  \<^verbatim>\<open>Truncated\<close> is the \<^verbatim>\<open>nullopt\<close> result; \<^verbatim>\<open>Bad_range\<close> is the
  construction of a container from a range that is not inside the buffer,
  reached when the wrapped test passes.
\<close>

datatype deser_error = Truncated | Bad_range

definition read_size :: "bytes \<Rightarrow> u64 \<Rightarrow> deser_error + (u64 \<times> u64)" where
  "read_size data off =
     (if off + 8 > size_t data then Inl Truncated
      else Inr (u64_of_bytes (drop (unat off) data), off + 8))"

definition read_block :: "bytes \<Rightarrow> u64 \<Rightarrow> u64 \<Rightarrow> deser_error + (bytes \<times> u64)" where
  "read_block data off n =
     (if off + n > size_t data then Inl Truncated
      else if length data < unat off + unat n then Inl Bad_range
      else Inr (slice (unat off) (unat n) data, off + n))"

fun read_entries ::
  "bytes \<Rightarrow> nat \<Rightarrow> u64 \<Rightarrow> (bytes \<times> bytes) list \<Rightarrow> deser_error + (bytes \<times> bytes) list" where
  "read_entries data 0 off st = Inr st"
| "read_entries data (Suc i) off st =
     (case read_size data off of Inl e \<Rightarrow> Inl e | Inr (key_size, off1) \<Rightarrow>
     (case read_block data off1 key_size of Inl e \<Rightarrow> Inl e | Inr (key, off2) \<Rightarrow>
     (case read_size data off2 of Inl e \<Rightarrow> Inl e | Inr (value_size, off3) \<Rightarrow>
     (case read_block data off3 value_size of Inl e \<Rightarrow> Inl e | Inr (val, off4) \<Rightarrow>
       read_entries data i off4 (AList.update key val st)))))"

definition Account_deserialize :: "bytes \<Rightarrow> deser_error + sm_account" where
  "Account_deserialize data =
     (if size_t data < 8 then Inl Truncated else
     (case read_size data 0 of Inl e \<Rightarrow> Inl e | Inr (addr_size, off1) \<Rightarrow>
     (case read_block data off1 addr_size of Inl e \<Rightarrow> Inl e | Inr (addr, off2) \<Rightarrow>
      if off2 + 16 > size_t data then Inl Truncated else
      let bal = u64_of_bytes (drop (unat off2) data);
          non = u64_of_bytes (drop (unat (off2 + 8)) data);
          off3 = off2 + 16
      in case read_size data off3 of Inl e \<Rightarrow> Inl e | Inr (code_size, off4) \<Rightarrow>
        (case read_block data off4 code_size of Inl e \<Rightarrow> Inl e | Inr (code, off5) \<Rightarrow>
        (case read_size data off5 of Inl e \<Rightarrow> Inl e | Inr (storage_size, off6) \<Rightarrow>
        (case read_entries data (unat storage_size) off6 [] of Inl e \<Rightarrow> Inl e | Inr st \<Rightarrow>
           Inr \<lparr>acc_address = string_of_bytes addr, acc_balance = bal, acc_nonce = non,
                acc_code = code, acc_storage = st\<rparr>))))))"

definition calculate_state_root :: "hash_fun \<Rightarrow> (string \<times> sm_account) list \<Rightarrow> bytes" where
  "calculate_state_root H accs =
     H (concat (map (\<lambda>p. Account_serialize (snd p)) (sort_key fst accs)))"

definition StateManager_init :: "hash_fun \<Rightarrow> sm_state" where
  "StateManager_init H =
     \<lparr>accounts = [], current_state_root = calculate_state_root H [],
      previous_state_root = calculate_state_root H [], history = []\<rparr>"

section \<open>Queries\<close>

definition get_account :: "grant \<Rightarrow> string \<Rightarrow> sm_account option sm" where
  "get_account grant addr = with_lock grant Shared_lock (sm_gets (\<lambda>s. map_of (accounts s) addr))"

definition get_account_history :: "grant \<Rightarrow> string \<Rightarrow> transaction list sm" where
  "get_account_history grant addr = with_lock grant Shared_lock
     (sm_gets (\<lambda>s. case map_of (history s) addr of Some h \<Rightarrow> h | None \<Rightarrow> []))"

definition get_state_root :: "grant \<Rightarrow> bytes sm" where
  "get_state_root grant = with_lock grant Shared_lock (sm_gets current_state_root)"

definition get_previous_root :: "grant \<Rightarrow> bytes sm" where
  "get_previous_root grant = with_lock grant Shared_lock (sm_gets previous_state_root)"

definition get_accounts_snapshot :: "grant \<Rightarrow> (string \<times> sm_account) list sm" where
  "get_accounts_snapshot grant = with_lock grant Shared_lock (sm_gets (\<lambda>s. sort_key fst (accounts s)))"

definition get_balance :: "grant \<Rightarrow> string \<Rightarrow> u64 sm" where
  "get_balance grant addr = with_lock grant Shared_lock
     (sm_gets (\<lambda>s. case map_of (accounts s) addr of Some a \<Rightarrow> acc_balance a | None \<Rightarrow> 0))"

definition get_nonce :: "grant \<Rightarrow> string \<Rightarrow> u64 sm" where
  "get_nonce grant addr = with_lock grant Shared_lock
     (sm_gets (\<lambda>s. case map_of (accounts s) addr of Some a \<Rightarrow> acc_nonce a | None \<Rightarrow> 0))"

definition get_storage :: "grant \<Rightarrow> bytes \<Rightarrow> bytes \<Rightarrow> bytes sm" where
  "get_storage grant addr key = with_lock grant Shared_lock
     (sm_gets (\<lambda>s. case map_of (accounts s) (address_to_hex addr) of
         Some a \<Rightarrow> (case map_of (acc_storage a) key of Some v \<Rightarrow> v | None \<Rightarrow> [])
       | None \<Rightarrow> []))"

definition get_code :: "grant \<Rightarrow> bytes \<Rightarrow> bytes sm" where
  "get_code grant addr = with_lock grant Shared_lock
     (sm_gets (\<lambda>s. case map_of (accounts s) (address_to_hex addr) of
         Some a \<Rightarrow> acc_code a | None \<Rightarrow> []))"

section \<open>Updates\<close>

definition put_account :: "string \<Rightarrow> sm_account \<Rightarrow> sm_state \<Rightarrow> sm_state" where
  "put_account addr a s = s\<lparr>accounts := AList.update addr a (accounts s)\<rparr>"

definition add_account :: "grant \<Rightarrow> string \<Rightarrow> sm_account \<Rightarrow> unit sm" where
  "add_account grant addr a = with_lock grant Unique_lock (sm_modify (put_account addr a))"

text \<open>The four setters look an account up, change one field of it and report success.\<close>

definition update_field :: "string \<Rightarrow> (sm_account \<Rightarrow> sm_account) \<Rightarrow> bool sm" where
  "update_field addr f held s =
     (case map_of (accounts s) addr of
        Some a \<Rightarrow> (Inr True, put_account addr (f a) s)
      | None \<Rightarrow> (Inr False, s))"

definition set_balance :: "grant \<Rightarrow> string \<Rightarrow> u64 \<Rightarrow> bool sm" where
  "set_balance grant addr b = with_lock grant Unique_lock
     (update_field addr (\<lambda>a. a\<lparr>acc_balance := b\<rparr>))"

definition set_nonce :: "grant \<Rightarrow> string \<Rightarrow> u64 \<Rightarrow> bool sm" where
  "set_nonce grant addr n = with_lock grant Unique_lock
     (update_field addr (\<lambda>a. a\<lparr>acc_nonce := n\<rparr>))"

definition set_storage :: "grant \<Rightarrow> bytes \<Rightarrow> bytes \<Rightarrow> bytes \<Rightarrow> bool sm" where
  "set_storage grant addr key val = with_lock grant Unique_lock
     (update_field (address_to_hex addr)
        (\<lambda>a. a\<lparr>acc_storage := AList.update key val (acc_storage a)\<rparr>))"

definition set_code :: "grant \<Rightarrow> bytes \<Rightarrow> bytes \<Rightarrow> bool sm" where
  "set_code grant addr code = with_lock grant Unique_lock
     (update_field (address_to_hex addr) (\<lambda>a. a\<lparr>acc_code := code\<rparr>))"

definition push_history :: "transaction \<Rightarrow> transaction list \<Rightarrow> transaction list" where
  "push_history tx h =
     (let h' = h @ [tx] in if length h' > MAX_HISTORY_PER_ACCOUNT then tl h' else h')"

definition note_history :: "string \<Rightarrow> transaction \<Rightarrow> sm_state \<Rightarrow> sm_state" where
  "note_history addr tx s =
     (let h = (case map_of (history s) addr of Some h \<Rightarrow> h | None \<Rightarrow> [])
      in s\<lparr>history := AList.update addr (push_history tx h) (history s)\<rparr>)"

definition record_transaction :: "grant \<Rightarrow> string \<Rightarrow> transaction \<Rightarrow> unit sm" where
  "record_transaction grant addr tx = with_lock grant Unique_lock (sm_modify (note_history addr tx))"

definition verify_transaction :: "grant \<Rightarrow> hash_fun \<Rightarrow> transaction \<Rightarrow> bool sm" where
  "verify_transaction grant H tx = with_lock grant Shared_lock
     (sm_bind (get_account grant (getSender tx)) (\<lambda>sender.
        case sender of
          None \<Rightarrow> sm_return False
        | Some sa \<Rightarrow>
          if getNonce tx \<noteq> acc_nonce sa + 1 then sm_return False
          else if acc_balance sa < getAmount tx + calculate_gas_cost tx then sm_return False
          else sm_return (StandardTransaction_verify H tx)))"

definition apply_transaction :: "grant \<Rightarrow> hash_fun \<Rightarrow> transaction \<Rightarrow> bool sm" where
  "apply_transaction grant H tx = with_lock grant Unique_lock
     (sm_bind (get_account grant (getSender tx)) (\<lambda>sender.
      sm_bind (get_account grant (getRecipient tx)) (\<lambda>recipient.
        case (sender, recipient) of
          (Some sa, Some ra) \<Rightarrow>
            if getNonce tx \<noteq> acc_nonce sa + 1 then sm_return False
            else
              let total_cost = getAmount tx + calculate_gas_cost tx
              in if acc_balance sa < total_cost then sm_return False
                 else if \<not> StandardTransaction_verify H tx then sm_return False
                 else
                   let sa' = sa\<lparr>acc_balance := acc_balance sa - total_cost,
                                acc_nonce := acc_nonce sa + 1\<rparr>;
                       ra' = ra\<lparr>acc_balance := acc_balance ra + getAmount tx\<rparr>
                   in sm_bind (sm_modify (put_account (acc_address sa') sa')) (\<lambda>_.
                      sm_bind (sm_modify (put_account (acc_address ra') ra')) (\<lambda>_.
                      sm_bind (record_transaction grant (acc_address sa') tx) (\<lambda>_.
                      sm_bind (record_transaction grant (acc_address ra') tx) (\<lambda>_.
                        sm_return True))))
        | _ \<Rightarrow> sm_return False)))"

definition revert_transaction :: "grant \<Rightarrow> transaction \<Rightarrow> bool sm" where
  "revert_transaction grant tx = with_lock grant Unique_lock
     (sm_bind (get_account grant (getSender tx)) (\<lambda>sender.
      sm_bind (get_account grant (getRecipient tx)) (\<lambda>recipient.
        case (sender, recipient) of
          (Some sa, Some ra) \<Rightarrow>
            let sa' = sa\<lparr>acc_balance := acc_balance sa + (getAmount tx + calculate_gas_cost tx),
                         acc_nonce := acc_nonce sa - 1\<rparr>;
                ra' = ra\<lparr>acc_balance := acc_balance ra - getAmount tx\<rparr>
            in sm_bind (sm_modify (put_account (acc_address sa') sa')) (\<lambda>_.
               sm_bind (sm_modify (put_account (acc_address ra') ra')) (\<lambda>_.
                 sm_return True))
        | _ \<Rightarrow> sm_return False)))"

fun verify_all :: "grant \<Rightarrow> hash_fun \<Rightarrow> transaction list \<Rightarrow> bool list sm" where
  "verify_all grant H [] = sm_return []"
| "verify_all grant H (tx # txs) =
     sm_bind (verify_transaction grant H tx) (\<lambda>v.
     sm_bind (verify_all grant H txs) (\<lambda>vs. sm_return (v # vs)))"

fun apply_valid :: "grant \<Rightarrow> hash_fun \<Rightarrow> (bool \<times> transaction) list \<Rightarrow> bool sm" where
  "apply_valid grant H [] = sm_return True"
| "apply_valid grant H ((v, tx) # txs) =
     (if v then sm_bind (apply_transaction grant H tx) (\<lambda>ok.
                  if \<not> ok then sm_return False else apply_valid grant H txs)
      else apply_valid grant H txs)"

definition apply_transactions :: "grant \<Rightarrow> hash_fun \<Rightarrow> transaction list \<Rightarrow> bool sm" where
  "apply_transactions grant H txs =
     sm_bind (with_lock grant Shared_lock (verify_all grant H txs)) (\<lambda>valid_txs.
     with_lock grant Unique_lock
       (sm_bind (sm_modify (\<lambda>s. s\<lparr>previous_state_root := current_state_root s\<rparr>)) (\<lambda>_.
          apply_valid grant H (zip valid_txs txs))))"

definition commit_state :: "grant \<Rightarrow> hash_fun \<Rightarrow> bool sm" where
  "commit_state grant H = with_lock grant Unique_lock
     (sm_bind (sm_modify (\<lambda>s. s\<lparr>previous_state_root := current_state_root s,
                                current_state_root := calculate_state_root H (accounts s)\<rparr>))
        (\<lambda>_. sm_return True))"

definition rollback_state :: "grant \<Rightarrow> bool sm" where
  "rollback_state grant = with_lock grant Unique_lock
     (sm_bind (sm_modify (\<lambda>s. s\<lparr>current_state_root := previous_state_root s\<rparr>))
        (\<lambda>_. sm_return True))"

definition clone :: "grant \<Rightarrow> hash_fun \<Rightarrow> sm_state sm" where
  "clone grant H = with_lock grant Shared_lock (sm_gets (\<lambda>s.
     (StateManager_init H)\<lparr>accounts := accounts s, current_state_root := current_state_root s,
        previous_state_root := previous_state_root s, history := history s\<rparr>))"

end
