(* ===== verification/Ledger_Interface.thy ===== *)
theory Ledger_Interface
  imports QPrelude
begin

text \<open>
  What the program's three account books have in common: the rollup's
  \<^verbatim>\<open>StateManager\<close>, the chain's \<^verbatim>\<open>AddressManager\<close> and the balances of the
  \<^verbatim>\<open>EVMExecutor\<close> each move an amount from one entry to another, the first
  of them burning a fee.  The interface fixes the balance function and the move,
  states the effect of a move between different entries, and concludes
  conservation of value once for all of them.
\<close>

locale value_ledger =
  fixes bal :: "'s \<Rightarrow> 'a \<Rightarrow> ('w :: len) word"
    and move :: "'s \<Rightarrow> 'a \<Rightarrow> 'a \<Rightarrow> 'w word \<Rightarrow> 'w word \<Rightarrow> 's option"
    and wf :: "'s \<Rightarrow> bool"
  assumes move_src: "wf s \<Longrightarrow> f \<noteq> t \<Longrightarrow> move s f t v fee = Some s' \<Longrightarrow>
      v + fee \<le> bal s f \<and> bal s' f = bal s f - (v + fee)"
    and move_dst: "wf s \<Longrightarrow> f \<noteq> t \<Longrightarrow> move s f t v fee = Some s' \<Longrightarrow> bal s' t = bal s t + v"
    and move_other: "wf s \<Longrightarrow> f \<noteq> t \<Longrightarrow> move s f t v fee = Some s' \<Longrightarrow>
      a \<noteq> f \<Longrightarrow> a \<noteq> t \<Longrightarrow> bal s' a = bal s a"
begin

definition total :: "'a set \<Rightarrow> 's \<Rightarrow> nat" where
  "total A s = (\<Sum>a\<in>A. unat (bal s a))"

lemma total_split:
  assumes "finite A" "f \<in> A" "t \<in> A" "f \<noteq> t"
  shows "total A s = unat (bal s f) + unat (bal s t) + total (A - {f, t}) s"
proof -
  have "total A s = unat (bal s f) + total (A - {f}) s"
    unfolding total_def using assms by (intro sum.remove) auto
  also have "total (A - {f}) s = unat (bal s t) + total (A - {f} - {t}) s"
    unfolding total_def using assms by (intro sum.remove) auto
  also have "A - {f} - {t} = A - {f, t}" by auto
  finally show ?thesis by simp
qed

lemma move_conserves:
  assumes "wf s" "move s f t v fee = Some s'" "f \<noteq> t"
    and A: "finite A" "f \<in> A" "t \<in> A"
    and cost: "unat v + unat fee < 2 ^ LENGTH('w)"
    and room: "unat (bal s t) + unat v < 2 ^ LENGTH('w)"
  shows "total A s' + unat fee = total A s"
proof -
  have sum: "unat (v + fee) = unat v + unat fee"
    using cost by (simp add: unat_word_ariths)
  have src: "unat (bal s' f) + (unat v + unat fee) = unat (bal s f)"
    using move_src [OF assms(1,3,2)] sum
    by (metis le_add_diff_inverse2 unat_sub word_le_nat_alt)
  have dst: "unat (bal s' t) = unat (bal s t) + unat v"
    using move_dst [OF assms(1,3,2)] room by (simp add: unat_word_ariths)
  have rest: "total (A - {f, t}) s' = total (A - {f, t}) s"
    unfolding total_def by (rule sum.cong) (auto simp: move_other [OF assms(1,3,2)])
  show ?thesis
    using total_split [OF A assms(3), of s] total_split [OF A assms(3), of s'] src dst rest by simp
qed

lemma move_affordable:
  assumes "wf s" "move s f t v fee = Some s'" "f \<noteq> t"
  shows "v + fee \<le> bal s f"
  using move_src [OF assms(1,3,2)] by blast

end

end
