(* ===== verification/State_Laws.thy ===== *)
theory State_Laws
  imports State_Manager Ledger_Interface
begin

text \<open>
  What holds of the rollup's \<^verbatim>\<open>StateManager\<close>: the invariant of every state that a
  manager can reach, under any mutex; what its methods do with the documented
  \<^verbatim>\<open>std::shared_mutex\<close>, where those that lock twice throw; and what the method bodies
  compute with the locks erased: a step of an abstract ledger, conservation of value, and
  the flaws that the nested locking hides.
\<close>

section \<open>Rules for the method monad\<close>

named_theorems sm_run \<open>execution of the method combinators on a state\<close>

lemma with_lock_erased [sm_run]:
  "with_lock locks_erased m body held s = body (m # held) s"
  by (simp add: with_lock_def locks_erased_def)

lemma sm_return_run [sm_run]: "sm_return a held s = (Inr a, s)"
  by (simp add: sm_return_def)

lemma sm_gets_run [sm_run]: "sm_gets f held s = (Inr (f s), s)"
  by (simp add: sm_gets_def)

lemma sm_modify_run [sm_run]: "sm_modify f held s = (Inr (), f s)"
  by (simp add: sm_modify_def)

lemma sm_bind_run:
  "sm_bind m f held s = (case m held s of (Inl e, s') \<Rightarrow> (Inl e, s') | (Inr a, s') \<Rightarrow> f a held s')"
  by (simp add: sm_bind_def)

lemma sm_bind_Inr [sm_run]: "m held s = (Inr a, s') \<Longrightarrow> sm_bind m f held s = f a held s'"
  by (simp add: sm_bind_run)

lemma get_account_erased [sm_run]:
  "get_account locks_erased addr held s = (Inr (map_of (accounts s) addr), s)"
  by (simp add: get_account_def sm_run)

section \<open>The state invariant\<close>

text \<open>\<open>sm_inv R s\<close>: the two maps have distinct keys, no history is longer than the limit, and both
  roots are in \<open>R\<close>.\<close>

definition sm_inv :: "bytes set \<Rightarrow> sm_state \<Rightarrow> bool" where
  "sm_inv R s \<longleftrightarrow> distinct (keys (accounts s)) \<and> distinct (keys (history s))
     \<and> (\<forall>k h. map_of (history s) k = Some h \<longrightarrow> length h \<le> MAX_HISTORY_PER_ACCOUNT)
     \<and> current_state_root s \<in> R \<and> previous_state_root s \<in> R"

text \<open>\<open>keeps R m\<close>: the computation keeps the invariant whether it returns or throws.\<close>

definition keeps :: "bytes set \<Rightarrow> 'a sm \<Rightarrow> bool" where
  "keeps R m \<longleftrightarrow> (\<forall>held s. sm_inv R s \<longrightarrow> sm_inv R (snd (m held s)))"

named_theorems keeps_intros \<open>rules that carry the invariant through a method body\<close>

lemma keepsD: "keeps R m \<Longrightarrow> sm_inv R s \<Longrightarrow> sm_inv R (snd (m held s))"
  by (simp add: keeps_def)

lemma keeps_return [keeps_intros]: "keeps R (sm_return a)"
  by (simp add: keeps_def sm_run)

lemma keeps_gets [keeps_intros]: "keeps R (sm_gets f)"
  by (simp add: keeps_def sm_run)

lemma keeps_modify: "(\<And>s. sm_inv R s \<Longrightarrow> sm_inv R (f s)) \<Longrightarrow> keeps R (sm_modify f)"
  by (simp add: keeps_def sm_run)

lemma keeps_bind [keeps_intros]: "keeps R m \<Longrightarrow> (\<And>a. keeps R (f a)) \<Longrightarrow> keeps R (sm_bind m f)"
  by (auto simp: keeps_def sm_bind_run split: prod.split sum.split) (metis snd_conv)+

lemma keeps_with_lock [keeps_intros]: "keeps R m \<Longrightarrow> keeps R (with_lock grant k m)"
  by (auto simp: keeps_def with_lock_def)

lemma sm_inv_put [intro]: "sm_inv R s \<Longrightarrow> sm_inv R (put_account k a s)"
  by (auto simp: sm_inv_def put_account_def alist_simps)

lemma length_push_history:
  "length h \<le> MAX_HISTORY_PER_ACCOUNT \<Longrightarrow> length (push_history tx h) \<le> MAX_HISTORY_PER_ACCOUNT"
  by (simp add: push_history_def Let_def)

lemma sm_inv_note [intro]: "sm_inv R s \<Longrightarrow> sm_inv R (note_history k tx s)"
  by (auto simp: sm_inv_def note_history_def alist_simps Let_def length_push_history
      MAX_HISTORY_PER_ACCOUNT_def push_history_def split: option.splits)

lemma keeps_put_account [keeps_intros]: "keeps R (sm_modify (put_account k a))"
  by (intro keeps_modify sm_inv_put)

lemma keeps_update_field [keeps_intros]: "keeps R (update_field k f)"
  by (auto simp: keeps_def update_field_def split: option.split)

lemma keeps_get_account [keeps_intros]: "keeps R (get_account grant addr)"
  unfolding get_account_def by (intro keeps_intros)

lemma keeps_record [keeps_intros]: "keeps R (record_transaction grant addr tx)"
  unfolding record_transaction_def by (intro keeps_intros keeps_modify sm_inv_note)

lemma keeps_case [keeps_intros]:
  "keeps R m \<Longrightarrow> (\<And>a. keeps R (f a)) \<Longrightarrow> keeps R (case_option m f x)"
  "keeps R m \<Longrightarrow> keeps R m' \<Longrightarrow> keeps R (if b then m else m')"
  by (simp_all split: option.split)

lemma keeps_verify_transaction [keeps_intros]: "keeps R (verify_transaction grant H tx)"
  unfolding verify_transaction_def by (intro keeps_intros)

lemma keeps_apply_transaction [keeps_intros]: "keeps R (apply_transaction grant H tx)"
  unfolding apply_transaction_def Let_def case_prod_conv by (intro keeps_intros)

lemma keeps_revert_transaction [keeps_intros]: "keeps R (revert_transaction grant tx)"
  unfolding revert_transaction_def Let_def case_prod_conv by (intro keeps_intros)

lemma keeps_verify_all [keeps_intros]: "keeps R (verify_all grant H txs)"
  by (induction txs) (simp_all add: keeps_intros)

lemma keeps_apply_valid [keeps_intros]: "keeps R (apply_valid grant H txs)"
  by (induction grant H txs rule: apply_valid.induct) (simp_all add: keeps_intros)

lemma keeps_apply_transactions [keeps_intros]: "keeps R (apply_transactions grant H txs)"
  unfolding apply_transactions_def by (intro keeps_intros keeps_modify) (simp add: sm_inv_def)

lemma keeps_rollback [keeps_intros]: "keeps R (rollback_state grant)"
  unfolding rollback_state_def by (intro keeps_intros keeps_modify) (simp add: sm_inv_def)

lemma keeps_updates [keeps_intros]:
  "keeps R (set_balance grant k b)" "keeps R (set_nonce grant k n)"
  "keeps R (set_storage grant addr key val)" "keeps R (set_code grant addr c)"
  "keeps R (add_account grant k a)"
  unfolding set_balance_def set_nonce_def set_storage_def set_code_def add_account_def
  by (intro keeps_intros)+

text \<open>A commit installs the root of the accounts it finds.\<close>

lemma commit_inv:
  "sm_inv R s \<Longrightarrow> calculate_state_root H (accounts s) \<in> R \<Longrightarrow> sm_inv R (snd (commit_state grant H held s))"
  by (simp add: commit_state_def with_lock_def sm_bind_run sm_run sm_inv_def)

section \<open>Sequences of calls\<close>

text \<open>The public methods, the queries included, and what a caller gets back.\<close>

datatype sm_op = Add_account string sm_account | Apply_transaction transaction
  | Apply_transactions "transaction list" | Revert_transaction transaction
  | Record_transaction string transaction | Commit_state | Rollback_state
  | Set_balance string u64 | Set_nonce string u64 | Set_storage bytes bytes bytes
  | Set_code bytes bytes | Verify_transaction transaction
  | Get_account string | Get_account_history string | Get_state_root | Get_previous_root
  | Get_accounts_snapshot | Get_balance string | Get_nonce string | Get_storage bytes bytes | Get_code bytes

datatype sm_answer = Done | Answer bool | Account_answer "sm_account option" | Bytes_answer bytes
  | Word_answer u64 | History_answer "transaction list" | Snapshot_answer "(string \<times> sm_account) list"

definition sm_invoke :: "('a \<Rightarrow> sm_answer) \<Rightarrow> 'a sm \<Rightarrow> sm_state \<Rightarrow> (sm_error + sm_answer) \<times> sm_state" where
  "sm_invoke f m s = (case m [] s of (r, s') \<Rightarrow> (map_sum id f r, s'))"

fun run_op :: "grant \<Rightarrow> hash_fun \<Rightarrow> sm_op \<Rightarrow> sm_state \<Rightarrow> (sm_error + sm_answer) \<times> sm_state" where
  "run_op grant H (Add_account k a) = sm_invoke (\<lambda>_. Done) (add_account grant k a)"
| "run_op grant H (Apply_transaction tx) = sm_invoke Answer (apply_transaction grant H tx)"
| "run_op grant H (Apply_transactions txs) = sm_invoke Answer (apply_transactions grant H txs)"
| "run_op grant H (Revert_transaction tx) = sm_invoke Answer (revert_transaction grant tx)"
| "run_op grant H (Record_transaction k tx) = sm_invoke (\<lambda>_. Done) (record_transaction grant k tx)"
| "run_op grant H Commit_state = sm_invoke Answer (commit_state grant H)"
| "run_op grant H Rollback_state = sm_invoke Answer (rollback_state grant)"
| "run_op grant H (Set_balance k b) = sm_invoke Answer (set_balance grant k b)"
| "run_op grant H (Set_nonce k n) = sm_invoke Answer (set_nonce grant k n)"
| "run_op grant H (Set_storage a k v) = sm_invoke Answer (set_storage grant a k v)"
| "run_op grant H (Set_code a c) = sm_invoke Answer (set_code grant a c)"
| "run_op grant H (Verify_transaction tx) = sm_invoke Answer (verify_transaction grant H tx)"
| "run_op grant H (Get_account k) = sm_invoke Account_answer (get_account grant k)"
| "run_op grant H (Get_account_history k) = sm_invoke History_answer (get_account_history grant k)"
| "run_op grant H Get_state_root = sm_invoke Bytes_answer (get_state_root grant)"
| "run_op grant H Get_previous_root = sm_invoke Bytes_answer (get_previous_root grant)"
| "run_op grant H Get_accounts_snapshot = sm_invoke Snapshot_answer (get_accounts_snapshot grant)"
| "run_op grant H (Get_balance k) = sm_invoke Word_answer (get_balance grant k)"
| "run_op grant H (Get_nonce k) = sm_invoke Word_answer (get_nonce grant k)"
| "run_op grant H (Get_storage a k) = sm_invoke Bytes_answer (get_storage grant a k)"
| "run_op grant H (Get_code a) = sm_invoke Bytes_answer (get_code grant a)"

text \<open>
  The runs of a manager from its constructor under any sequence of calls with any
  arguments: the states it has passed, the present one first, and the present one.
\<close>

inductive sm_reachable :: "grant \<Rightarrow> hash_fun \<Rightarrow> sm_state list \<Rightarrow> sm_state \<Rightarrow> bool" for grant H where
  sm_init: "sm_reachable grant H [StateManager_init H] (StateManager_init H)"
| sm_call: "sm_reachable grant H past s \<Longrightarrow> run_op grant H op s = (r, s') \<Longrightarrow> sm_reachable grant H (s' # past) s'"

inductive_cases sm_reachableE: "sm_reachable grant H past s"

definition roots_of :: "hash_fun \<Rightarrow> sm_state list \<Rightarrow> bytes set" where
  "roots_of H past = (\<lambda>t. calculate_state_root H (accounts t)) ` set past"

lemma sm_invoke_snd [simp]: "snd (sm_invoke f m s) = snd (m [] s)"
  by (simp add: sm_invoke_def split: prod.split)

lemma keeps_queries [keeps_intros]:
  "keeps R (get_account_history grant k)" "keeps R (get_state_root grant)" "keeps R (get_previous_root grant)"
  "keeps R (get_accounts_snapshot grant)" "keeps R (get_balance grant k)" "keeps R (get_nonce grant k)"
  "keeps R (get_storage grant a key)" "keeps R (get_code grant a)"
  unfolding get_account_history_def get_state_root_def get_previous_root_def get_accounts_snapshot_def
    get_balance_def get_nonce_def get_storage_def get_code_def
  by (intro keeps_intros)+

lemma run_op_inv:
  assumes "sm_inv R s" "calculate_state_root H (accounts s) \<in> R"
  shows "sm_inv R (snd (run_op grant H op s))"
  using assms by (cases op) (simp_all add: keepsD keeps_intros commit_inv)

lemma sm_inv_mono: "sm_inv R s \<Longrightarrow> R \<subseteq> R' \<Longrightarrow> sm_inv R' s"
  by (auto simp: sm_inv_def)

lemma sm_reachable_keeps: "sm_reachable grant H past s \<Longrightarrow> sm_inv (roots_of H past) s \<and> s \<in> set past"
proof (induction rule: sm_reachable.induct)
  case sm_init
  then show ?case by (simp add: sm_inv_def roots_of_def StateManager_init_def)
next
  case (sm_call past s op r s')
  then have "sm_inv (roots_of H past) (snd (run_op grant H op s))"
    by (intro run_op_inv) (auto simp: roots_of_def)
  with sm_call(2) show ?case by (auto intro: sm_inv_mono simp: roots_of_def)
qed

text \<open>Accounts that are registered under their own address; \<^verbatim>\<open>add_account\<close> does not check it.\<close>

definition own_addresses :: "sm_state \<Rightarrow> bool" where
  "own_addresses s \<longleftrightarrow> (\<forall>k a. map_of (accounts s) k = Some a \<longrightarrow> acc_address a = k)"

lemma own_addressesD: "own_addresses s \<Longrightarrow> map_of (accounts s) k = Some a \<Longrightarrow> acc_address a = k"
  unfolding own_addresses_def by blast

section \<open>The method bodies with the locks erased\<close>

lemma record_erased [sm_run]:
  "record_transaction locks_erased addr tx held s = (Inr (), note_history addr tx s)"
  by (simp add: record_transaction_def sm_run)

lemma accounts_note_history [simp]: "accounts (note_history addr tx s) = accounts s"
  by (simp add: note_history_def Let_def)

lemma accounts_put_account [simp]:
  "accounts (put_account k a s) = AList.update k a (accounts s)"
  by (simp add: put_account_def)

definition admissible :: "hash_fun \<Rightarrow> transaction \<Rightarrow> sm_account \<Rightarrow> bool" where
  "admissible H tx sa \<longleftrightarrow> getNonce tx = acc_nonce sa + 1
     \<and> getAmount tx + calculate_gas_cost tx \<le> acc_balance sa \<and> StandardTransaction_verify H tx"

definition debited :: "transaction \<Rightarrow> sm_account \<Rightarrow> sm_account" where
  "debited tx sa = sa\<lparr>acc_balance := acc_balance sa - (getAmount tx + calculate_gas_cost tx),
     acc_nonce := acc_nonce sa + 1\<rparr>"

definition credited :: "transaction \<Rightarrow> sm_account \<Rightarrow> sm_account" where
  "credited tx ra = ra\<lparr>acc_balance := acc_balance ra + getAmount tx\<rparr>"

lemma apply_transaction_run:
  "apply_transaction locks_erased H tx held s =
     (case (map_of (accounts s) (getSender tx), map_of (accounts s) (getRecipient tx)) of
        (Some sa, Some ra) \<Rightarrow>
          if admissible H tx sa
          then (Inr True, note_history (acc_address ra) tx (note_history (acc_address sa) tx
                 (put_account (acc_address ra) (credited tx ra)
                   (put_account (acc_address sa) (debited tx sa) s))))
          else (Inr False, s)
      | _ \<Rightarrow> (Inr False, s))"
  unfolding apply_transaction_def
  by (auto simp: sm_run admissible_def debited_def credited_def Let_def not_less
      split: option.split)

lemma apply_transaction_success:
  assumes "apply_transaction locks_erased H tx held s = (Inr True, s')"
  obtains sa ra where "map_of (accounts s) (tx_sender tx) = Some sa"
    "map_of (accounts s) (tx_receiver tx) = Some ra" "admissible H tx sa"
    "s' = note_history (acc_address ra) tx (note_history (acc_address sa) tx
        (put_account (acc_address ra) (credited tx ra)
          (put_account (acc_address sa) (debited tx sa) s)))"
  using assms unfolding apply_transaction_run tx_getters
  by (cases "map_of (accounts s) (tx_sender tx)"; cases "map_of (accounts s) (tx_receiver tx)")
     (simp_all split: if_splits del: map_of_eq_Some_iff)

lemma verify_transaction_run:
  "verify_transaction locks_erased H tx held s =
     (case map_of (accounts s) (getSender tx) of
        Some sa \<Rightarrow> (Inr (admissible H tx sa), s) | None \<Rightarrow> (Inr False, s))"
  unfolding verify_transaction_def
  by (auto simp: sm_run admissible_def not_less split: option.split)

lemma revert_transaction_run:
  "revert_transaction locks_erased tx held s =
     (case (map_of (accounts s) (getSender tx), map_of (accounts s) (getRecipient tx)) of
        (Some sa, Some ra) \<Rightarrow>
          (Inr True,
            put_account (acc_address ra) (ra\<lparr>acc_balance := acc_balance ra - getAmount tx\<rparr>)
              (put_account (acc_address sa)
                (sa\<lparr>acc_balance := acc_balance sa + (getAmount tx + calculate_gas_cost tx),
                    acc_nonce := acc_nonce sa - 1\<rparr>) s))
      | _ \<Rightarrow> (Inr False, s))"
  unfolding revert_transaction_def
  by (auto simp: sm_run Let_def split: option.split)

section \<open>The abstract ledger\<close>

text \<open>
  A ledger maps an address to its balance and nonce.  \<open>ledger_apply\<close> is what a
  transfer means: both sides are read before either is written, the sender's
  entry is written first.
\<close>

type_synonym ledger = "string \<rightharpoonup> u64 \<times> u64"

definition ledger_of :: "sm_state \<Rightarrow> ledger" where
  "ledger_of s = (\<lambda>k. map_option (\<lambda>a. (acc_balance a, acc_nonce a)) (map_of (accounts s) k))"

definition ledger_apply :: "hash_fun \<Rightarrow> transaction \<Rightarrow> ledger \<Rightarrow> bool \<times> ledger" where
  "ledger_apply H tx L =
     (case (L (tx_sender tx), L (tx_receiver tx)) of
        (Some (b, n), Some (b', n')) \<Rightarrow>
          if tx_nonce tx = n + 1 \<and> tx_value tx + tx_gas_cost tx \<le> b \<and> StandardTransaction_verify H tx
          then (True, L(tx_sender tx \<mapsto> (b - (tx_value tx + tx_gas_cost tx), n + 1),
                        tx_receiver tx \<mapsto> (b' + tx_value tx, n')))
          else (False, L)
      | _ \<Rightarrow> (False, L))"

lemma ledger_of_put:
  "ledger_of (put_account k a s) = (ledger_of s)(k \<mapsto> (acc_balance a, acc_nonce a))"
  by (rule ext) (simp add: ledger_of_def alist_simps)

lemma ledger_of_note [simp]: "ledger_of (note_history k tx s) = ledger_of s"
  by (simp add: ledger_of_def)

lemma apply_refines_ledger:
  assumes "own_addresses s"
  shows "fst (apply_transaction locks_erased H tx held s)
       = Inr (fst (ledger_apply H tx (ledger_of s)))"
    and "ledger_of (snd (apply_transaction locks_erased H tx held s))
       = snd (ledger_apply H tx (ledger_of s))"
  using own_addressesD [OF assms, of "tx_sender tx"] own_addressesD [OF assms, of "tx_receiver tx"]
  by (auto simp: apply_transaction_run ledger_apply_def ledger_of_put admissible_def debited_def
      credited_def tx_getters ledger_of_def [of s] split: option.split)

section \<open>Conservation of value\<close>

definition sm_balance :: "sm_state \<Rightarrow> string \<Rightarrow> u64" where
  "sm_balance s k = (case map_of (accounts s) k of Some a \<Rightarrow> acc_balance a | None \<Rightarrow> 0)"

text \<open>The transfer that a signed transaction from \<open>f\<close> to \<open>t\<close> performs.\<close>

definition sm_move :: "hash_fun \<Rightarrow> transaction \<Rightarrow> sm_state \<Rightarrow> string \<Rightarrow> string \<Rightarrow> u64 \<Rightarrow> u64
    \<Rightarrow> sm_state option" where
  "sm_move H tx s f t v fee =
     (case apply_transaction locks_erased H
             (tx\<lparr>tx_sender := f, tx_receiver := t, tx_value := v, tx_gas_cost := fee\<rparr>) [] s of
        (Inr True, s') \<Rightarrow> Some s' | _ \<Rightarrow> None)"

lemma get_balance_sm_balance:
  "get_balance locks_erased k held s = (Inr (sm_balance s k), s)"
  by (simp add: get_balance_def sm_balance_def sm_run)

lemma sm_balance_put:
  "sm_balance (put_account k a s) x = (if x = k then acc_balance a else sm_balance s x)"
  by (simp add: sm_balance_def alist_simps)

lemma sm_balance_note [simp]: "sm_balance (note_history k tx s) = sm_balance s"
  by (rule ext) (simp add: sm_balance_def)

lemma sm_move_SomeD:
  "sm_move H tx s f t v fee = Some s' \<Longrightarrow>
   apply_transaction locks_erased H
     (tx\<lparr>tx_sender := f, tx_receiver := t, tx_value := v, tx_gas_cost := fee\<rparr>) [] s = (Inr True, s')"
  unfolding sm_move_def by (simp split: prod.splits sum.splits bool.splits)

lemma sm_move_effect:
  assumes "own_addresses s" "sm_move H tx s f t v fee = Some s'"
  shows "\<exists>sa ra. map_of (accounts s) f = Some sa \<and> map_of (accounts s) t = Some ra
    \<and> v + fee \<le> acc_balance sa
    \<and> sm_balance s' = (sm_balance s)(f := acc_balance sa - (v + fee), t := acc_balance ra + v)"
proof -
  from sm_move_SomeD [OF assms(2)] obtain sa ra
    where acc: "map_of (accounts s) f = Some sa" "map_of (accounts s) t = Some ra"
      and adm: "v + fee \<le> acc_balance sa"
      and s': "sm_balance s' = sm_balance (put_account (acc_address ra)
          (ra\<lparr>acc_balance := acc_balance ra + v\<rparr>) (put_account (acc_address sa)
          (sa\<lparr>acc_balance := acc_balance sa - (v + fee), acc_nonce := acc_nonce sa + 1\<rparr>) s))"
    by (rule apply_transaction_success)
       (simp add: admissible_def debited_def credited_def tx_getters del: map_of_eq_Some_iff)
  have "acc_address sa = f" "acc_address ra = t"
    using own_addressesD [OF assms(1)] acc by blast+
  with acc adm s' show ?thesis
    by (simp add: fun_eq_iff sm_balance_put del: map_of_eq_Some_iff)
qed

lemma sm_balance_Some: "map_of (accounts s) k = Some a \<Longrightarrow> sm_balance s k = acc_balance a"
  by (simp add: sm_balance_def)

interpretation sml: value_ledger sm_balance "sm_move H tx" own_addresses for H tx
proof
  fix s s' :: sm_state and f t :: string and v fee :: u64
  assume "own_addresses s" "f \<noteq> t" "sm_move H tx s f t v fee = Some s'"
  from sm_move_effect [OF this(1,3)] this(2)
  show "v + fee \<le> sm_balance s f \<and> sm_balance s' f = sm_balance s f - (v + fee)"
    and "sm_balance s' t = sm_balance s t + v"
    and "\<And>a. a \<noteq> f \<Longrightarrow> a \<noteq> t \<Longrightarrow> sm_balance s' a = sm_balance s a"
    by (fastforce dest!: sm_balance_Some simp del: map_of_eq_Some_iff)+
qed

section \<open>Batches\<close>

definition valid_now :: "hash_fun \<Rightarrow> sm_state \<Rightarrow> transaction \<Rightarrow> bool" where
  "valid_now H s tx = (case map_of (accounts s) (getSender tx) of
     Some sa \<Rightarrow> admissible H tx sa | None \<Rightarrow> False)"

lemma zip_map_self: "zip (map f xs) xs = map (\<lambda>x. (f x, x)) xs"
  by (induction xs) simp_all

lemma verify_all_run:
  "verify_all locks_erased H txs held s = (Inr (map (valid_now H s) txs), s)"
  by (induction txs)
     (simp_all add: sm_run verify_transaction_run sm_bind_run valid_now_def split: option.split)

lemma apply_transactions_run:
  "apply_transactions locks_erased H txs held s =
     apply_valid locks_erased H (map (\<lambda>tx. (valid_now H s tx, tx)) txs)
       (Unique_lock # held) (s\<lparr>previous_state_root := current_state_root s\<rparr>)"
  by (simp add: apply_transactions_def sm_run sm_bind_run verify_all_run zip_map_self)

section \<open>The mutex of the C++ library\<close>

lemma glibc_unique_blocks:
  "Unique_lock \<in> set held \<Longrightarrow> get_account glibc_grant addr held s = (Inl Deadlock, s)"
  "held \<noteq> [] \<Longrightarrow> record_transaction glibc_grant addr tx held s = (Inl Deadlock, s)"
  by (simp_all add: get_account_def record_transaction_def with_lock_def glibc_grant_def)

lemma glibc_verify:
  assumes "Unique_lock \<notin> set held"
  shows "verify_transaction glibc_grant H tx held s = verify_transaction locks_erased H tx held s"
  using assms
  by (simp add: verify_transaction_def get_account_def with_lock_def glibc_grant_def
      locks_erased_def sm_bind_run sm_run split: option.split)

lemma glibc_verify_all:
  "Unique_lock \<notin> set held \<Longrightarrow>
   verify_all glibc_grant H txs held s = verify_all locks_erased H txs held s"
  by (induction txs arbitrary: s)
     (simp_all add: glibc_verify sm_bind_run split: prod.split sum.split)

lemma glibc_apply_deadlock:
  "apply_transaction glibc_grant H tx held s = (Inl Deadlock, s)"
  "revert_transaction glibc_grant tx held s = (Inl Deadlock, s)"
  by (simp_all add: apply_transaction_def revert_transaction_def with_lock_def sm_bind_run
      glibc_unique_blocks)

lemma glibc_apply_valid:
  "apply_valid glibc_grant H ps held s =
     (if \<exists>p\<in>set ps. fst p then (Inl Deadlock, s) else (Inr True, s))"
proof (induction ps)
  case (Cons p ps)
  then show ?case by (cases p) (simp add: sm_bind_run glibc_apply_deadlock)
qed (simp add: sm_run)

lemma glibc_apply_transactions:
  "apply_transactions glibc_grant H txs [] s =
     (let s' = s\<lparr>previous_state_root := current_state_root s\<rparr>
      in if \<exists>tx\<in>set txs. valid_now H s tx then (Inl Deadlock, s') else (Inr True, s'))"
proof -
  have "with_lock glibc_grant Shared_lock (verify_all glibc_grant H txs) [] s
      = (Inr (map (valid_now H s) txs), s)"
    by (simp add: with_lock_def glibc_grant_def [of "[]"] glibc_verify_all verify_all_run)
  then show ?thesis
    by (simp add: apply_transactions_def sm_run zip_map_self with_lock_def
        glibc_grant_def [of "[]"] glibc_apply_valid Let_def)
qed

section \<open>Properties\<close>

text \<open>Example data: two accounts and a transfer signed under a constant hash.\<close>

definition demo_hash :: hash_fun where "demo_hash _ = replicate 32 0"

definition demo_account :: "string \<Rightarrow> u64 \<Rightarrow> u64 \<Rightarrow> sm_account" where
  "demo_account k b n = \<lparr>acc_address = k, acc_balance = b, acc_nonce = n, acc_code = [], acc_storage = []\<rparr>"

definition demo_state :: sm_state where
  "demo_state = \<lparr>accounts = [(''A'', demo_account ''A'' 100 0), (''B'', demo_account ''B'' 7 3)],
     current_state_root = [], previous_state_root = [], history = []\<rparr>"

definition demo_tx :: "string \<Rightarrow> string \<Rightarrow> u64 \<Rightarrow> u64 \<Rightarrow> u64 \<Rightarrow> transaction" where
  "demo_tx f t v g n = \<lparr>tx_timestamp = 0, tx_sender = f, tx_receiver = t, tx_value = v, tx_data = [],
     tx_signature = replicate 32 0, tx_nonce = n, tx_gas_cost = g\<rparr>"

lemmas demo_defs = demo_hash_def demo_account_def demo_state_def demo_tx_def

lemma demo_tx_sel [simp]:
  "tx_sender (demo_tx f t v g n) = f" "tx_receiver (demo_tx f t v g n) = t"
  "tx_value (demo_tx f t v g n) = v" "tx_gas_cost (demo_tx f t v g n) = g"
  "tx_nonce (demo_tx f t v g n) = n"
  by (simp_all add: demo_tx_def)

lemma demo_account_sel [simp]:
  "acc_address (demo_account k b n) = k" "acc_balance (demo_account k b n) = b"
  "acc_nonce (demo_account k b n) = n"
  "(demo_account k b n)\<lparr>acc_balance := b'\<rparr> = demo_account k b' n"
  "(demo_account k b n)\<lparr>acc_nonce := n'\<rparr> = demo_account k b n'"
  by (simp_all add: demo_account_def)

lemma demo_lookup [simp]:
  "map_of (accounts demo_state) ''A'' = Some (demo_account ''A'' 100 0)"
  "map_of (accounts demo_state) ''B'' = Some (demo_account ''B'' 7 3)"
  by (simp_all add: demo_state_def)

lemma demo_own: "own_addresses demo_state"
  by (simp add: own_addresses_def demo_defs)

lemma demo_verify: "f \<noteq> [] \<Longrightarrow> t \<noteq> [] \<Longrightarrow> StandardTransaction_verify demo_hash (demo_tx f t v g n)"
  by (simp add: StandardTransaction_verify_def demo_defs)

text \<open>C2: Every state that a StateManager can reach from its constructor by any sequence of calls of
  its public methods, with any arguments, under any mutex implementation and including calls that
  throw half way, has distinct account and history keys and at most 1000 history entries per
  account, and its current and its previous root are each the root of the accounts of a state
  that the same manager has passed.\<close>

theorem sm_reachable_inv:
  assumes "sm_reachable grant H past s"
  shows "distinct (keys (accounts s)) \<and> distinct (keys (history s))
    \<and> (\<forall>k h. map_of (history s) k = Some h \<longrightarrow> length h \<le> 1000)
    \<and> (\<exists>t \<in> set past. current_state_root s = calculate_state_root H (accounts t))
    \<and> (\<exists>t \<in> set past. previous_state_root s = calculate_state_root H (accounts t))"
  using sm_reachable_keeps [OF assms]
  by (auto simp: sm_inv_def roots_of_def MAX_HISTORY_PER_ACCOUNT_def)

theorem sm_reachable_inv_witness:
  "\<exists>past. length past = 4 \<and> sm_reachable glibc_grant demo_hash past (hd past)
    \<and> keys (accounts (hd past)) = [''A''] \<and> distinct (keys (accounts (hd past)))"
proof -
  let ?s0 = "StateManager_init demo_hash"
  let ?s1 = "snd (run_op glibc_grant demo_hash (Add_account ''A'' (demo_account ''B'' 5 0)) ?s0)"
  let ?s2 = "snd (run_op glibc_grant demo_hash (Apply_transactions [demo_tx ''A'' ''A'' 1 1 1]) ?s1)"
  let ?s3 = "snd (run_op glibc_grant demo_hash Commit_state ?s2)"
  have r: "sm_reachable glibc_grant demo_hash [?s3, ?s2, ?s1, ?s0] ?s3"
    by (intro sm_call [OF _ prod.collapse [symmetric]] sm_init)
  have "accounts ?s2 = accounts ?s1"
    by (simp add: glibc_apply_transactions Let_def)
  then have "keys (accounts ?s3) = [''A'']"
    by (simp add: commit_state_def add_account_def with_lock_def sm_bind_run sm_run glibc_grant_def
        StateManager_init_def)
  with r sm_reachable_inv [OF r] show ?thesis by (intro exI [of _ "[?s3, ?s2, ?s1, ?s0]"]) simp
qed

text \<open>With the locks erased, value is conserved: a successful transfer between two different accounts lowers
  the sum of the balances of any finite set of accounts containing both by exactly
  the gas cost, provided the cost and the recipient's new balance fit in 64 bits.\<close>

theorem apply_transaction_conserves:
  assumes "own_addresses s" "apply_transaction locks_erased H tx [] s = (Inr True, s')"
    and "tx_sender tx \<noteq> tx_receiver tx"
    and "finite A" "tx_sender tx \<in> A" "tx_receiver tx \<in> A"
    and "unat (tx_value tx) + unat (tx_gas_cost tx) < 2 ^ 64"
    and "unat (sm_balance s (tx_receiver tx)) + unat (tx_value tx) < 2 ^ 64"
  shows "(\<Sum>a\<in>A. unat (sm_balance s' a)) + unat (tx_gas_cost tx) = (\<Sum>a\<in>A. unat (sm_balance s a))"
proof -
  have "sm_move H tx s (tx_sender tx) (tx_receiver tx) (tx_value tx) (tx_gas_cost tx) = Some s'"
    using assms(2) by (simp add: sm_move_def)
  from sml.move_conserves [OF assms(1) this assms(3-6)] assms(7,8) show ?thesis
    by (simp add: sml.total_def)
qed

lemma demo_apply:
  "apply_transaction locks_erased demo_hash (demo_tx ''A'' ''B'' 30 5 1) [] demo_state
   = (Inr True, note_history ''B'' (demo_tx ''A'' ''B'' 30 5 1)
       (note_history ''A'' (demo_tx ''A'' ''B'' 30 5 1)
       (put_account ''B'' (demo_account ''B'' 37 3)
         (put_account ''A'' (demo_account ''A'' 65 1) demo_state))))"
  using demo_verify [of "''A''" "''B''" 30 5 1]
  by (simp add: apply_transaction_run admissible_def tx_getters debited_def credited_def)

theorem apply_transaction_conserves_witness:
  "(\<Sum>a\<in>{''A'', ''B''}. unat (sm_balance (snd (apply_transaction locks_erased demo_hash
      (demo_tx ''A'' ''B'' 30 5 1) [] demo_state)) a)) + 5 = (107 :: nat)"
proof -
  have "unat (sm_balance demo_state ''A'') = 100" "unat (sm_balance demo_state ''B'') = 7"
    by (simp_all add: sm_balance_def demo_defs)
  then show ?thesis
    using apply_transaction_conserves [OF demo_own demo_apply, of "{''A'', ''B''}"]
    by (simp add: demo_apply)
qed

text \<open>With the locks erased, revert_transaction undoes apply_transaction: after a successful transfer between
  two different accounts, reverting the same transaction gives back every balance and
  every nonce, also when an addition of the transfer wrapped around.\<close>

theorem revert_undoes_apply:
  assumes "own_addresses s" "apply_transaction locks_erased H tx held s = (Inr True, s')"
    and "tx_sender tx \<noteq> tx_receiver tx"
  shows "fst (revert_transaction locks_erased tx held s') = Inr True
    \<and> ledger_of (snd (revert_transaction locks_erased tx held s')) = ledger_of s"
proof -
  obtain sa ra where acc: "map_of (accounts s) (tx_sender tx) = Some sa"
      "map_of (accounts s) (tx_receiver tx) = Some ra"
    and s': "s' = note_history (acc_address ra) tx (note_history (acc_address sa) tx
        (put_account (acc_address ra) (credited tx ra)
          (put_account (acc_address sa) (debited tx sa) s)))"
    using assms(2) by (rule apply_transaction_success)
  have addr: "acc_address sa = tx_sender tx" "acc_address ra = tx_receiver tx"
    using own_addressesD [OF assms(1)] acc by blast+
  have "ledger_of s (tx_sender tx) = Some (acc_balance sa, acc_nonce sa)"
      "ledger_of s (tx_receiver tx) = Some (acc_balance ra, acc_nonce ra)"
    using acc by (simp_all add: ledger_of_def)
  then have "(ledger_of s)(tx_sender tx \<mapsto> (acc_balance sa, acc_nonce sa),
      tx_receiver tx \<mapsto> (acc_balance ra, acc_nonce ra)) = ledger_of s"
    by (auto simp: fun_eq_iff)
  then show ?thesis
    using assms(3) acc addr unfolding s'
    by (simp add: revert_transaction_run tx_getters alist_simps ledger_of_put debited_def
        credited_def fun_upd_twist)
qed

theorem revert_undoes_apply_witness:
  "ledger_of (snd (revert_transaction locks_erased (demo_tx ''A'' ''B'' 30 5 1) []
      (snd (apply_transaction locks_erased demo_hash (demo_tx ''A'' ''B'' 30 5 1) [] demo_state))))
   = ledger_of demo_state"
  using revert_undoes_apply [OF demo_own demo_apply] by (simp add: demo_apply)

text \<open>With the locks erased, a transfer from an account to itself creates value and can be replayed: it credits
  the amount without debiting the cost, leaves the nonce unchanged, and the same
  transaction passes verify_transaction again whenever the new balance did not wrap.\<close>

theorem self_transfer_mints:
  assumes "own_addresses s" "tx_sender tx = k" "tx_receiver tx = k"
    and "map_of (accounts s) k = Some a"
    and "tx_nonce tx = acc_nonce a + 1" "tx_value tx + tx_gas_cost tx \<le> acc_balance a"
    and "StandardTransaction_verify H tx"
    and "unat (acc_balance a) + unat (tx_value tx) < 2 ^ 64"
  shows "\<exists>s'. apply_transaction locks_erased H tx held s = (Inr True, s')
    \<and> ledger_of s' = (ledger_of s)(k \<mapsto> (acc_balance a + tx_value tx, acc_nonce a))
    \<and> fst (verify_transaction locks_erased H tx held s') = Inr True"
proof -
  have addr: "acc_address a = k" using own_addressesD [OF assms(1,4)] .
  have adm: "admissible H tx a"
    using assms(5-7) by (simp add: admissible_def tx_getters)
  have "acc_balance a \<le> acc_balance a + tx_value tx"
    using assms(8) by (simp add: word_le_nat_alt unat_word_ariths)
  then have again: "admissible H tx (credited tx a)"
    using adm by (auto simp: admissible_def credited_def tx_getters)
  show ?thesis
    using assms(2-4) addr adm again
    by (simp add: apply_transaction_run verify_transaction_run tx_getters ledger_of_put
        alist_simps del: map_of_eq_Some_iff) (simp add: debited_def credited_def tx_getters)
qed

theorem self_transfer_mints_witness:
  "\<exists>s'. apply_transaction locks_erased demo_hash (demo_tx ''A'' ''A'' 30 5 1) [] demo_state = (Inr True, s')
    \<and> ledger_of s' = (ledger_of demo_state)(''A'' \<mapsto> (130, 0))
    \<and> fst (verify_transaction locks_erased demo_hash (demo_tx ''A'' ''A'' 30 5 1) [] s') = Inr True"
  using self_transfer_mints [OF demo_own, of "demo_tx ''A'' ''A'' 30 5 1" "''A''"
      "demo_account ''A'' 100 0" demo_hash "[]"] demo_verify [of "''A''" "''A''" 30 5 1]
  by simp

text \<open>With the locks erased, the cost check wraps: when value plus gas is 0 modulo 2^64, a signed transaction
  with the right nonce succeeds for a sender with any balance, 0 included; the sender
  pays nothing and the recipient is credited the full value.\<close>

theorem total_cost_wraps:
  assumes "own_addresses s" "tx_sender tx \<noteq> tx_receiver tx"
    and "map_of (accounts s) (tx_sender tx) = Some sa" "map_of (accounts s) (tx_receiver tx) = Some ra"
    and "tx_nonce tx = acc_nonce sa + 1" "StandardTransaction_verify H tx"
    and "tx_gas_cost tx = - tx_value tx"
  shows "\<exists>s'. apply_transaction locks_erased H tx held s = (Inr True, s')
    \<and> sm_balance s' (tx_sender tx) = acc_balance sa
    \<and> sm_balance s' (tx_receiver tx) = acc_balance ra + tx_value tx"
proof -
  have "acc_address sa = tx_sender tx" "acc_address ra = tx_receiver tx"
    using own_addressesD [OF assms(1)] assms(3,4) by blast+
  with assms(2-7) show ?thesis
    by (simp add: apply_transaction_run tx_getters admissible_def sm_balance_put debited_def
        credited_def del: map_of_eq_Some_iff)
qed

theorem total_cost_wraps_witness:
  "\<exists>s'. apply_transaction locks_erased demo_hash (demo_tx ''A'' ''B'' (2 ^ 63) (2 ^ 63) 1) [] demo_state
       = (Inr True, s')
    \<and> sm_balance s' ''A'' = 100 \<and> sm_balance s' ''B'' = 7 + 2 ^ 63"
  using total_cost_wraps [OF demo_own, of "demo_tx ''A'' ''B'' (2 ^ 63) (2 ^ 63) 1"
      "demo_account ''A'' 100 0" "demo_account ''B'' 7 3" demo_hash "[]"]
    demo_verify [of "''A''" "''B''" "2 ^ 63" "2 ^ 63" 1]
  by simp

text \<open>With the C++ library's non-recursive shared_mutex, apply_transaction and
  revert_transaction never complete: they fail at their first nested lock with the
  accounts untouched, and apply_transactions fails in the same way exactly when some
  transaction of the batch verifies, having already overwritten the previous root.\<close>

theorem relock_deadlocks:
  "apply_transaction glibc_grant H tx [] s = (Inl Deadlock, s)
   \<and> revert_transaction glibc_grant tx [] s = (Inl Deadlock, s)
   \<and> apply_transactions glibc_grant H txs [] s =
       ((if \<exists>t. t \<in> set txs \<and> valid_now H s t then Inl Deadlock else Inr True),
        s\<lparr>previous_state_root := current_state_root s\<rparr>)"
  by (auto simp: glibc_apply_deadlock glibc_apply_transactions Let_def)

text \<open>With the locks erased, a batch is verified against the state before it: when a sender submits two
  transactions with consecutive nonces, apply_transactions applies only the first,
  silently drops the second and still reports success.\<close>

theorem batch_drops_successor:
  assumes "valid_now H s t1" "getSender t2 = getSender t1" "getNonce t2 = getNonce t1 + 1"
    and "map_of (accounts s) (getRecipient t1) \<noteq> None"
  shows "apply_transactions locks_erased H [t1, t2] held s =
    apply_transaction locks_erased H t1 (Unique_lock # held)
      (s\<lparr>previous_state_root := current_state_root s\<rparr>)
    \<and> fst (apply_transactions locks_erased H [t1, t2] held s) = Inr True"
proof -
  have "\<not> valid_now H s t2"
    using assms(1-3) by (auto simp: valid_now_def admissible_def split: option.splits)
  moreover from assms(1,4) obtain s' where
    "apply_transaction locks_erased H t1 (Unique_lock # held)
      (s\<lparr>previous_state_root := current_state_root s\<rparr>) = (Inr True, s')"
    by (auto simp: valid_now_def apply_transaction_run simp del: map_of_eq_Some_iff split: option.splits)
  ultimately show ?thesis
    using assms(1) by (simp add: apply_transactions_run sm_run)
qed

theorem batch_drops_successor_witness:
  "fst (apply_transactions locks_erased demo_hash
     [demo_tx ''A'' ''B'' 30 5 1, demo_tx ''A'' ''B'' 20 5 2] [] demo_state) = Inr True"
  using demo_verify [of "''A''" "''B''" 30 5 1]
  by (intro batch_drops_successor [THEN conjunct2])
     (simp_all add: valid_now_def admissible_def tx_getters)

end
