(* ===== verification/State_Refinement.thy ===== *)
theory State_Refinement
  imports State_Laws
begin

text \<open>
  The contract of the rollup's \<^verbatim>\<open>StateManager\<close>
  (\<^verbatim>\<open>src/src/rollup/StateManager.cpp\<close>) under the documented, non-recursive
  \<^verbatim>\<open>std::shared_mutex\<close>: an abstract manager over finite maps with one case per public
  method, and the proof that the methods implement it, answers and errors included.
  A second specification gives the outcome of \<^verbatim>\<open>apply_transaction\<close> for every answer the
  mutex may give to its nested lock requests.
\<close>

section \<open>The abstract manager\<close>

record sm_spec =
  sp_accounts :: "string \<rightharpoonup> sm_account"
  sp_root :: bytes
  sp_previous :: bytes
  sp_history :: "string \<Rightarrow> transaction list"

definition sm_abs :: "sm_state \<Rightarrow> sm_spec" where
  "sm_abs s = \<lparr>sp_accounts = map_of (accounts s), sp_root = current_state_root s,
     sp_previous = previous_state_root s,
     sp_history = (\<lambda>k. case map_of (history s) k of Some h \<Rightarrow> h | None \<Rightarrow> [])\<rparr>"

text \<open>The accounts in the order of their addresses, and their root.\<close>

definition spec_snapshot :: "(string \<rightharpoonup> sm_account) \<Rightarrow> (string \<times> sm_account) list" where
  "spec_snapshot A = map (\<lambda>k. (k, the (A k))) (sorted_list_of_set (dom A))"

definition spec_root :: "hash_fun \<Rightarrow> (string \<rightharpoonup> sm_account) \<Rightarrow> bytes" where
  "spec_root H A = H (concat (map (\<lambda>k. Account_serialize (the (A k))) (sorted_list_of_set (dom A))))"

definition spec_init :: "hash_fun \<Rightarrow> sm_spec" where
  "spec_init H = \<lparr>sp_accounts = Map.empty, sp_root = H [], sp_previous = H [], sp_history = (\<lambda>_. [])\<rparr>"

text \<open>The last thousand transactions of an account.\<close>

definition spec_record :: "string \<Rightarrow> transaction \<Rightarrow> sm_spec \<Rightarrow> sm_spec" where
  "spec_record k tx A =
     (let h = sp_history A k @ [tx] in A\<lparr>sp_history := (sp_history A)(k := drop (length h - 1000) h)\<rparr>)"

definition spec_update :: "string \<Rightarrow> (sm_account \<Rightarrow> sm_account) \<Rightarrow> sm_spec \<Rightarrow> (sm_error + sm_answer) \<times> sm_spec" where
  "spec_update k f A = (Inr (Answer (k \<in> dom (sp_accounts A))),
     A\<lparr>sp_accounts := (sp_accounts A)(k := map_option f (sp_accounts A k))\<rparr>)"

text \<open>A transaction that its sender's account admits.\<close>

definition spec_valid :: "hash_fun \<Rightarrow> transaction \<Rightarrow> (string \<rightharpoonup> sm_account) \<Rightarrow> bool" where
  "spec_valid H tx A = (case A (tx_sender tx) of None \<Rightarrow> False
     | Some a \<Rightarrow> tx_nonce tx = acc_nonce a + 1 \<and> tx_value tx + tx_gas_cost tx \<le> acc_balance a
         \<and> StandardTransaction_verify H tx)"

text \<open>
  One call.  The two methods that lock again what they hold, and the batch as
  soon as it contains a valid transaction, throw; the batch has then already
  overwritten the previous root.
\<close>

fun spec_op :: "hash_fun \<Rightarrow> sm_op \<Rightarrow> sm_spec \<Rightarrow> (sm_error + sm_answer) \<times> sm_spec" where
  "spec_op H (Add_account k a) A = (Inr Done, A\<lparr>sp_accounts := (sp_accounts A)(k \<mapsto> a)\<rparr>)"
| "spec_op H (Apply_transaction tx) A = (Inl Deadlock, A)"
| "spec_op H (Apply_transactions txs) A =
     (if list_ex (\<lambda>tx. spec_valid H tx (sp_accounts A)) txs then Inl Deadlock else Inr (Answer True),
      A\<lparr>sp_previous := sp_root A\<rparr>)"
| "spec_op H (Revert_transaction tx) A = (Inl Deadlock, A)"
| "spec_op H (Record_transaction k tx) A = (Inr Done, spec_record k tx A)"
| "spec_op H Commit_state A =
     (Inr (Answer True), A\<lparr>sp_previous := sp_root A, sp_root := spec_root H (sp_accounts A)\<rparr>)"
| "spec_op H Rollback_state A = (Inr (Answer True), A\<lparr>sp_root := sp_previous A\<rparr>)"
| "spec_op H (Set_balance k b) A = spec_update k (\<lambda>a. a\<lparr>acc_balance := b\<rparr>) A"
| "spec_op H (Set_nonce k n) A = spec_update k (\<lambda>a. a\<lparr>acc_nonce := n\<rparr>) A"
| "spec_op H (Set_storage addr k v) A =
     spec_update (address_to_hex addr) (\<lambda>a. a\<lparr>acc_storage := AList.update k v (acc_storage a)\<rparr>) A"
| "spec_op H (Set_code addr c) A = spec_update (address_to_hex addr) (\<lambda>a. a\<lparr>acc_code := c\<rparr>) A"
| "spec_op H (Verify_transaction tx) A = (Inr (Answer (spec_valid H tx (sp_accounts A))), A)"
| "spec_op H (Get_account k) A = (Inr (Account_answer (sp_accounts A k)), A)"
| "spec_op H (Get_account_history k) A = (Inr (History_answer (sp_history A k)), A)"
| "spec_op H Get_state_root A = (Inr (Bytes_answer (sp_root A)), A)"
| "spec_op H Get_previous_root A = (Inr (Bytes_answer (sp_previous A)), A)"
| "spec_op H Get_accounts_snapshot A = (Inr (Snapshot_answer (spec_snapshot (sp_accounts A))), A)"
| "spec_op H (Get_balance k) A =
     (Inr (Word_answer (case sp_accounts A k of Some a \<Rightarrow> acc_balance a | None \<Rightarrow> 0)), A)"
| "spec_op H (Get_nonce k) A =
     (Inr (Word_answer (case sp_accounts A k of Some a \<Rightarrow> acc_nonce a | None \<Rightarrow> 0)), A)"
| "spec_op H (Get_storage addr k) A =
     (Inr (Bytes_answer (case sp_accounts A (address_to_hex addr) of
        Some a \<Rightarrow> (case map_of (acc_storage a) k of Some v \<Rightarrow> v | None \<Rightarrow> []) | None \<Rightarrow> [])), A)"
| "spec_op H (Get_code addr) A =
     (Inr (Bytes_answer (case sp_accounts A (address_to_hex addr) of Some a \<Rightarrow> acc_code a | None \<Rightarrow> [])), A)"

text \<open>A sequence of calls, with the list of the answers.\<close>

fun call_sequence :: "(sm_op \<Rightarrow> 's \<Rightarrow> 'r \<times> 's) \<Rightarrow> sm_op list \<Rightarrow> 's \<Rightarrow> 'r list \<times> 's" where
  "call_sequence step [] s = ([], s)"
| "call_sequence step (op # ops) s =
     (let (r, s') = step op s; (rs, s'') = call_sequence step ops s' in (r # rs, s''))"

section \<open>The outcome of apply\_transaction for every mutex\<close>

text \<open>The transfer on the account map: the written keys are the addresses stored in the accounts.\<close>

definition spec_transfer :: "hash_fun \<Rightarrow> transaction \<Rightarrow> sm_spec \<Rightarrow> (sm_account \<times> sm_account) option" where
  "spec_transfer H tx A =
     (case (sp_accounts A (tx_sender tx), sp_accounts A (tx_receiver tx)) of
        (Some sa, Some ra) \<Rightarrow> if spec_valid H tx (sp_accounts A) then Some (sa, ra) else None
      | _ \<Rightarrow> None)"

definition spec_apply :: "grant \<Rightarrow> hash_fun \<Rightarrow> transaction \<Rightarrow> locks \<Rightarrow> sm_spec \<Rightarrow> (sm_error + bool) \<times> sm_spec" where
  "spec_apply grant H tx held A =
     (if \<not> grant held Unique_lock \<or> \<not> grant (Unique_lock # held) Shared_lock then (Inl Deadlock, A)
      else case spec_transfer H tx A of
        None \<Rightarrow> (Inr False, A)
      | Some (sa, ra) \<Rightarrow>
          let A' = A\<lparr>sp_accounts := (sp_accounts A)
                (acc_address sa \<mapsto> sa\<lparr>acc_balance := acc_balance sa - (tx_value tx + tx_gas_cost tx),
                                      acc_nonce := tx_nonce tx\<rparr>,
                 acc_address ra \<mapsto> ra\<lparr>acc_balance := acc_balance ra + tx_value tx\<rparr>)\<rparr>
          in if grant (Unique_lock # held) Unique_lock
             then (Inr True, spec_record (acc_address ra) tx (spec_record (acc_address sa) tx A'))
             else (Inl Deadlock, A'))"

section \<open>Lemmas\<close>

lemma sort_key_spec:
  fixes m :: "(string \<times> 'v) list"
  assumes "distinct (keys m)"
  shows "sort_key fst m = map (\<lambda>k. (k, the (map_of m k))) (sorted_list_of_set (dom (map_of m)))"
proof -
  let ?s = "sort_key fst m"
  have m: "mset (keys ?s) = mset (keys m)" by simp
  have d: "distinct (keys ?s)" using assms m mset_eq_imp_distinct_iff by blast
  have "keys ?s = sorted_list_of_set (set (keys ?s))"
    using d by (metis sorted_list_of_set.idem_if_sorted_distinct sorted_sort_key)
  moreover have "set (keys ?s) = dom (map_of m)" by (simp add: dom_map_of_conv_image_fst)
  moreover have "p = (fst p, the (map_of m (fst p)))" if "p \<in> set ?s" for p
  proof -
    have "(fst p, snd p) \<in> set m" using that by simp
    then have "map_of m (fst p) = Some (snd p)" using assms by (intro map_of_is_SomeI)
    then show ?thesis by simp
  qed
  then have "map (\<lambda>p. (fst p, the (map_of m (fst p)))) ?s = map (\<lambda>p. p) ?s" by (intro map_cong) auto
  then have "?s = map (\<lambda>k. (k, the (map_of m k))) (keys ?s)" by (simp add: comp_def)
  ultimately show ?thesis by simp
qed

lemma snapshot_spec: "distinct (keys (accounts s)) \<Longrightarrow> sort_key fst (accounts s) = spec_snapshot (sp_accounts (sm_abs s))"
  by (simp add: sort_key_spec spec_snapshot_def sm_abs_def)

lemma root_spec:
  "distinct (keys m) \<Longrightarrow> calculate_state_root H m = spec_root H (map_of m)"
  by (simp add: calculate_state_root_def sort_key_spec spec_root_def comp_def)

lemma push_history_spec:
  "length h \<le> 1000 \<Longrightarrow> push_history tx h = drop (length (h @ [tx]) - 1000) (h @ [tx])"
proof (cases "length h = 1000")
  case True
  then show ?thesis
    by (cases h) (simp_all add: push_history_def MAX_HISTORY_PER_ACCOUNT_def Let_def)
qed (simp add: push_history_def MAX_HISTORY_PER_ACCOUNT_def Let_def)

definition short_histories :: "sm_state \<Rightarrow> bool" where
  "short_histories s \<longleftrightarrow> (\<forall>k. length (sp_history (sm_abs s) k) \<le> 1000)"

lemma sm_inv_short: "sm_inv R s \<Longrightarrow> short_histories s"
  by (auto simp: sm_inv_def short_histories_def sm_abs_def MAX_HISTORY_PER_ACCOUNT_def split: option.split)

lemma abs_put [simp]: "sm_abs (put_account k a s) = (sm_abs s)\<lparr>sp_accounts := (sp_accounts (sm_abs s))(k \<mapsto> a)\<rparr>"
  by (simp add: sm_abs_def put_account_def update_conv')

lemma abs_note: "short_histories s \<Longrightarrow> sm_abs (note_history k tx s) = spec_record k tx (sm_abs s)"
  by (auto simp: short_histories_def sm_abs_def note_history_def spec_record_def Let_def alist_simps
      push_history_spec fun_eq_iff split: option.split)

lemma short_put [simp]: "short_histories (put_account k a s) = short_histories s"
  by (simp add: short_histories_def)

lemma short_note [simp]: "short_histories s \<Longrightarrow> short_histories (note_history k tx s)"
  by (simp add: short_histories_def abs_note [unfolded short_histories_def] spec_record_def Let_def)

lemma abs_sel [simp]:
  "sp_accounts (sm_abs s) = map_of (accounts s)" "sp_root (sm_abs s) = current_state_root s"
  "sp_previous (sm_abs s) = previous_state_root s"
  by (simp_all add: sm_abs_def)

lemma valid_spec: "valid_now H s tx = spec_valid H tx (map_of (accounts s))"
  by (simp add: valid_now_def spec_valid_def admissible_def tx_getters split: option.split)

lemma abs_init: "sm_abs (StateManager_init H) = spec_init H"
  by (simp add: sm_abs_def StateManager_init_def spec_init_def calculate_state_root_def)

lemma glibc_free [simp]: "glibc_grant [] m"
  by (simp add: glibc_grant_def split: lock_mode.split)

lemma update_field_spec:
  "map_prod (map_sum id Answer) sm_abs (update_field k f held s) = spec_update k f (sm_abs s)"
  by (auto simp: update_field_def spec_update_def fun_upd_idem split: option.split)

lemma verify_spec:
  "verify_transaction glibc_grant H tx [] s = (Inr (spec_valid H tx (map_of (accounts s))), s)"
  by (simp add: glibc_verify verify_transaction_run valid_spec [symmetric] valid_now_def split: option.split)

text \<open>One call of the manager is one step of the abstract manager.\<close>

lemma sm_invoke_map: "map_prod id sm_abs (sm_invoke f m s) = map_prod (map_sum id f) sm_abs (m [] s)"
  by (simp add: sm_invoke_def map_prod_def split: prod.split)

lemma run_op_spec:
  assumes "sm_inv R s"
  shows "map_prod id sm_abs (run_op glibc_grant H op s) = spec_op H op (sm_abs s)"
proof -
  have d: "distinct (keys (accounts s))" using assms by (simp add: sm_inv_def)
  note defs = add_account_def record_transaction_def commit_state_def rollback_state_def set_balance_def
    set_nonce_def set_storage_def set_code_def get_account_def get_account_history_def get_state_root_def
    get_previous_root_def get_accounts_snapshot_def get_balance_def get_nonce_def get_storage_def get_code_def
  show ?thesis
    using d abs_note [OF sm_inv_short [OF assms]]
    by (cases op)
       (simp_all add: sm_invoke_map defs with_lock_def sm_bind_run sm_run update_field_spec glibc_apply_deadlock
         glibc_apply_transactions verify_spec root_spec snapshot_spec Let_def valid_spec list_ex_iff,
        simp_all add: sm_abs_def)
qed

lemma call_sequence_spec:
  assumes "sm_reachable glibc_grant H past s"
  shows "map_prod id sm_abs (call_sequence (run_op glibc_grant H) ops s)
    = call_sequence (spec_op H) ops (sm_abs s)"
  using assms
proof (induction ops arbitrary: past s)
  case (Cons op ops)
  obtain r s' where op: "run_op glibc_grant H op s = (r, s')" by fastforce
  have "spec_op H op (sm_abs s) = (r, sm_abs s')"
    using run_op_spec [of "roots_of H past" s H op] sm_reachable_keeps [OF Cons.prems] op by simp
  with Cons.IH [OF sm_call [OF Cons.prems op]] op show ?case
    by (cases "call_sequence (run_op glibc_grant H) ops s'"; cases "call_sequence (spec_op H) ops (sm_abs s')") simp
qed simp

lemma spec_apply_run:
  assumes "short_histories s"
  shows "map_prod id sm_abs (apply_transaction grant H tx held s) = spec_apply grant H tx held (sm_abs s)"
  using assms
  by (auto simp: apply_transaction_def spec_apply_def spec_transfer_def spec_valid_def with_lock_def sm_bind_run
      sm_run get_account_def record_transaction_def tx_getters Let_def not_less abs_note split: option.split)

section \<open>Properties\<close>

text \<open>C1: With the documented mutex the StateManager implements its abstract contract: for any sequence
  of calls of its public methods with any arguments, started at the constructor, the answers and
  errors are those of the abstract manager over finite maps, and so are the accounts, both roots
  and the histories in the end.  There apply_transaction and revert_transaction always throw with
  nothing changed, since they lock the mutex again, and apply_transactions throws exactly when
  one of its transactions is valid; add_account and the setters update the account map, histories
  hold the last 1000 transactions recorded, commit and rollback move the two roots, and every
  query answers from the maps.\<close>

theorem state_manager_refines:
  "map_prod id sm_abs (call_sequence (run_op glibc_grant H) ops (StateManager_init H))
   = call_sequence (spec_op H) ops (spec_init H)"
  using call_sequence_spec [OF sm_init] by (simp add: abs_init)

text \<open>C7: The outcome of apply_transaction in every reachable state, whatever the mutex answers to its
  lock requests.  If one of the first two locks is refused, as the documented mutex does, it throws
  and changes nothing.  Otherwise it answers false and changes nothing unless both accounts exist,
  the nonce is the sender's next one, the balance covers value and gas in 64 bits and the
  signature verifies; in that case the sender's account loses value and gas and takes the nonce,
  then the recipient's account, as read before, gains the value, each written under the address
  stored in it, and the transaction is recorded for both, unless the lock for the recording is
  refused: then it throws with the accounts moved and no history.\<close>

theorem apply_transaction_outcome:
  assumes "sm_reachable grant H past s"
  shows "map_prod id sm_abs (apply_transaction grant H tx held s) = spec_apply grant H tx held (sm_abs s)"
  using sm_reachable_keeps [OF assms] by (auto intro: spec_apply_run sm_inv_short)

text \<open>An example: a mutex that admits nested readers but no nested writer.\<close>

definition demo_grant :: grant where
  "demo_grant held m = (held = [] \<or> m = Shared_lock)"

definition demo_manager :: sm_state where
  "demo_manager = snd (run_op demo_grant demo_hash (Add_account ''B'' (demo_account ''B'' 7 3))
     (snd (run_op demo_grant demo_hash (Add_account ''A'' (demo_account ''A'' 100 0)) (StateManager_init demo_hash))))"

lemma demo_manager_reachable: "\<exists>past. sm_reachable demo_grant demo_hash past demo_manager"
  unfolding demo_manager_def by (rule exI, (rule sm_call [OF _ prod.collapse [symmetric]])+, rule sm_init)

lemma demo_manager_accounts [simp]:
  "map_of (accounts demo_manager) = [''A'' \<mapsto> demo_account ''A'' 100 0, ''B'' \<mapsto> demo_account ''B'' 7 3]"
  by (simp add: demo_manager_def add_account_def with_lock_def demo_grant_def sm_run StateManager_init_def fun_upd_twist)

theorem apply_transaction_outcome_witness:
  "fst (apply_transaction demo_grant demo_hash (demo_tx ''A'' ''B'' 30 5 1) [] demo_manager) = Inl Deadlock
   \<and> map_of (accounts (snd (apply_transaction demo_grant demo_hash (demo_tx ''A'' ''B'' 30 5 1) [] demo_manager))) ''A''
     = Some (demo_account ''A'' 65 1)"
proof -
  let ?tx = "demo_tx ''A'' ''B'' 30 5 1"
  obtain past where "sm_reachable demo_grant demo_hash past demo_manager"
    using demo_manager_reachable by blast
  note run = apply_transaction_outcome [OF this, of ?tx "[]"]
  have "spec_transfer demo_hash ?tx (sm_abs demo_manager) = Some (demo_account ''A'' 100 0, demo_account ''B'' 7 3)"
    using demo_verify [of "''A''" "''B''" 30 5 1] by (simp add: spec_transfer_def spec_valid_def)
  then have "spec_apply demo_grant demo_hash ?tx [] (sm_abs demo_manager)
      = (Inl Deadlock, (sm_abs demo_manager)\<lparr>sp_accounts := [''A'' \<mapsto> demo_account ''A'' 65 1, ''B'' \<mapsto> demo_account ''B'' 37 3]\<rparr>)"
    by (simp add: spec_apply_def demo_grant_def fun_upd_twist)
  with run obtain s' where "apply_transaction demo_grant demo_hash ?tx [] demo_manager = (Inl Deadlock, s')"
      "sm_abs s' = (sm_abs demo_manager)\<lparr>sp_accounts := [''A'' \<mapsto> demo_account ''A'' 65 1, ''B'' \<mapsto> demo_account ''B'' 37 3]\<rparr>"
    by (cases "apply_transaction demo_grant demo_hash ?tx [] demo_manager") auto
  moreover from this(2) have "map_of (accounts s') ''A'' = Some (demo_account ''A'' 65 1)"
    unfolding abs_sel(1) [symmetric] by simp
  ultimately show ?thesis by simp
qed

end
