(* ===== verification/Account_Codec.thy ===== *)
theory Account_Codec
  imports State_Manager
begin

text \<open>
  The byte format of a rollup account: what \<^verbatim>\<open>Account::serialize\<close> writes,
  \<^verbatim>\<open>Account::deserialize\<close> reads back, for every account whose encoding is shorter
  than the largest \<^verbatim>\<open>std::vector\<close> (\<^verbatim>\<open>PTRDIFF_MAX\<close> bytes); which buffers make the
  reader leave the buffer; and how far the state root depends on the order of the
  hash tables.
\<close>

section \<open>The cursor\<close>

lemma cursor_unat:
  "n < 2 ^ 63 \<Longrightarrow> unat (of_nat n :: u64) = n"
  by (simp add: unat_of_nat)

lemma cursor_le:
  assumes "m \<le> length data" "length data < 2 ^ 63"
  shows "\<not> (of_nat m :: u64) > size_t data"
  using assms by (simp add: word_less_nat_alt size_t_def cursor_unat)

lemma read_size_at:
  assumes "length data < 2 ^ 63" "data = pre @ u64_bytes w @ rest"
  shows "read_size data (of_nat (length pre)) = Inr (w, of_nat (length pre + 8))"
proof -
  have "length pre + 8 \<le> length data" using assms(2) by simp
  from cursor_le [OF this assms(1)]
  have "\<not> (of_nat (length pre) + 8 :: u64) > size_t data" by (simp add: add.commute)
  moreover have "length pre < 2 ^ 63" using assms by simp
  moreover have "drop (length pre) data = u64_bytes w @ rest" using assms(2) by simp
  ultimately show ?thesis
    by (simp add: read_size_def cursor_unat u64_of_u64_bytes add.commute)
qed

lemma read_block_at:
  assumes "length data < 2 ^ 63" "data = pre @ blk @ rest"
  shows "read_block data (of_nat (length pre)) (of_nat (length blk))
    = Inr (blk, of_nat (length pre + length blk))"
proof -
  have "length pre + length blk \<le> length data" using assms(2) by simp
  from cursor_le [OF this assms(1)]
  have "\<not> (of_nat (length pre) + of_nat (length blk) :: u64) > size_t data" by simp
  moreover have "length pre < 2 ^ 63" "length blk < 2 ^ 63" using assms by simp_all
  moreover have "slice (length pre) (length blk) data = blk"
    using assms(2) by (simp add: slice_def)
  moreover have "\<not> length data < length pre + length blk" using assms(2) by simp
  ultimately show ?thesis
    by (simp add: read_block_def cursor_unat)
qed

text \<open>A length-prefixed block, the only variable-sized item of the format.\<close>

lemma read_sized_at:
  assumes "length data < 2 ^ 63" "data = pre @ u64_bytes (size_t blk) @ blk @ rest"
  shows "read_size data (of_nat (length pre)) = Inr (size_t blk, of_nat (length pre + 8))"
    and "read_block data (of_nat (length pre + 8)) (size_t blk)
      = Inr (blk, of_nat (length pre + 8 + length blk))"
proof -
  show "read_size data (of_nat (length pre)) = Inr (size_t blk, of_nat (length pre + 8))"
    by (rule read_size_at [OF assms])
  have "data = (pre @ u64_bytes (size_t blk)) @ blk @ rest" using assms(2) by simp
  from read_block_at [OF assms(1) this]
  show "read_block data (of_nat (length pre + 8)) (size_t blk)
      = Inr (blk, of_nat (length pre + 8 + length blk))"
    by (simp add: size_t_def)
qed

lemma read_entries_at:
  assumes "length data < 2 ^ 63" "data = pre @ concat (map entry_bytes es)"
  shows "read_entries data (length es) (of_nat (length pre)) st
    = Inr (fold (\<lambda>p. AList.update (fst p) (snd p)) es st)"
  using assms(2)
proof (induction es arbitrary: pre st)
  case (Cons e es)
  obtain k v where e: "e = (k, v)" by fastforce
  define mid where "mid = pre @ u64_bytes (size_t k) @ k"
  define post where "post = mid @ u64_bytes (size_t v) @ v"
  have data: "data = pre @ u64_bytes (size_t k) @ k @ u64_bytes (size_t v) @ v
      @ concat (map entry_bytes es)"
    using Cons.prems e by (simp add: entry_bytes_def [of "(k, v)"])
  then have data2: "data = mid @ u64_bytes (size_t v) @ v @ concat (map entry_bytes es)"
    by (simp add: mid_def)
  then have "data = post @ concat (map entry_bytes es)"
    by (simp add: post_def)
  note IH = Cons.IH [OF this]
  have "length mid = length pre + 8 + length k" "length post = length mid + 8 + length v"
    by (simp_all add: mid_def post_def)
  with read_sized_at [OF assms(1) data] read_sized_at [OF assms(1) data2] IH show ?case
    by (simp add: e del: of_nat_add)
qed simp

lemma update_fresh: "k \<notin> set (keys m) \<Longrightarrow> AList.update k v m = m @ [(k, v)]"
  by (induction m) auto

lemma fold_update_distinct:
  "distinct (keys (m @ es)) \<Longrightarrow> fold (\<lambda>p. AList.update (fst p) (snd p)) es m = m @ es"
proof (induction es arbitrary: m)
  case (Cons e es)
  then have "AList.update (fst e) (snd e) m = m @ [e]"
    by (simp add: update_fresh)
  moreover have "distinct (keys ((m @ [e]) @ es))"
    using Cons.prems by auto
  ultimately show ?case using Cons.IH [of "m @ [e]"] by simp
qed simp

lemma length_concat_entries: "length es \<le> length (concat (map entry_bytes es))"
  by (induction es) (simp_all add: entry_bytes_def)

lemma Account_roundtrip:
  assumes "distinct (keys (acc_storage a))" and len: "length (Account_serialize a) < 2 ^ 63"
  shows "Account_deserialize (Account_serialize a) = Inr a"
proof -
  define data where "data = Account_serialize a"
  define ad where "ad = bytes_of_string (acc_address a)"
  define es where "es = acc_storage a"
  define p2 where "p2 = u64_bytes (size_t ad) @ ad"
  define p3 where "p3 = p2 @ u64_bytes (acc_balance a) @ u64_bytes (acc_nonce a)"
  define p5 where "p5 = p3 @ u64_bytes (size_t (acc_code a)) @ acc_code a"
  define p6 where "p6 = p5 @ u64_bytes (size_t es)"
  note ps = p2_def p3_def p5_def p6_def
  have "size_t (acc_address a) = size_t ad" by (simp add: ad_def size_t_def)
  then have data: "data = p6 @ concat (map entry_bytes es)"
    by (simp add: data_def Account_serialize_def ps ad_def es_def)
  have L: "length data < 2 ^ 63" using len by (simp add: data_def)
  have lens: "length p2 = 8 + length ad" "length p3 = length p2 + 16"
      "length p5 = length p3 + 8 + length (acc_code a)" "length p6 = length p5 + 8"
    by (simp_all add: ps)
  have addr: "read_size data 0 = Inr (size_t ad, of_nat 8)"
      "read_block data (of_nat 8) (size_t ad) = Inr (ad, of_nat (length p2))"
    using read_sized_at [OF L, of "[]" ad] data by (simp_all add: ps)
  have code: "read_size data (of_nat (length p3)) = Inr (size_t (acc_code a), of_nat (length p3 + 8))"
      "read_block data (of_nat (length p3 + 8)) (size_t (acc_code a))
        = Inr (acc_code a, of_nat (length p5))"
    using read_sized_at [OF L, of p3 "acc_code a"] data by (simp_all add: ps)
  have count: "read_size data (of_nat (length p5)) = Inr (size_t es, of_nat (length p6))"
    using read_size_at [OF L, of p5 "size_t es"] data by (simp only: lens) (simp add: ps)
  have "length es < 2 ^ 63" using L data length_concat_entries [of es] by simp
  then have entries: "read_entries data (unat (size_t es)) (of_nat (length p6)) [] = Inr es"
    using read_entries_at [OF L data, of "[]"] fold_update_distinct [of "[]" es] assms(1)
    by (simp add: es_def unat_size_t)
  have "length p3 \<le> length data" "8 \<le> length data" using data by (simp_all add: ps)
  from cursor_le [OF this(1) L] cursor_le [OF this(2) L]
  have guards: "\<not> (of_nat (length p2) + 16 :: u64) > size_t data" "\<not> size_t data < 8"
    by (simp_all add: lens add.commute)
  have "length p2 + 8 < 2 ^ 63" "length p2 < 2 ^ 63" using L data by (simp_all add: ps)
  from this [THEN cursor_unat]
  have offs: "of_nat (length p2) + 16 = (of_nat (length p3) :: u64)"
      "unat (of_nat (length p2) + 8 :: u64) = length p2 + 8"
      "unat (of_nat (length p2) :: u64) = length p2"
    by (simp_all add: lens(2) add.commute)
  have "u64_of_bytes (drop (length p2) data) = acc_balance a"
      "u64_of_bytes (drop (length p2 + 8) data) = acc_nonce a"
    using data by (simp_all add: ps u64_of_u64_bytes)
  with addr code count entries guards have "Account_deserialize data = Inr a"
    unfolding Account_deserialize_def by (simp add: offs es_def ad_def)
  then show ?thesis by (simp add: data_def)
qed

section \<open>Properties\<close>

definition sample_account :: sm_account where
  "sample_account = \<lparr>acc_address = ''ab'', acc_balance = 300, acc_nonce = 2,
     acc_code = [96, 1], acc_storage = [([1], [2, 3]), ([4], [])]\<rparr>"

text \<open>C31: Account::deserialize inverts Account::serialize, for every account with distinct
  storage keys whose encoding is shorter than 2^63 bytes.\<close>

theorem account_roundtrip:
  assumes "distinct (keys (acc_storage a))" "length (Account_serialize a) < 2 ^ 63"
  shows "Account_deserialize (Account_serialize a) = Inr a"
  using assms by (rule Account_roundtrip)

theorem account_roundtrip_witness:
  "Account_deserialize (Account_serialize sample_account) = Inr sample_account"
  by (rule account_roundtrip) (simp_all add: sample_account_def Account_serialize_def entry_bytes_def)

text \<open>The bounds test of Account::deserialize wraps: a buffer that begins with an address
  length n of at least 2^64 - 8 passes the test and makes the reader build a string
  from a range that lies before the buffer, instead of returning nullopt.\<close>

theorem account_deserialize_wraps:
  assumes "unat n \<ge> 2 ^ 64 - 8" "length rest < 2 ^ 62"
  shows "Account_deserialize (u64_bytes n @ rest) = Inl Bad_range"
proof -
  define data where "data = u64_bytes n @ rest"
  have len: "length data = 8 + length rest" by (simp add: data_def)
  have L: "length data < 2 ^ 63" using assms(2) len by simp
  have rs: "read_size data 0 = Inr (n, 8)"
    using read_size_at [OF L, of "[]" n rest] by (simp add: data_def)
  have "unat (8 + n) = unat n + 8 - 2 ^ 64"
    using assms(1) unsigned_less [of n, where ?'a = nat] by (simp add: unat_word_ariths mod_if)
  then have "unat (8 + n) < 8"
    using unsigned_less [of n, where ?'a = nat] by simp
  moreover have "unat (size_t data) = 8 + length rest"
    using L by (simp add: size_t_def cursor_unat len del: of_nat_add)
  ultimately have pass: "\<not> 8 + n > size_t data" "\<not> size_t data < 8"
    by (simp_all add: word_less_nat_alt)
  have "read_block data 8 n = Inl Bad_range"
    using pass(1) assms len by (simp add: read_block_def)
  with rs pass(2) show ?thesis
    unfolding data_def [symmetric] Account_deserialize_def by simp
qed

theorem account_deserialize_wraps_witness:
  "Account_deserialize (u64_bytes 18446744073709551615 @ [1, 2, 3]) = Inl Bad_range"
  by (rule account_deserialize_wraps) simp_all

text \<open>C34: The state root does not depend on the iteration order of the account table: two
  account tables with distinct keys and the same contents have the same root.\<close>

theorem state_root_order_independent:
  assumes "distinct (keys m)" "distinct (keys n)" "map_of m = map_of n"
  shows "calculate_state_root H m = calculate_state_root H n"
  unfolding calculate_state_root_def using sort_alist_unique [OF assms] by simp

theorem state_root_order_independent_witness:
  "calculate_state_root (\<lambda>x. x) [(''a'', sample_account), (''b'', sample_account)]
   = calculate_state_root (\<lambda>x. x) [(''b'', sample_account), (''a'', sample_account)]"
  by (rule state_root_order_independent) (simp_all add: fun_eq_iff)

text \<open>The state root does depend on the iteration order of an account's storage table:
  two accounts that differ only in the order of two storage entries have different
  serialisations, so they have different roots unless the hash collides on the two.\<close>

theorem state_root_storage_order:
  assumes "k1 \<noteq> k2" "length k1 < 2 ^ 64" "length k2 < 2 ^ 64"
    and "a = b\<lparr>acc_storage := [(k1, v1), (k2, v2)]\<rparr>" "a' = b\<lparr>acc_storage := [(k2, v2), (k1, v1)]\<rparr>"
    and "H (Account_serialize a) = H (Account_serialize a') \<Longrightarrow> Account_serialize a = Account_serialize a'"
  shows "map_of (acc_storage a) = map_of (acc_storage a')
    \<and> calculate_state_root H [(acc_address b, a)] \<noteq> calculate_state_root H [(acc_address b, a')]"
proof -
  have "entry_bytes (k1, v1) @ r \<noteq> entry_bytes (k2, v2) @ r'" for r r'
  proof
    assume eq: "entry_bytes (k1, v1) @ r = entry_bytes (k2, v2) @ r'"
    then have "size_t k1 = size_t k2"
      by (simp add: entry_bytes_def)
    then have "length k1 = length k2"
      using assms(2,3) by (metis unat_size_t)
    with eq assms(1) show False by (simp add: entry_bytes_def)
  qed
  then have "Account_serialize a \<noteq> Account_serialize a'"
    using assms(4,5) by (simp add: Account_serialize_def size_t_def)
  then show ?thesis
    using assms(1,4-6) by (auto simp: calculate_state_root_def fun_eq_iff)
qed

theorem state_root_storage_order_witness:
  "calculate_state_root (\<lambda>x. x) [(''ab'', sample_account)]
   \<noteq> calculate_state_root (\<lambda>x. x) [(''ab'', sample_account\<lparr>acc_storage := [([4], []), ([1], [2, 3])]\<rparr>)]"
  using state_root_storage_order [where ?k1.0 = "[1]" and ?k2.0 = "[4]" and ?v1.0 = "[2, 3]"
      and ?v2.0 = "[]" and b = sample_account and H = "\<lambda>x. x", OF _ _ _ refl refl]
  by (simp add: sample_account_def)

end
