(* ===== verification/Accounts.thy ===== *)
theory Accounts
  imports Ledger_Interface Complex_Main
begin

text \<open>
  The chain's account book, \<^verbatim>\<open>blockchain::AddressManager\<close>
  (\<^verbatim>\<open>src/src/blockchain/AddressManager.cpp\<close>): account records and transfers, the
  address format check, and the polynomial part of its secret-sharing scheme.
  Floating-point values are elements of a type with the operations the code uses
  and no laws, so nothing here depends on exact arithmetic.  Quantum states and
  their comparison are parameters.
\<close>

section \<open>State\<close>

record chain_account =
  ca_address :: string
  ca_balance :: u64
  ca_nonce :: u64
  ca_code :: bytes
  ca_is_contract :: bool

definition Account_plain :: "string \<Rightarrow> u64 \<Rightarrow> chain_account" where
  "Account_plain addr b =
     \<lparr>ca_address = addr, ca_balance = b, ca_nonce = 0, ca_code = [], ca_is_contract = False\<rparr>"

definition Account_contract :: "string \<Rightarrow> bytes \<Rightarrow> u64 \<Rightarrow> chain_account" where
  "Account_contract addr code b =
     \<lparr>ca_address = addr, ca_balance = b, ca_nonce = 0, ca_code = code, ca_is_contract = False\<rparr>"

record ('q, 'p) am_state =
  am_accounts :: "(string \<times> chain_account) list"
  am_quantum_states :: "(string \<times> 'q) list"
  am_stored_proofs :: "(string \<times> 'p) list"

definition AddressManager_init :: "('q, 'p) am_state" where
  "AddressManager_init = \<lparr>am_accounts = [], am_quantum_states = [], am_stored_proofs = []\<rparr>"

section \<open>Accounts\<close>

definition AddressManager_create_account ::
  "string \<Rightarrow> u64 \<Rightarrow> ('q, 'p) am_state \<Rightarrow> bool \<times> ('q, 'p) am_state" where
  "AddressManager_create_account addr b s =
     (if map_of (am_accounts s) addr \<noteq> None then (False, s)
      else (True, s\<lparr>am_accounts := AList.update addr (Account_plain addr b) (am_accounts s)\<rparr>))"

definition AddressManager_create_contract_account ::
  "string \<Rightarrow> bytes \<Rightarrow> u64 \<Rightarrow> ('q, 'p) am_state \<Rightarrow> bool \<times> ('q, 'p) am_state" where
  "AddressManager_create_contract_account addr code b s =
     (if map_of (am_accounts s) addr \<noteq> None then (False, s)
      else (True, s\<lparr>am_accounts := AList.update addr (Account_contract addr code b) (am_accounts s)\<rparr>))"

definition AddressManager_delete_account ::
  "string \<Rightarrow> ('q, 'p) am_state \<Rightarrow> bool \<times> ('q, 'p) am_state" where
  "AddressManager_delete_account addr s =
     (map_of (am_accounts s) addr \<noteq> None, s\<lparr>am_accounts := AList.delete addr (am_accounts s)\<rparr>)"

text \<open>
  \<^verbatim>\<open>from_it\<close> and \<^verbatim>\<open>to_it\<close> point into the table, so the credit sees the debit when
  both are the same entry.
\<close>

definition AddressManager_transfer ::
  "string \<Rightarrow> string \<Rightarrow> u64 \<Rightarrow> ('q, 'p) am_state \<Rightarrow> bool \<times> ('q, 'p) am_state" where
  "AddressManager_transfer from to amount s =
     (case (map_of (am_accounts s) from, map_of (am_accounts s) to) of
        (Some fa, Some _) \<Rightarrow>
          if ca_balance fa < amount then (False, s)
          else
            let m1 = AList.update from (fa\<lparr>ca_balance := ca_balance fa - amount\<rparr>) (am_accounts s)
            in (case map_of m1 to of
                  Some ta \<Rightarrow> (True, s\<lparr>am_accounts :=
                    AList.update to (ta\<lparr>ca_balance := ca_balance ta + amount\<rparr>) m1\<rparr>)
                | None \<Rightarrow> (False, s))
      | _ \<Rightarrow> (False, s))"

definition AddressManager_get_balance :: "string \<Rightarrow> ('q, 'p) am_state \<Rightarrow> u64" where
  "AddressManager_get_balance addr s =
     (case map_of (am_accounts s) addr of None \<Rightarrow> 0 | Some a \<Rightarrow> ca_balance a)"

definition am_update ::
  "string \<Rightarrow> (chain_account \<Rightarrow> chain_account) \<Rightarrow> ('q, 'p) am_state \<Rightarrow> bool \<times> ('q, 'p) am_state" where
  "am_update addr f s =
     (case map_of (am_accounts s) addr of
        None \<Rightarrow> (False, s)
      | Some a \<Rightarrow> (True, s\<lparr>am_accounts := AList.update addr (f a) (am_accounts s)\<rparr>))"

definition AddressManager_set_balance ::
  "string \<Rightarrow> u64 \<Rightarrow> ('q, 'p) am_state \<Rightarrow> bool \<times> ('q, 'p) am_state" where
  "AddressManager_set_balance addr b = am_update addr (\<lambda>a. a\<lparr>ca_balance := b\<rparr>)"

definition AddressManager_deploy_code ::
  "string \<Rightarrow> bytes \<Rightarrow> ('q, 'p) am_state \<Rightarrow> bool \<times> ('q, 'p) am_state" where
  "AddressManager_deploy_code addr code = am_update addr (\<lambda>a. a\<lparr>ca_code := code\<rparr>)"

definition AddressManager_get_code :: "string \<Rightarrow> ('q, 'p) am_state \<Rightarrow> bytes" where
  "AddressManager_get_code addr s =
     (case map_of (am_accounts s) addr of None \<Rightarrow> [] | Some a \<Rightarrow> ca_code a)"

definition AddressManager_get_nonce :: "string \<Rightarrow> ('q, 'p) am_state \<Rightarrow> u64" where
  "AddressManager_get_nonce addr s =
     (case map_of (am_accounts s) addr of None \<Rightarrow> 0 | Some a \<Rightarrow> ca_nonce a)"

definition AddressManager_increment_nonce ::
  "string \<Rightarrow> ('q, 'p) am_state \<Rightarrow> bool \<times> ('q, 'p) am_state" where
  "AddressManager_increment_nonce addr = am_update addr (\<lambda>a. a\<lparr>ca_nonce := ca_nonce a + 1\<rparr>)"

definition AddressManager_account_exists :: "string \<Rightarrow> ('q, 'p) am_state \<Rightarrow> bool" where
  "AddressManager_account_exists addr s = (map_of (am_accounts s) addr \<noteq> None)"

definition AddressManager_is_contract_account :: "string \<Rightarrow> ('q, 'p) am_state \<Rightarrow> bool" where
  "AddressManager_is_contract_account addr s =
     (case map_of (am_accounts s) addr of None \<Rightarrow> False | Some a \<Rightarrow> ca_code a \<noteq> [])"

definition AddressManager_register_quantum_state ::
  "string \<Rightarrow> 'q \<Rightarrow> ('q, 'p) am_state \<Rightarrow> bool \<times> ('q, 'p) am_state" where
  "AddressManager_register_quantum_state addr q s =
     (if \<not> AddressManager_account_exists addr s then (False, s)
      else (True, s\<lparr>am_quantum_states := AList.update addr q (am_quantum_states s)\<rparr>))"

definition AddressManager_verify_quantum_state ::
  "('q \<Rightarrow> 'q \<Rightarrow> bool) \<Rightarrow> string \<Rightarrow> 'q \<Rightarrow> ('q, 'p) am_state \<Rightarrow> bool" where
  "AddressManager_verify_quantum_state eq addr q s =
     (case map_of (am_quantum_states s) addr of None \<Rightarrow> False | Some q' \<Rightarrow> eq q' q)"

definition AddressManager_store_proof ::
  "string \<Rightarrow> 'p \<Rightarrow> ('q, 'p) am_state \<Rightarrow> bool \<times> ('q, 'p) am_state" where
  "AddressManager_store_proof addr p s =
     (if \<not> AddressManager_account_exists addr s then (False, s)
      else (True, s\<lparr>am_stored_proofs := AList.update addr p (am_stored_proofs s)\<rparr>))"

definition AddressManager_setQuantumState ::
  "string \<Rightarrow> 'q \<Rightarrow> ('q, 'p) am_state \<Rightarrow> ('q, 'p) am_state" where
  "AddressManager_setQuantumState addr q s =
     s\<lparr>am_quantum_states := AList.update addr q (am_quantum_states s)\<rparr>"

section \<open>Addresses\<close>

definition ADDRESS_LENGTH :: nat where "ADDRESS_LENGTH = 42"
definition ADDRESS_PREFIX :: string where "ADDRESS_PREFIX = ''qu_0x''"

text \<open>\<^verbatim>\<open>location_hash\<close> is an uninitialised array: its 32 bytes are an argument.\<close>

record address_components =
  location_hash :: bytes
  zkp_commitment :: bytes
  zkp_proof :: bytes
  purpose :: string

definition starts_with :: "'a list \<Rightarrow> 'a list \<Rightarrow> bool" where
  "starts_with pre s = (take (length pre) s = pre)"

definition isxdigit :: "char \<Rightarrow> bool" where
  "isxdigit c = (is_digit_char c \<or> c \<in> set ''abcdefABCDEF'')"

definition decodeAddress :: "bytes \<Rightarrow> string \<Rightarrow> address_components option" where
  "decodeAddress garbage address =
     (if \<not> starts_with ADDRESS_PREFIX address then None
      else Some \<lparr>location_hash = garbage, zkp_commitment = [], zkp_proof = [], purpose = ''EOA''\<rparr>)"

definition verifyAddress :: "bytes \<Rightarrow> string \<Rightarrow> bool" where
  "verifyAddress garbage address =
     (if length address \<noteq> ADDRESS_LENGTH \<or> \<not> starts_with ADDRESS_PREFIX address then False
      else case decodeAddress garbage address of
        None \<Rightarrow> False
      | Some c \<Rightarrow>
        if length (location_hash c) \<noteq> 32 \<or> zkp_commitment c = [] \<or> zkp_proof c = [] then False
        else if purpose c \<noteq> ''EOA'' \<and> purpose c \<noteq> ''CONTRACT'' then False
        else if \<not> list_all isxdigit (drop (length ADDRESS_PREFIX) address) then False
        else True)"

definition verifyLocation :: "hash_fun \<Rightarrow> ('l \<Rightarrow> bytes) \<Rightarrow> bytes \<Rightarrow> string \<Rightarrow> 'l \<Rightarrow> bool" where
  "verifyLocation H loc_serialize garbage address location =
     (case decodeAddress garbage address of
        None \<Rightarrow> False
      | Some c \<Rightarrow> H (loc_serialize location) = location_hash c)"

section \<open>Secret sharing\<close>

definition LOCATION_VECTOR_SIZE :: nat where "LOCATION_VECTOR_SIZE = 4"
definition MIN_SHARES :: u64 where "MIN_SHARES = 3"
definition MAX_SHARES :: u64 where "MAX_SHARES = 10"

definition share_parameters_ok :: "u64 \<Rightarrow> u64 \<Rightarrow> bool" where
  "share_parameters_ok num_shares threshold =
     (\<not> (num_shares < MIN_SHARES \<or> num_shares > MAX_SHARES \<or> threshold > num_shares))"

text \<open>
  The vector has \<^verbatim>\<open>degree + 1\<close> elements, computed in \<^verbatim>\<open>size_t\<close>; the loop writes the
  coefficients of index up to \<^verbatim>\<open>degree\<close>.  \<open>None\<close> is a write past the end.
\<close>

definition createPolynomial :: "'c :: zero list \<Rightarrow> u64 \<Rightarrow> 'c list option" where
  "createPolynomial coefficients degree =
     (let size = unat (degree + 1); written = min (unat degree + 1) (length coefficients)
      in if written > size then None
         else Some (take written coefficients @ replicate (size - written) 0))"

fun evaluate_from :: "('c :: {plus, times}) list \<Rightarrow> 'c \<Rightarrow> 'c \<Rightarrow> 'c list \<Rightarrow> 'c list" where
  "evaluate_from [] x x_power result = result"
| "evaluate_from (coeff # poly) x x_power result =
     evaluate_from poly x (x_power * x) (map (\<lambda>r. r + coeff * x_power) result)"

definition evaluatePolynomial :: "('c :: {plus, times, zero, one}) list \<Rightarrow> 'c \<Rightarrow> 'c list" where
  "evaluatePolynomial poly x = evaluate_from poly x 1 (replicate LOCATION_VECTOR_SIZE 0)"

text \<open>Lagrange interpolation at 0; \<open>conv\<close> is the cast from \<^verbatim>\<open>size_t\<close> to \<^verbatim>\<open>double\<close>.\<close>

definition lagrange_basis ::
  "(u64 \<Rightarrow> 'c :: {times, inverse, uminus, one}) \<Rightarrow> u64 list \<Rightarrow> nat \<Rightarrow> nat \<Rightarrow> 'c" where
  "lagrange_basis conv idx threshold i =
     fold (\<lambda>j acc. if i \<noteq> j
             then acc * (- conv (idx ! j) / conv (idx ! i - idx ! j)) else acc)
       [0..<threshold] 1"

definition reconstruct_vector ::
  "(u64 \<Rightarrow> 'c :: {plus, times, inverse, uminus, zero, one}) \<Rightarrow> (u64 \<times> 'c list) list \<Rightarrow> nat \<Rightarrow> 'c list" where
  "reconstruct_vector conv shares threshold =
     fold (\<lambda>i acc. map (\<lambda>k. acc ! k + snd (shares ! i) ! k
                              * lagrange_basis conv (map fst shares) threshold i)
                      [0..<LOCATION_VECTOR_SIZE])
       [0..<threshold] (replicate LOCATION_VECTOR_SIZE 0)"

definition reconstruct_coordinates ::
  "(u64 \<Rightarrow> 'c :: {plus, times, inverse, uminus, zero, one}) \<Rightarrow> (u64 \<times> 'c list) list \<Rightarrow> nat
    \<Rightarrow> ('c \<times> 'c) option" where
  "reconstruct_coordinates conv shares threshold =
     (if shares = [] \<or> length shares < threshold
        \<or> list_ex (\<lambda>p. length (snd p) \<noteq> LOCATION_VECTOR_SIZE) shares then None
      else let r = reconstruct_vector conv shares threshold in Some (r ! 0, r ! 1))"

section \<open>Lemmas\<close>

definition am_inv :: "('q, 'p) am_state \<Rightarrow> bool" where
  "am_inv s \<longleftrightarrow> distinct (keys (am_accounts s))
     \<and> (\<forall>k a. map_of (am_accounts s) k = Some a \<longrightarrow> ca_address a = k)"

lemma transfer_success:
  assumes "AddressManager_transfer f t v s = (True, s')"
  shows "\<exists>fa ta. map_of (am_accounts s) f = Some fa \<and> map_of (am_accounts s) t = Some ta
    \<and> v \<le> ca_balance fa
    \<and> (\<forall>a. AddressManager_get_balance a s' =
       (if f = t then AddressManager_get_balance a s
        else if a = f then ca_balance fa - v
        else if a = t then ca_balance ta + v else AddressManager_get_balance a s))"
  using assms unfolding AddressManager_transfer_def
  by (cases "map_of (am_accounts s) f"; cases "map_of (am_accounts s) t")
     (auto simp: Let_def alist_simps AddressManager_get_balance_def not_less
       simp del: map_of_eq_Some_iff split: if_splits)

lemma transfer_failure:
  "AddressManager_transfer f t v s = (False, s') \<Longrightarrow> s' = s"
  unfolding AddressManager_transfer_def
  by (auto simp: Let_def simp del: map_of_eq_Some_iff split: option.splits if_splits)

text \<open>The account book as an instance of the ledger interface; it charges no fee.\<close>

definition am_move :: "('q, 'p) am_state \<Rightarrow> string \<Rightarrow> string \<Rightarrow> u64 \<Rightarrow> u64 \<Rightarrow> ('q, 'p) am_state option" where
  "am_move s f t v fee =
     (if fee \<noteq> 0 then None
      else case AddressManager_transfer f t v s of (True, s') \<Rightarrow> Some s' | (False, _) \<Rightarrow> None)"

lemma am_move_SomeD:
  "am_move s f t v fee = Some s' \<Longrightarrow> fee = 0 \<and> AddressManager_transfer f t v s = (True, s')"
  unfolding am_move_def by (auto split: if_splits prod.splits bool.splits)

lemma am_get_balance_Some:
  "map_of (am_accounts s) k = Some a \<Longrightarrow> AddressManager_get_balance k s = ca_balance a"
  by (simp add: AddressManager_get_balance_def)

interpretation aml: value_ledger "\<lambda>s a. AddressManager_get_balance a s" am_move "\<lambda>_. True"
proof
  fix s s' :: "('q, 'p) am_state" and f t :: string and v fee :: u64
  assume "f \<noteq> t" "am_move s f t v fee = Some s'"
  with am_move_SomeD have tr: "fee = 0" "AddressManager_transfer f t v s = (True, s')" by blast+
  from transfer_success [OF tr(2)]
    tr(1) \<open>f \<noteq> t\<close>
  show "v + fee \<le> AddressManager_get_balance f s
      \<and> AddressManager_get_balance f s' = AddressManager_get_balance f s - (v + fee)"
    and "AddressManager_get_balance t s' = AddressManager_get_balance t s + v"
    and "\<And>a. a \<noteq> f \<Longrightarrow> a \<noteq> t \<Longrightarrow> AddressManager_get_balance a s' = AddressManager_get_balance a s"
    by (auto dest!: am_get_balance_Some simp del: map_of_eq_Some_iff)
qed

lemma evaluate_from_constant:
  "\<exists>c'. evaluate_from poly x p (replicate n c) = replicate n c'"
proof (induction poly arbitrary: p c)
  case (Cons a poly)
  then show ?case by simp
qed auto

lemma evaluatePolynomial_constant: "\<exists>c. evaluatePolynomial poly x = replicate LOCATION_VECTOR_SIZE c"
  unfolding evaluatePolynomial_def by (rule evaluate_from_constant)

lemma fold_replicate_constant:
  assumes "\<And>i. i \<in> set is \<Longrightarrow> \<exists>c. \<forall>k<n. d i ! k = c"
  shows "\<exists>c'. fold (\<lambda>i acc. map (\<lambda>k. acc ! k + d i ! k * b i) [0..<n]) is (replicate n c)
    = replicate n (c' :: 'c :: {plus, times})"
  using assms
proof (induction "is" arbitrary: c)
  case (Cons i "is")
  obtain e where e: "\<forall>k<n. d i ! k = e" using Cons.prems [of i] by auto
  have "map (\<lambda>k. replicate n c ! k + d i ! k * b i) [0..<n] = replicate n (c + e * b i)"
    using e by (intro nth_equalityI) auto
  then show ?case using Cons.IH [of "c + e * b i"] Cons.prems by simp
qed auto

section \<open>Properties\<close>

definition sample_book :: "(unit, unit) am_state" where
  "sample_book = \<lparr>am_accounts = [(''a'', Account_plain ''a'' 10), (''b'', Account_plain ''b'' 1)],
     am_quantum_states = [], am_stored_proofs = []\<rparr>"

text \<open>AddressManager::transfer conserves value: after any call, successful or not, with
  equal or different parties, the sum of the balances of any finite set of addresses that
  contains both parties is what it was, provided the recipient's balance does not overflow.\<close>

theorem transfer_conserves:
  assumes "AddressManager_transfer f t v s = (ok, s')"
    and "finite A" "f \<in> A" "t \<in> A"
    and "unat (AddressManager_get_balance t s) + unat v < 2 ^ 64"
  shows "(\<Sum>a\<in>A. unat (AddressManager_get_balance a s')) = (\<Sum>a\<in>A. unat (AddressManager_get_balance a s))"
proof (cases ok)
  case True
  show ?thesis
  proof (cases "f = t")
    case True
    with transfer_success assms(1) \<open>ok\<close> show ?thesis by fastforce
  next
    case False
    have "am_move s f t v 0 = Some s'" using assms(1) \<open>ok\<close> by (simp add: am_move_def)
    from aml.move_conserves [OF _ this False assms(2-4)] assms(5)
      unsigned_less [of v, where ?'a = nat]
    show ?thesis by (simp add: aml.total_def)
  qed
next
  case False
  with assms(1) transfer_failure show ?thesis by fastforce
qed

theorem transfer_conserves_witness:
  "(\<Sum>a\<in>{''a'', ''b''}. unat (AddressManager_get_balance a (snd (AddressManager_transfer ''a'' ''b'' 4 sample_book)))) = 11"
  using transfer_conserves [of "''a''" "''b''" 4 sample_book _ _ "{''a'', ''b''}", OF prod.collapse [symmetric]]
  by (simp add: sample_book_def Account_plain_def AddressManager_get_balance_def)

text \<open>No string passes verifyAddress: the placeholder decoder returns an empty commitment and
  an empty proof, which the size check rejects, also for well-formed addresses.\<close>

theorem verifyAddress_rejects_all: "\<not> verifyAddress garbage address"
  by (simp add: verifyAddress_def decodeAddress_def)

text \<open>Secret sharing loses the longitude: every share produced by evaluatePolynomial repeats
  one value, so whatever the arithmetic, the location reconstructed from such shares has its
  longitude equal to its latitude.\<close>

theorem reconstruction_collapses:
  fixes conv :: "u64 \<Rightarrow> 'c :: {plus, times, inverse, uminus, zero, one}"
  assumes "shares = map (\<lambda>i. (i, evaluatePolynomial poly (conv i))) idx"
    and "reconstruct_coordinates conv shares threshold = Some (lat, lon)"
  shows "lat = lon"
proof -
  have thr: "threshold \<le> length shares"
    using assms(2) by (auto simp: reconstruct_coordinates_def split: if_splits)
  have "\<exists>c. \<forall>k<LOCATION_VECTOR_SIZE. snd (shares ! i) ! k = c" if "i \<in> set [0..<threshold]" for i
  proof -
    have "snd (shares ! i) = evaluatePolynomial poly (conv (idx ! i))"
      using that thr assms(1) by simp
    with evaluatePolynomial_constant [of poly "conv (idx ! i)"] show ?thesis by auto
  qed
  then obtain c where "reconstruct_vector conv shares threshold = replicate LOCATION_VECTOR_SIZE c"
    unfolding reconstruct_vector_def
    using fold_replicate_constant [of "[0..<threshold]" LOCATION_VECTOR_SIZE "\<lambda>i. snd (shares ! i)"] by blast
  with assms(2) show ?thesis
    by (auto simp: reconstruct_coordinates_def Let_def LOCATION_VECTOR_SIZE_def split: if_splits)
qed

theorem reconstruction_collapses_witness:
  "\<exists>c. reconstruct_coordinates (\<lambda>i. rat_of_nat (unat i))
     (map (\<lambda>i. (i, evaluatePolynomial [12, 34] (rat_of_nat (unat i)))) [1, 2, 3]) 2 = Some (c, c)"
proof -
  let ?s = "map (\<lambda>i :: u64. (i, evaluatePolynomial [12, 34] (rat_of_nat (unat i)))) [1, 2, 3]"
  have "length (evaluatePolynomial p x) = LOCATION_VECTOR_SIZE" for p and x :: rat
    using evaluatePolynomial_constant [of p x] by auto
  then obtain a b where "reconstruct_coordinates (\<lambda>i. rat_of_nat (unat i)) ?s 2 = Some (a, b)"
    by (simp add: reconstruct_coordinates_def Let_def)
  moreover from this have "a = b"
    by (rule reconstruction_collapses [OF refl])
  ultimately show ?thesis by blast
qed

text \<open>A threshold of 0 passes the parameter check and makes createPolynomial, called with
  degree 0 - 1, write eight coefficients into an empty vector; every threshold from 1 to the
  number of shares is safe and gives a polynomial of exactly threshold coefficients.\<close>

theorem createPolynomial_threshold:
  assumes "share_parameters_ok num_shares threshold" "length coefficients = 8"
  shows "createPolynomial coefficients (threshold - 1) =
    (if threshold = 0 then None
     else Some (take (unat threshold) coefficients @ replicate (unat threshold - 8) 0))"
proof (cases "threshold = 0")
  case True
  then show ?thesis using assms(2) by (simp add: createPolynomial_def)
next
  case False
  then have "unat (threshold - 1) + 1 = unat threshold"
    by (metis Suc_eq_plus1 Suc_pred' unat_gt_0 unat_minus_one)
  with False assms(2) show ?thesis
    by (auto simp: createPolynomial_def Let_def min_def)
qed

theorem createPolynomial_threshold_witness:
  "createPolynomial (replicate 8 (1 :: rat)) (0 - 1) = None
   \<and> share_parameters_ok 3 0"
  using createPolynomial_threshold [of 3 0 "replicate 8 (1 :: rat)"]
  by (simp add: share_parameters_ok_def MIN_SHARES_def MAX_SHARES_def)

end
