(* ===== verification/EVM_Data.thy ===== *)
theory EVM_Data
  imports QPrelude
begin

text \<open>
  The data structures of the contract engine: addresses (\<^verbatim>\<open>src/src/evm/Address.cpp\<close>),
  the operand stack (\<^verbatim>\<open>src/src/evm/Stack.cpp\<close>), byte-addressed memory with its
  expansion cost (\<^verbatim>\<open>src/src/evm/Memory.cpp\<close>) and contract storage
  (\<^verbatim>\<open>src/src/evm/Storage.cpp\<close>).  The top of the stack is the last list element, as
  in the vector the code keeps.
\<close>

section \<open>Addresses\<close>

datatype evm_address = Address (addr_bytes: bytes)

definition Address_eq :: "evm_address \<Rightarrow> evm_address \<Rightarrow> bool" where
  "Address_eq a b = (addr_bytes a = addr_bytes b)"

fun lexicographical_compare :: "'a :: linorder list \<Rightarrow> 'a list \<Rightarrow> bool" where
  "lexicographical_compare [] [] = False"
| "lexicographical_compare [] (y # ys) = True"
| "lexicographical_compare (x # xs) [] = False"
| "lexicographical_compare (x # xs) (y # ys) =
     (if x < y then True else if y < x then False else lexicographical_compare xs ys)"

definition Address_less :: "evm_address \<Rightarrow> evm_address \<Rightarrow> bool" where
  "Address_less a b = lexicographical_compare (addr_bytes a) (addr_bytes b)"

definition Address_hash :: "evm_address \<Rightarrow> u64" where
  "Address_hash a = fold (\<lambda>b h. h * 31 + ucast b) (addr_bytes a) 0"

lemma lexicographical_compare_less: "lexicographical_compare xs ys \<longleftrightarrow> xs < ys"
  by (induction xs ys rule: lexicographical_compare.induct) auto

instantiation evm_address :: linorder
begin

definition less_evm_address :: "evm_address \<Rightarrow> evm_address \<Rightarrow> bool" where
  "less_evm_address a b = Address_less a b"

definition less_eq_evm_address :: "evm_address \<Rightarrow> evm_address \<Rightarrow> bool" where
  "less_eq_evm_address a b = (\<not> Address_less b a)"

instance
  by standard
     (auto simp: less_evm_address_def less_eq_evm_address_def Address_less_def
       lexicographical_compare_less evm_address.expand)

end

section \<open>Stack\<close>

datatype stack_error = Stack_overflow | Stack_underflow | Invalid_depth

type_synonym evm_stack = "u256 list"

definition Stack_push :: "u256 \<Rightarrow> evm_stack \<Rightarrow> stack_error + evm_stack" where
  "Stack_push v items = (if length items \<ge> 1024 then Inl Stack_overflow else Inr (items @ [v]))"

definition Stack_pop :: "evm_stack \<Rightarrow> stack_error + (u256 \<times> evm_stack)" where
  "Stack_pop items = (if items = [] then Inl Stack_underflow else Inr (last items, butlast items))"

definition Stack_peek :: "nat \<Rightarrow> evm_stack \<Rightarrow> stack_error + u256" where
  "Stack_peek depth items =
     (if length items \<le> depth then Inl Stack_underflow else Inr (items ! (length items - 1 - depth)))"

definition Stack_swap :: "nat \<Rightarrow> evm_stack \<Rightarrow> stack_error + evm_stack" where
  "Stack_swap n items =
     (if n = 0 \<or> n > 16 then Inl Invalid_depth
      else if length items \<le> n then Inl Stack_underflow
      else let top = length items - 1; low = length items - 1 - n
           in Inr (items[top := items ! low, low := items ! top]))"

definition Stack_dup :: "nat \<Rightarrow> evm_stack \<Rightarrow> stack_error + evm_stack" where
  "Stack_dup n items =
     (if n = 0 \<or> n > 16 then Inl Invalid_depth
      else if length items < n then Inl Stack_underflow
      else Stack_push (items ! (length items - n)) items)"

definition Stack_clear :: "evm_stack \<Rightarrow> evm_stack" where "Stack_clear items = []"
definition Stack_empty :: "evm_stack \<Rightarrow> bool" where "Stack_empty items = (items = [])"
definition Stack_size :: "evm_stack \<Rightarrow> nat" where "Stack_size items = length items"

section \<open>Memory\<close>

text \<open>
  \<open>Out_of_range\<close> is the exception of that name; \<open>Length_error\<close> is what
  \<^verbatim>\<open>vector::resize\<close> throws beyond its maximal size; \<open>Wild_access\<close> is an access
  outside the vector, which C++ leaves undefined.
\<close>

datatype mem_error = Out_of_range | Length_error | Wild_access

definition vector_max_size :: nat where "vector_max_size = 2 ^ 63 - 1"

definition calculate_words :: "u64 \<Rightarrow> u64" where
  "calculate_words sz = (sz + 31) div 32"

definition calculate_expansion_cost :: "bytes \<Rightarrow> u64 \<Rightarrow> u64 \<Rightarrow> u64" where
  "calculate_expansion_cost data offset sz =
     (if sz = 0 then 0
      else
        let required_size = offset + sz
        in if required_size \<le> size_t data then 0
           else
             let words = calculate_words required_size;
                 current_words = calculate_words (size_t data);
                 linear_cost = words * 3;
                 quadratic_cost = (words * words) div 512 - (current_words * current_words) div 512
             in linear_cost + quadratic_cost)"

definition Memory_expand :: "u64 \<Rightarrow> bytes \<Rightarrow> mem_error + (u64 \<times> bytes)" where
  "Memory_expand new_size data =
     (if new_size \<le> size_t data then Inr (0, data)
      else if unat new_size > vector_max_size then Inl Length_error
      else Inr (calculate_expansion_cost data 0 new_size,
                data @ replicate (unat new_size - length data) 0))"

definition ensure_capacity :: "u64 \<Rightarrow> u64 \<Rightarrow> bytes \<Rightarrow> mem_error + bytes" where
  "ensure_capacity offset sz data =
     (let required_size = offset + sz
      in if required_size > size_t data
         then (case Memory_expand required_size data of Inl e \<Rightarrow> Inl e | Inr (_, data') \<Rightarrow> Inr data')
         else Inr data)"

definition write_at :: "nat \<Rightarrow> bytes \<Rightarrow> bytes \<Rightarrow> mem_error + bytes" where
  "write_at off src data =
     (if off + length src > length data then Inl Wild_access
      else Inr (take off data @ src @ drop (off + length src) data))"

definition Memory_store_byte :: "u64 \<Rightarrow> byte \<Rightarrow> bytes \<Rightarrow> mem_error + bytes" where
  "Memory_store_byte offset v data =
     (case ensure_capacity offset 1 data of
        Inl e \<Rightarrow> Inl e | Inr data' \<Rightarrow> write_at (unat offset) [v] data')"

definition Memory_store :: "u64 \<Rightarrow> bytes \<Rightarrow> bytes \<Rightarrow> mem_error + bytes" where
  "Memory_store offset src data =
     (if src = [] then Inr data
      else case ensure_capacity offset (size_t src) data of
        Inl e \<Rightarrow> Inl e | Inr data' \<Rightarrow> write_at (unat offset) src data')"

definition Memory_load_byte :: "u64 \<Rightarrow> bytes \<Rightarrow> mem_error + byte" where
  "Memory_load_byte offset data =
     (if offset \<ge> size_t data then Inl Out_of_range else Inr (data ! unat offset))"

definition Memory_load :: "u64 \<Rightarrow> u64 \<Rightarrow> bytes \<Rightarrow> mem_error + bytes" where
  "Memory_load offset sz data =
     (if unat sz > vector_max_size then Inl Length_error
      else if offset \<ge> size_t data then Inr (replicate (unat sz) 0)
      else let copy_size = min (unat sz) (length data - unat offset)
           in Inr (slice (unat offset) copy_size data @ replicate (unat sz - copy_size) 0))"

definition Memory_is_zero :: "u64 \<Rightarrow> u64 \<Rightarrow> bytes \<Rightarrow> mem_error + bool" where
  "Memory_is_zero offset sz data =
     (if offset + sz > size_t data then Inl Out_of_range
      else if unat offset + unat sz > length data then Inl Wild_access
      else Inr (list_all (\<lambda>b. b = 0) (slice (unat offset) (unat sz) data)))"

definition hex_byte :: "byte \<Rightarrow> string" where
  "hex_byte b = (let h = (\<lambda>d. if d < 10 then char_of (48 + d) else char_of (87 + d :: nat))
     in [h (unat b div 16), h (unat b mod 16)])"

fun dump_from :: "nat \<Rightarrow> bytes \<Rightarrow> string" where
  "dump_from i [] = []"
| "dump_from i (b # bs) =
     (if i > 0 \<and> i mod 32 = 0 then [char_of (10 :: nat)] else []) @ hex_byte b @ '' '' @ dump_from (Suc i) bs"

definition Memory_dump :: "u64 \<Rightarrow> u64 \<Rightarrow> bytes \<Rightarrow> mem_error + string" where
  "Memory_dump offset sz data =
     (if offset + sz > size_t data then Inl Out_of_range
      else if unat offset + unat sz > length data then Inl Wild_access
      else Inr (dump_from 0 (slice (unat offset) (unat sz) data)))"

definition Memory_clear :: "bytes \<Rightarrow> bytes" where "Memory_clear data = []"

section \<open>Storage\<close>

type_synonym evm_storage = "(evm_address \<times> (u256 \<times> u256) list) list"

definition contract_slots :: "evm_address \<Rightarrow> evm_storage \<Rightarrow> (u256 \<times> u256) list" where
  "contract_slots a st = (case map_of st a of None \<Rightarrow> [] | Some m \<Rightarrow> m)"

definition Storage_store :: "evm_address \<Rightarrow> u256 \<Rightarrow> u256 \<Rightarrow> evm_storage \<Rightarrow> evm_storage" where
  "Storage_store a k v st = AList.update a (AList.update k v (contract_slots a st)) st"

definition Storage_load :: "evm_address \<Rightarrow> u256 \<Rightarrow> evm_storage \<Rightarrow> u256" where
  "Storage_load a k st =
     (case map_of st a of None \<Rightarrow> 0
      | Some m \<Rightarrow> (case map_of m k of None \<Rightarrow> 0 | Some v \<Rightarrow> v))"

definition Storage_clear_address :: "evm_address \<Rightarrow> evm_storage \<Rightarrow> evm_storage" where
  "Storage_clear_address a st = AList.delete a st"

definition Storage_contains :: "evm_address \<Rightarrow> u256 \<Rightarrow> evm_storage \<Rightarrow> bool" where
  "Storage_contains a k st =
     (case map_of st a of None \<Rightarrow> False | Some m \<Rightarrow> map_of m k \<noteq> None)"

definition Storage_size :: "evm_address \<Rightarrow> evm_storage \<Rightarrow> nat" where
  "Storage_size a st = (case map_of st a of None \<Rightarrow> 0 | Some m \<Rightarrow> length m)"

definition Storage_clear :: "evm_storage \<Rightarrow> evm_storage" where "Storage_clear st = []"

section \<open>Lemmas\<close>

lemma drop_append_exact': "length a = n \<Longrightarrow> drop n (a @ b) = b"
  by simp

lemma Stack_pop_push: "Stack_push v items = Inr items' \<Longrightarrow> Stack_pop items' = Inr (v, items)"
  by (auto simp: Stack_push_def Stack_pop_def split: if_splits)

lemma Stack_bounds:
  "Stack_push v items = Inr items' \<Longrightarrow> length items' \<le> 1024"
  "Stack_pop items = Inr (v, items') \<Longrightarrow> length items' \<le> length items"
  "Stack_swap n items = Inr items' \<Longrightarrow> length items' = length items"
  "Stack_dup n items = Inr items' \<Longrightarrow> length items' \<le> 1024"
  by (auto simp: Stack_push_def Stack_pop_def Stack_swap_def Stack_dup_def Let_def split: if_splits)

lemma Stack_swap_top:
  assumes "Stack_swap n items = Inr items'"
  shows "Stack_peek 0 items' = Stack_peek n items" "Stack_peek n items' = Stack_peek 0 items"
  using assms by (auto simp: Stack_swap_def Stack_peek_def Let_def nth_list_update split: if_splits)

lemma Stack_swap_other:
  assumes "Stack_swap n items = Inr items'" "d \<noteq> 0" "d \<noteq> n"
  shows "Stack_peek d items' = Stack_peek d items"
  using assms by (auto simp: Stack_swap_def Stack_peek_def Let_def nth_list_update split: if_splits)

lemma Stack_swap_swap: "Stack_swap n items = Inr items' \<Longrightarrow> Stack_swap n items' = Inr items"
  unfolding Stack_swap_def Let_def
  by (auto intro!: nth_equalityI simp: nth_list_update split: if_splits)

lemma Stack_dup_peek: "Stack_dup n items = Inr items' \<Longrightarrow> Stack_peek 0 items' = Stack_peek (n - 1) items"
  by (auto simp: Stack_dup_def Stack_push_def Stack_peek_def nth_append split: if_splits)

lemma unat_add_small:
  fixes a b :: u64
  shows "unat a + unat b < 2 ^ 64 \<Longrightarrow> unat (a + b) = unat a + unat b"
  by (simp add: unat_word_ariths)

lemma ensure_capacity_fits:
  assumes "unat off + unat n \<le> vector_max_size" "length data \<le> vector_max_size"
  shows "ensure_capacity off n data
    = Inr (data @ replicate (unat off + unat n - length data) 0)"
proof -
  have "unat (off + n) = unat off + unat n"
    using assms(1) by (intro unat_add_small) (simp add: vector_max_size_def)
  moreover have "unat (size_t data) = length data"
    using assms(2) by (intro unat_size_t) (simp add: vector_max_size_def)
  ultimately show ?thesis
    using assms by (auto simp: ensure_capacity_def Memory_expand_def Let_def word_less_nat_alt
        word_le_nat_alt)
qed

lemma Memory_store_fits:
  assumes "src \<noteq> []" "unat off + length src \<le> vector_max_size" "length data \<le> vector_max_size"
  shows "Memory_store off src data =
    Inr (let data' = data @ replicate (unat off + length src - length data) 0
         in take (unat off) data' @ src @ drop (unat off + length src) data')"
proof -
  have "unat (size_t src) = length src"
    using assms(2) by (intro unat_size_t) (simp add: vector_max_size_def)
  then show ?thesis
    using assms ensure_capacity_fits [of off "size_t src" data]
    by (simp add: Memory_store_def write_at_def Let_def)
qed

lemma Storage_load_store:
  "Storage_load a k (Storage_store b j v st) = (if a = b \<and> k = j then v else Storage_load a k st)"
  by (auto simp: Storage_load_def Storage_store_def contract_slots_def alist_simps split: option.split)

section \<open>Properties\<close>

text \<open>Stack discipline: push then pop gives the value and the old stack back; swap exchanges
  the top with the entry at depth n, leaves every other entry alone and is its own inverse;
  dup n pushes what peek (n - 1) shows; no operation makes a stack deeper than 1024.\<close>

theorem stack_laws:
  assumes "length items \<le> 1024"
  shows "(\<forall>v items'. Stack_push v items = Inr items' \<longrightarrow> Stack_pop items' = Inr (v, items) \<and> length items' \<le> 1024)
    \<and> (\<forall>n items'. Stack_swap n items = Inr items' \<longrightarrow> Stack_swap n items' = Inr items
         \<and> Stack_peek 0 items' = Stack_peek n items
         \<and> (\<forall>d. d \<noteq> 0 \<and> d \<noteq> n \<longrightarrow> Stack_peek d items' = Stack_peek d items))
    \<and> (\<forall>n items'. Stack_dup n items = Inr items' \<longrightarrow>
         Stack_peek 0 items' = Stack_peek (n - 1) items \<and> length items' \<le> 1024)"
  by (intro conjI allI impI; (elim conjE)?)
     (erule Stack_pop_push Stack_bounds(1) Stack_swap_swap Stack_swap_top(1) Stack_dup_peek
        Stack_bounds(4), (rule Stack_swap_other; assumption)?)+

theorem stack_laws_witness:
  "Stack_swap 2 [1, 2, 3] = Inr [3, 2, 1] \<and> Stack_swap 2 [3, 2, 1] = Inr [1, 2, 3]"
proof -
  have "Stack_swap 2 [1, 2, 3] = Inr [3, 2, 1]" by (simp add: Stack_swap_def)
  with stack_laws [of "[1, 2, 3]"] show ?thesis by simp
qed

text \<open>Memory reads back what was written: after storing a non-empty block anywhere below the
  maximal vector size, loading the same range gives the block, and every byte outside the
  range is what it was, bytes of the newly grown part being zero.\<close>

theorem memory_load_store:
  assumes "src \<noteq> []" "unat off + length src \<le> vector_max_size" "length data \<le> vector_max_size"
  shows "\<exists>data'. Memory_store off src data = Inr data'
    \<and> Memory_load off (size_t src) data' = Inr src
    \<and> (\<forall>i. i < unat off \<or> unat off + length src \<le> i \<longrightarrow> i < length data' \<longrightarrow>
         data' ! i = (if i < length data then data ! i else 0))"
proof -
  let ?d = "data @ replicate (unat off + length src - length data) 0"
  let ?d' = "take (unat off) ?d @ src @ drop (unat off + length src) ?d"
  have store: "Memory_store off src data = Inr ?d'"
    using Memory_store_fits [OF assms] by (simp add: Let_def)
  have len: "length ?d' = max (length data) (unat off + length src)"
    by simp
  have tk: "length (take (unat off) ?d) = unat off" by simp
  have sl: "slice (unat off) (length src) ?d' = src"
    unfolding slice_def using tk by (metis append_eq_conv_conj drop_append_exact')
  have "unat (size_t ?d') = length ?d'"
    using assms len by (intro unat_size_t) (simp add: vector_max_size_def)
  moreover have us: "unat (size_t src) = length src"
    using assms(2) by (intro unat_size_t) (simp add: vector_max_size_def)
  moreover have "unat off < length ?d'" using assms(1) len by (cases src) auto
  ultimately have "\<not> size_t ?d' \<le> off" by (simp only: word_le_nat_alt)
  moreover have "min (length src) (length ?d' - unat off) = length src"
    unfolding len by simp
  ultimately have "Memory_load off (size_t src) ?d' = Inr src"
    using assms(2) sl unfolding Memory_load_def us by (simp add: Let_def del: append.simps append_assoc)
  moreover have "?d' ! i = (if i < length data then data ! i else 0)"
    if "i < unat off \<or> unat off + length src \<le> i" "i < length ?d'" for i
    using that by (auto simp: nth_append)
  ultimately show ?thesis using store by blast
qed

theorem memory_load_store_witness:
  "\<exists>data'. Memory_store 3 [7, 8] [1] = Inr data' \<and> Memory_load 3 (size_t [7 :: byte, 8]) data' = Inr [7, 8]
     \<and> (2 < length data' \<longrightarrow> data' ! 2 = 0)"
  using memory_load_store [of "[7, 8]" 3 "[1]"] by (fastforce simp: vector_max_size_def)

text \<open>The capacity computation wraps: storing one byte at the last address 2^64 - 1 requests
  size 0, allocates nothing and writes outside the vector, for every memory content.\<close>

theorem memory_store_wraps:
  assumes "length data < 2 ^ 64"
  shows "Memory_store_byte (- 1) v data = Inl Wild_access"
proof -
  have "unat (- 1 :: u64) = 2 ^ 64 - 1" by (simp add: unsigned_minus_1_eq_mask mask_eq_exp_minus_1)
  with assms show ?thesis
    by (simp add: Memory_store_byte_def ensure_capacity_def write_at_def Let_def)
qed

theorem memory_store_wraps_witness: "Memory_store_byte (- 1) 5 [1, 2, 3] = Inl Wild_access"
  by (rule memory_store_wraps) simp

text \<open>Expansion is priced above the Yellow Paper formula: growing memory from a to b words
  (a < b, both below 2^26) costs the difference of 3 w + w^2 div 512 plus 3 a, because the
  linear term charges the whole new size and not the growth.\<close>

theorem expansion_cost_excess:
  fixes n :: u64
  assumes "length data < unat n" "unat n < 2 ^ 31"
  shows "let a = (length data + 31) div 32; b = (unat n + 31) div 32;
             C = (\<lambda>w :: nat. 3 * w + w * w div 512)
         in unat (calculate_expansion_cost data 0 n) = C b - C a + 3 * a"
proof -
  define a where "a = (length data + 31) div 32"
  define b where "b = (unat n + 31) div 32"
  have ab: "a \<le> b" "b \<le> 2 ^ 26"
    using assms by (auto simp: a_def b_def intro!: div_le_mono)
  have sz: "unat (size_t data) = length data"
    using assms by (intro unat_size_t) simp
  have w: "unat (calculate_words n) = b"
    using assms(2) by (simp add: calculate_words_def b_def unat_div unat_word_ariths)
  have cw: "unat (calculate_words (size_t data)) = a"
    using assms by (simp add: calculate_words_def a_def unat_div unat_word_ariths sz)
  have sq: "a * a \<le> b * b" "b * b \<le> 2 ^ 26 * 2 ^ 26"
    using ab by (intro mult_le_mono; simp)+
  let ?w = "calculate_words n" and ?c = "calculate_words (size_t data)"
  have qw: "unat (?w * ?w div 512) = b * b div 512" "unat (?c * ?c div 512) = a * a div 512"
    using sq by (simp_all add: unat_div unat_word_ariths w cw)
  have le: "a * a div 512 \<le> b * b div 512" using sq by (intro div_le_mono)
  have q: "unat (?w * ?w div 512 - ?c * ?c div 512) = b * b div 512 - a * a div 512"
    using le qw by (simp add: unat_sub word_le_nat_alt)
  have "b * b div 512 \<le> 2 ^ 43" using div_le_mono [OF sq(2), of 512] by simp
  moreover have "calculate_expansion_cost data 0 n = ?w * 3 + (?w * ?w div 512 - ?c * ?c div 512)"
    using assms sz by (auto simp: calculate_expansion_cost_def Let_def word_le_nat_alt)
  ultimately have "unat (calculate_expansion_cost data 0 n)
      = 3 * b + (b * b div 512 - a * a div 512)"
    using ab by (simp add: unat_word_ariths q w)
  then show ?thesis
    using ab le unfolding Let_def a_def [symmetric] b_def [symmetric] by simp
qed

theorem expansion_cost_excess_witness:
  "unat (calculate_expansion_cost (replicate 64 0) 0 96) = 9"
  using expansion_cost_excess [of "replicate 64 0" 96] by simp

end
