(* ===== verification/EVM_Machine.thy ===== *)
theory EVM_Machine
  imports EVM_Data Transactions Ledger_Interface
begin

unbundle bit_operations_syntax

text \<open>
  The contract engine \<^verbatim>\<open>evm::EVMExecutor\<close> (\<^verbatim>\<open>src/src/evm/EVMExecutor.cpp\<close>): the opcode
  loop of \<^verbatim>\<open>execute_contract\<close> with its gas meter, and the value transfer and
  deployment check it offers to the chain.  An exception carries the state at
  the point where it was thrown, because the code keeps what was done before.
\<close>

section \<open>State\<close>

datatype exec_error = Stack_exception stack_error | Out_of_gas | Push_exceeds_code | Unknown_opcode

fun what :: "exec_error \<Rightarrow> string" where
  "what (Stack_exception Stack_overflow) = ''Stack overflow''"
| "what (Stack_exception Stack_underflow) = ''Stack underflow''"
| "what (Stack_exception Invalid_depth) = ''Invalid swap depth''"
| "what Out_of_gas = ''Out of gas''"
| "what Push_exceeds_code = ''Push exceeds code size''"
| "what Unknown_opcode = ''Unknown or unimplemented opcode''"

record evm_state =
  evm_stack_of :: evm_stack
  evm_storage_of :: evm_storage
  evm_memory_of :: bytes
  gas_used :: u64
  gas_limit :: u64
  balances :: "(string \<times> u64) list"
  evm_code :: "(string \<times> bytes) list"
  evm_slots :: "(string \<times> (u256 \<times> bytes) list) list"

record execution_result =
  res_success :: bool
  res_return_data :: bytes
  res_gas_used :: u64
  res_error_message :: string

definition EVMExecutor_init :: evm_state where
  "EVMExecutor_init = \<lparr>evm_stack_of = [], evm_storage_of = [], evm_memory_of = [], gas_used = 0,
     gas_limit = 0, balances = [], evm_code = [], evm_slots = []\<rparr>"

section \<open>Opcodes and gas\<close>

text \<open>The gas classes of the switch; an opcode in no class and not a push is unknown.\<close>

definition op_verylow :: "byte list" where
  "op_verylow = [0x01, 0x03, 0x17, 0x18, 0x19, 0x1a, 0x35, 0x51, 0x52, 0x53]"
definition op_low :: "byte list" where
  "op_low = [0x02, 0x04, 0x05, 0x06, 0x07]"
definition op_mid :: "byte list" where
  "op_mid = [0x08, 0x09, 0x56]"
definition op_base :: "byte list" where
  "op_base = [0x30, 0x32, 0x33, 0x34, 0x36, 0x38, 0x3a, 0x41, 0x42, 0x43, 0x45, 0x46, 0x48]"
definition op_warm :: "byte list" where
  "op_warm = [0x31, 0x3b, 0x3f, 0xf1, 0xf2]"
definition op_zero :: "byte list" where
  "op_zero = [0xf3, 0xfd]"

definition ZERO :: u64 where "ZERO = 0"
definition BASE :: u64 where "BASE = 2"
definition VERYLOW :: u64 where "VERYLOW = 3"
definition LOW :: u64 where "LOW = 5"
definition MID :: u64 where "MID = 8"
definition HIGH :: u64 where "HIGH = 10"
definition SHA3_GAS :: u64 where "SHA3_GAS = 30"
definition CREATE_GAS :: u64 where "CREATE_GAS = 32000"
definition SELFDESTRUCT_GAS :: u64 where "SELFDESTRUCT_GAS = 5000"
definition WARM_STORAGE_READ_COST :: u64 where "WARM_STORAGE_READ_COST = 100"
definition SSTORE_SET_GAS :: u64 where "SSTORE_SET_GAS = 20000"

lemmas gas_defs = ZERO_def BASE_def VERYLOW_def LOW_def MID_def HIGH_def SHA3_GAS_def CREATE_GAS_def
  SELFDESTRUCT_GAS_def WARM_STORAGE_READ_COST_def SSTORE_SET_GAS_def

text \<open>Opcodes whose case only charges gas.\<close>

definition metered_only :: "byte \<Rightarrow> u64 option" where
  "metered_only opc =
     (if opc \<in> set op_verylow then Some VERYLOW
      else if opc \<in> set op_low then Some LOW
      else if opc \<in> set op_mid then Some MID
      else if opc \<in> set op_base then Some BASE
      else if opc \<in> set op_warm then Some WARM_STORAGE_READ_COST
      else if opc \<in> set op_zero then Some ZERO
      else if opc = 0x20 then Some SHA3_GAS
      else if opc = 0x57 then Some HIGH
      else if opc = 0x5b then Some 1
      else if opc = 0xf0 then Some CREATE_GAS
      else if opc = 0xff then Some SELFDESTRUCT_GAS
      else None)"

definition require_gas :: "u64 \<Rightarrow> evm_state \<Rightarrow> (exec_error + unit) \<times> evm_state" where
  "require_gas gas st =
     (if gas_used st + gas > gas_limit st then (Inl Out_of_gas, st)
      else (Inr (), st\<lparr>gas_used := gas_used st + gas\<rparr>))"

definition pop_stack :: "evm_state \<Rightarrow> (exec_error + u256) \<times> evm_state" where
  "pop_stack st = (case Stack_pop (evm_stack_of st) of
     Inl e \<Rightarrow> (Inl (Stack_exception e), st)
   | Inr (v, items) \<Rightarrow> (Inr v, st\<lparr>evm_stack_of := items\<rparr>))"

definition push_stack :: "u256 \<Rightarrow> evm_state \<Rightarrow> (exec_error + unit) \<times> evm_state" where
  "push_stack v st = (case Stack_push v (evm_stack_of st) of
     Inl e \<Rightarrow> (Inl (Stack_exception e), st)
   | Inr items \<Rightarrow> (Inr (), st\<lparr>evm_stack_of := items\<rparr>))"

definition push_value :: "bytes \<Rightarrow> u256" where
  "push_value bs = fold (\<lambda>b v. push_bit 8 v OR ucast b) bs 0"

datatype control = Halt | Next nat

text \<open>One round of the loop: the case of the opcode at \<open>pc\<close>, then \<^verbatim>\<open>pc++\<close>.\<close>

definition exec_opcode ::
  "evm_address \<Rightarrow> bytes \<Rightarrow> nat \<Rightarrow> evm_state \<Rightarrow> (exec_error + control) \<times> evm_state" where
  "exec_opcode addr code pc st =
    (let opc = code ! pc in
     if opc = 0x00 then
       (case require_gas ZERO st of (Inl e, s) \<Rightarrow> (Inl e, s) | (Inr _, s) \<Rightarrow> (Inr Halt, s))
     else if opc = 0x54 then
       (case require_gas WARM_STORAGE_READ_COST st of (Inl e, s) \<Rightarrow> (Inl e, s) | (Inr _, s) \<Rightarrow>
       (case pop_stack s of (Inl e, s) \<Rightarrow> (Inl e, s) | (Inr k, s) \<Rightarrow>
       (case push_stack (Storage_load addr k (evm_storage_of s)) s of (Inl e, s) \<Rightarrow> (Inl e, s)
        | (Inr _, s) \<Rightarrow> (Inr (Next (pc + 1)), s))))
     else if opc = 0x55 then
       (case require_gas SSTORE_SET_GAS st of (Inl e, s) \<Rightarrow> (Inl e, s) | (Inr _, s) \<Rightarrow>
       (case pop_stack s of (Inl e, s) \<Rightarrow> (Inl e, s) | (Inr v, s) \<Rightarrow>
       (case pop_stack s of (Inl e, s) \<Rightarrow> (Inl e, s) | (Inr k, s) \<Rightarrow>
        (Inr (Next (pc + 1)), s\<lparr>evm_storage_of := Storage_store addr k v (evm_storage_of s)\<rparr>))))
     else if opc = 0x5f then
       (case require_gas BASE st of (Inl e, s) \<Rightarrow> (Inl e, s) | (Inr _, s) \<Rightarrow>
       (case push_stack 0 s of (Inl e, s) \<Rightarrow> (Inl e, s) | (Inr _, s) \<Rightarrow> (Inr (Next (pc + 1)), s)))
     else if 0x60 \<le> opc \<and> opc \<le> 0x7f then
       (case require_gas VERYLOW st of (Inl e, s) \<Rightarrow> (Inl e, s) | (Inr _, s) \<Rightarrow>
        let push_bytes = unat (opc - 0x60) + 1
        in if pc + push_bytes \<ge> length code then (Inl Push_exceeds_code, s)
           else (case push_stack (push_value (slice (pc + 1) push_bytes code)) s of
                   (Inl e, s) \<Rightarrow> (Inl e, s)
                 | (Inr _, s) \<Rightarrow> (Inr (Next (pc + push_bytes + 1)), s)))
     else
       (case metered_only opc of
          None \<Rightarrow> (Inl Unknown_opcode, st)
        | Some g \<Rightarrow> (case require_gas g st of (Inl e, s) \<Rightarrow> (Inl e, s)
            | (Inr _, s) \<Rightarrow> (Inr (Next (pc + 1)), s))))"

lemma exec_opcode_Next: "exec_opcode addr code pc st = (Inr (Next pc'), st') \<Longrightarrow> pc < pc'"
  unfolding exec_opcode_def Let_def
  by (auto split: if_splits sum.splits prod.splits option.splits)

text \<open>The \<^verbatim>\<open>while\<close> loop; \<^verbatim>\<open>pc\<close> grows in every round, so it ends.\<close>

function exec_loop ::
  "evm_address \<Rightarrow> bytes \<Rightarrow> nat \<Rightarrow> evm_state \<Rightarrow> (exec_error + unit) \<times> evm_state" where
  "exec_loop addr code pc st =
     (if pc < length code
      then case exec_opcode addr code pc st of
             (Inl e, s) \<Rightarrow> (Inl e, s)
           | (Inr Halt, s) \<Rightarrow> (Inr (), s)
           | (Inr (Next pc'), s) \<Rightarrow> exec_loop addr code pc' s
      else (Inr (), st))"
  by pat_completeness auto

termination
  by (relation "measure (\<lambda>(addr, code, pc, st). length code - pc)")
     (auto dest!: sym [THEN exec_opcode_Next])

declare exec_loop.simps [simp del]

definition execute_contract ::
  "evm_address \<Rightarrow> bytes \<Rightarrow> bytes \<Rightarrow> u64 \<Rightarrow> evm_state \<Rightarrow> execution_result \<times> evm_state" where
  "execute_contract addr code input limit st =
     (case exec_loop addr code 0 (st\<lparr>gas_used := 0, gas_limit := limit\<rparr>) of
        (Inr _, s) \<Rightarrow> (\<lparr>res_success = True, res_return_data = [], res_gas_used = gas_used s,
                       res_error_message = []\<rparr>, s)
      | (Inl e, s) \<Rightarrow> (\<lparr>res_success = False, res_return_data = [], res_gas_used = gas_used s,
                       res_error_message = what e\<rparr>, s))"

section \<open>Transactions, deployment and queries\<close>



definition EVMExecutor_deploy :: "bytes \<Rightarrow> bool" where
  "EVMExecutor_deploy code =
     (if code = [] then False else \<not> list_ex (\<lambda>b. b = 0xfe \<or> b = 0xff) code)"

definition EVMExecutor_getBalance :: "string \<Rightarrow> evm_state \<Rightarrow> u64" where
  "EVMExecutor_getBalance a st = (case map_of (balances st) a of Some b \<Rightarrow> b | None \<Rightarrow> 0)"


definition EVMExecutor_getStorage :: "string \<Rightarrow> u256 \<Rightarrow> evm_state \<Rightarrow> bytes" where
  "EVMExecutor_getStorage a k st =
     (case map_of (evm_slots st) a of None \<Rightarrow> []
      | Some m \<Rightarrow> (case map_of m k of Some v \<Rightarrow> v | None \<Rightarrow> []))"

section \<open>Lemmas\<close>

text \<open>What a run of a contract leaves alone, and the two bounds it keeps.\<close>

definition evm_frame :: "evm_address \<Rightarrow> evm_state \<Rightarrow> evm_state \<Rightarrow> bool" where
  "evm_frame addr st st' \<longleftrightarrow>
     balances st' = balances st \<and> evm_code st' = evm_code st \<and> evm_slots st' = evm_slots st
     \<and> evm_memory_of st' = evm_memory_of st \<and> gas_limit st' = gas_limit st
     \<and> (\<forall>a k. a \<noteq> addr \<longrightarrow> Storage_load a k (evm_storage_of st') = Storage_load a k (evm_storage_of st))"

definition evm_bounded :: "evm_state \<Rightarrow> bool" where
  "evm_bounded st \<longleftrightarrow> gas_used st \<le> gas_limit st \<and> length (evm_stack_of st) \<le> 1024"

lemma evm_frame_refl [simp]: "evm_frame addr st st"
  by (simp add: evm_frame_def)

lemma evm_frame_trans: "evm_frame addr s t \<Longrightarrow> evm_frame addr t u \<Longrightarrow> evm_frame addr s u"
  by (simp add: evm_frame_def)

named_theorems evm_ops \<open>effect of the primitive machine operations\<close>

lemma require_gas_ops [evm_ops]:
  "require_gas g st = (r, st') \<Longrightarrow> evm_bounded st \<Longrightarrow> evm_frame addr st st' \<and> evm_bounded st'"
  by (auto simp: require_gas_def evm_frame_def evm_bounded_def not_less split: if_splits)

lemma pop_stack_ops [evm_ops]:
  "pop_stack st = (r, st') \<Longrightarrow> evm_bounded st \<Longrightarrow> evm_frame addr st st' \<and> evm_bounded st'"
  by (auto simp: pop_stack_def evm_frame_def evm_bounded_def dest!: Stack_bounds(2) split: sum.splits)

lemma push_stack_ops [evm_ops]:
  "push_stack v st = (r, st') \<Longrightarrow> evm_bounded st \<Longrightarrow> evm_frame addr st st' \<and> evm_bounded st'"
  by (auto simp: push_stack_def evm_frame_def evm_bounded_def dest!: Stack_bounds(1) split: sum.splits)

lemma sstore_frame:
  "evm_frame addr st (st\<lparr>evm_storage_of := Storage_store addr k v (evm_storage_of st)\<rparr>)"
  "evm_bounded (st\<lparr>evm_storage_of := x\<rparr>) = evm_bounded st"
  by (simp_all add: evm_frame_def evm_bounded_def Storage_load_store)

text \<open>Sequencing of two machine operations, the second depending on the first's value.\<close>

definition evm_keeps :: "evm_address \<Rightarrow> (evm_state \<Rightarrow> (exec_error + 'a) \<times> evm_state) \<Rightarrow> bool" where
  "evm_keeps addr m \<longleftrightarrow> (\<forall>st. evm_bounded st \<longrightarrow>
     evm_frame addr st (snd (m st)) \<and> evm_bounded (snd (m st)))"

lemma evm_keeps_then:
  assumes "evm_keeps addr m" "\<And>a. evm_keeps addr (f a)"
  shows "evm_keeps addr (\<lambda>st. case m st of (Inl e, s) \<Rightarrow> (Inl e, s) | (Inr a, s) \<Rightarrow> f a s)"
  unfolding evm_keeps_def
proof (intro allI impI)
  fix st assume b: "evm_bounded st"
  obtain r s where m: "m st = (r, s)" by fastforce
  have s: "evm_frame addr st s" "evm_bounded s"
    using assms(1) b m unfolding evm_keeps_def by (metis snd_conv)+
  then show "evm_frame addr st (snd (case m st of (Inl e, s) \<Rightarrow> (Inl e, s) | (Inr a, s) \<Rightarrow> f a s))
      \<and> evm_bounded (snd (case m st of (Inl e, s) \<Rightarrow> (Inl e, s) | (Inr a, s) \<Rightarrow> f a s))"
    using assms(2) by (cases r) (auto simp: m evm_keeps_def intro: evm_frame_trans)
qed

lemma evm_keeps_prims:
  "evm_keeps addr (require_gas g)" "evm_keeps addr pop_stack" "evm_keeps addr (push_stack v)"
  "evm_keeps addr (Pair r)"
  "evm_keeps addr (\<lambda>s. (r, s\<lparr>evm_storage_of := Storage_store addr k v (evm_storage_of s)\<rparr>))"
  unfolding evm_keeps_def
  using require_gas_ops pop_stack_ops push_stack_ops
  by (metis prod.collapse | simp add: sstore_frame)+

lemma evm_keeps_dep:
  "(\<And>x. evm_keeps addr (f x)) \<Longrightarrow> evm_keeps addr (\<lambda>s. f (g s) s)"
  by (simp add: evm_keeps_def)

lemma evm_keeps_if:
  "evm_keeps addr m \<Longrightarrow> evm_keeps addr m' \<Longrightarrow> evm_keeps addr (\<lambda>st. if b then m st else m' st)"
  by (simp add: evm_keeps_def)

lemma evm_keeps_option:
  "evm_keeps addr m \<Longrightarrow> (\<And>x. evm_keeps addr (f x)) \<Longrightarrow>
   evm_keeps addr (\<lambda>st. case opt of None \<Rightarrow> m st | Some x \<Rightarrow> f x st)"
  by (cases opt) simp_all

lemma exec_opcode_keeps: "evm_keeps addr (exec_opcode addr code pc)"
proof -
  have sload: "evm_keeps addr (\<lambda>s. case push_stack (Storage_load addr k (evm_storage_of s)) s of
      (Inl e, s) \<Rightarrow> (Inl e, s) | (Inr _, s) \<Rightarrow> (Inr c, s))" for k and c :: control
    by (rule evm_keeps_dep [where g = "\<lambda>s. Storage_load addr k (evm_storage_of s)"])
       (intro evm_keeps_then evm_keeps_prims)
  show ?thesis
    unfolding exec_opcode_def [abs_def] Let_def
    by (intro evm_keeps_if evm_keeps_option evm_keeps_then evm_keeps_prims sload)
qed

lemma exec_loop_keeps:
  "evm_bounded st \<Longrightarrow> evm_frame addr st (snd (exec_loop addr code pc st))
     \<and> evm_bounded (snd (exec_loop addr code pc st))"
proof (induction addr code pc st rule: exec_loop.induct)
  case (1 addr code pc st)
  obtain r s where e: "exec_opcode addr code pc st = (r, s)" by fastforce
  have s: "evm_frame addr st s" "evm_bounded s"
    using exec_opcode_keeps [of addr code pc] 1(2) e unfolding evm_keeps_def by (metis snd_conv)+
  show ?case
  proof (cases "pc < length code")
    case True
    show ?thesis
    proof (cases r)
      case (Inr c)
      with 1(1) [OF True e [symmetric]] True e s show ?thesis
        by (subst (1 2) exec_loop.simps, cases c) (auto intro: evm_frame_trans)
    qed (use True e s in \<open>simp add: exec_loop.simps\<close>)
  qed (use 1(2) in \<open>simp add: exec_loop.simps\<close>)
qed

section \<open>Pushing constants\<close>

fun be_value :: "bytes \<Rightarrow> nat" where
  "be_value [] = 0"
| "be_value (b # bs) = unat b * 256 ^ length bs + be_value bs"

lemma push_step: "push_bit 8 v OR ucast b = (v :: u256) * 256 + ucast (b :: byte)"
proof -
  have "\<not> bit (push_bit 8 v) n \<or> \<not> bit (ucast b :: u256) n" for n
    by (auto simp: bit_simps dest: bit_imp_le_length)
  then have "push_bit 8 v OR ucast b = push_bit 8 v + ucast b"
    by (simp add: disjunctive_add_eq_or bit_eq_iff bit_simps)
  then show ?thesis by (simp add: push_bit_eq_mult mult.commute)
qed

lemma push_fold: "fold (\<lambda>b v. v * 256 + ucast b) bs (v :: u256)
    = v * 256 ^ length bs + of_nat (be_value bs)"
proof (induction bs arbitrary: v)
  case (Cons b bs)
  have "(ucast b :: u256) = of_nat (unat b)" by simp
  then show ?case
    by (simp only: fold_Cons comp_apply Cons.IH list.size be_value.simps) (simp add: algebra_simps)
qed simp

section \<open>Single steps\<close>

lemma exec_loop_end: "pc \<ge> length code \<Longrightarrow> exec_loop addr code pc st = (Inr (), st)"
  by (simp add: exec_loop.simps)

lemma exec_loop_next:
  "pc < length code \<Longrightarrow> exec_opcode addr code pc st = (Inr (Next pc'), st') \<Longrightarrow>
   exec_loop addr code pc st = exec_loop addr code pc' st'"
  by (subst exec_loop.simps) simp

lemma exec_metered:
  assumes "pc < length code" "metered_only (code ! pc) = Some g" "gas_used st + g \<le> gas_limit st"
  shows "exec_loop addr code pc st = exec_loop addr code (pc + 1) (st\<lparr>gas_used := gas_used st + g\<rparr>)"
proof (rule exec_loop_next [OF assms(1)])
  have "code ! pc \<notin> {0x00, 0x54, 0x55, 0x5f}" "\<not> (0x60 \<le> code ! pc \<and> code ! pc \<le> 0x7f)"
    using assms(2) by (auto simp: metered_only_def op_verylow_def op_low_def op_mid_def op_base_def
        op_warm_def op_zero_def word_le_nat_alt split: if_splits)
  with assms show "exec_opcode addr code pc st
      = (Inr (Next (pc + 1)), st\<lparr>gas_used := gas_used st + g\<rparr>)"
    unfolding exec_opcode_def Let_def by (auto simp: require_gas_def not_less)
qed

lemma exec_unknown:
  assumes "pc < length code" "code ! pc = 0x0c"
  shows "exec_loop addr code pc st = (Inl Unknown_opcode, st)"
  by (subst exec_loop.simps)
     (simp add: assms exec_opcode_def metered_only_def op_verylow_def op_low_def op_mid_def
      op_base_def op_warm_def op_zero_def word_le_nat_alt)

lemma exec_push1:
  assumes "pc + 1 < length code" "code ! pc = 0x60" "gas_used st + 3 \<le> gas_limit st"
    and "length (evm_stack_of st) < 1024"
  shows "exec_loop addr code pc st = exec_loop addr code (pc + 2)
    (st\<lparr>gas_used := gas_used st + 3, evm_stack_of := evm_stack_of st @ [ucast (code ! (pc + 1))]\<rparr>)"
proof (rule exec_loop_next)
  have "slice (pc + 1) 1 code = [code ! (pc + 1)]"
    using assms(1) by (simp add: slice_def take_Suc_conv_app_nth hd_drop_conv_nth)
  with assms show "exec_opcode addr code pc st = (Inr (Next (pc + 2)),
     st\<lparr>gas_used := gas_used st + 3, evm_stack_of := evm_stack_of st @ [ucast (code ! (pc + 1))]\<rparr>)"
    by (simp add: exec_opcode_def Let_def require_gas_def VERYLOW_def not_less push_stack_def
        Stack_push_def push_value_def)
qed (use assms in simp)

lemma exec_sstore:
  assumes "pc < length code" "code ! pc = 0x55" "gas_used st + 20000 \<le> gas_limit st"
    and "evm_stack_of st = items @ [k, v]"
  shows "exec_loop addr code pc st = exec_loop addr code (pc + 1)
    (st\<lparr>gas_used := gas_used st + 20000, evm_stack_of := items,
        evm_storage_of := Storage_store addr k v (evm_storage_of st)\<rparr>)"
  by (rule exec_loop_next [OF assms(1)])
     (use assms in \<open>simp add: exec_opcode_def Let_def require_gas_def SSTORE_SET_GAS_def not_less
        pop_stack_def Stack_pop_def butlast_append\<close>)

lemma exec_sload:
  assumes "pc < length code" "code ! pc = 0x54" "gas_used st + 100 \<le> gas_limit st"
    and "evm_stack_of st = items @ [k]" "length items < 1024"
  shows "exec_loop addr code pc st = exec_loop addr code (pc + 1)
    (st\<lparr>gas_used := gas_used st + 100,
        evm_stack_of := items @ [Storage_load addr k (evm_storage_of st)]\<rparr>)"
  by (rule exec_loop_next [OF assms(1)])
     (use assms in \<open>simp add: exec_opcode_def Let_def require_gas_def WARM_STORAGE_READ_COST_def
        not_less pop_stack_def push_stack_def Stack_pop_def Stack_push_def\<close>)

section \<open>Transfers\<close>






section \<open>Properties\<close>

text \<open>C6: Every contract run terminates with a result and is contained: it never uses more gas than
  its limit, never makes the stack deeper than 1024, changes no balance, no code and no
  memory, and writes only to the storage of the contract it runs for.\<close>

theorem execute_contract_contained:
  assumes "execute_contract addr code input limit st = (res, st')"
    and "length (evm_stack_of st) \<le> 1024"
  shows "res_gas_used res \<le> limit \<and> length (evm_stack_of st') \<le> 1024
    \<and> balances st' = balances st \<and> evm_code st' = evm_code st \<and> evm_memory_of st' = evm_memory_of st
    \<and> (\<forall>a k. a \<noteq> addr \<longrightarrow> Storage_load a k (evm_storage_of st') = Storage_load a k (evm_storage_of st))"
proof -
  let ?s = "st\<lparr>gas_used := 0, gas_limit := limit\<rparr>"
  have "evm_bounded ?s" using assms(2) by (simp add: evm_bounded_def)
  note k = exec_loop_keeps [OF this, of addr code 0]
  obtain r s where e: "exec_loop addr code 0 ?s = (r, s)" by fastforce
  with assms(1) have "st' = s" "res_gas_used res = gas_used s"
    by (auto simp: execute_contract_def split: sum.splits)
  with k e show ?thesis by (auto simp: evm_frame_def evm_bounded_def)
qed

theorem execute_contract_contained_witness:
  "res_gas_used (fst (execute_contract (Address []) [0x5b, 0x01, 0x20] [] 10 EVMExecutor_init)) \<le> 10"
  using execute_contract_contained [OF prod.collapse [symmetric], of EVMExecutor_init]
  by (simp add: EVMExecutor_init_def)

text \<open>Storage works through the opcodes: pushing a key and a value, storing, pushing the key and
  loading ends successfully with the value on the stack and in the contract's storage, using
  exactly 20109 gas, whenever the limit allows that much and the stack has room for two.\<close>

theorem sstore_sload_program:
  assumes "20109 \<le> unat limit" "length (evm_stack_of st) \<le> 1022"
  shows "\<exists>st'. execute_contract addr [0x60, k, 0x60, v, 0x55, 0x60, k, 0x54] input limit st
      = (\<lparr>res_success = True, res_return_data = [], res_gas_used = 20109, res_error_message = []\<rparr>, st')
    \<and> evm_stack_of st' = evm_stack_of st @ [ucast v]
    \<and> Storage_load addr (ucast k) (evm_storage_of st') = ucast v"
proof -
  let ?code = "[0x60, k, 0x60, v, 0x55, 0x60, k, 0x54]"
  have g: "3 \<le> limit" "6 \<le> limit" "20006 \<le> limit" "20009 \<le> limit" "20109 \<le> limit"
    using assms(1) by (simp_all add: word_le_nat_alt)
  show ?thesis
    using assms(2) g
    by (simp add: execute_contract_def exec_push1 exec_sstore exec_sload exec_loop_end
        Storage_load_store)
qed

theorem sstore_sload_program_witness:
  "res_gas_used (fst (execute_contract (Address []) [0x60, 1, 0x60, 9, 0x55, 0x60, 1, 0x54] [] 30000 EVMExecutor_init))
   = 20109"
  using sstore_sload_program [of 30000 EVMExecutor_init "Address []" 1 9 "[]"]
  by (auto simp: EVMExecutor_init_def)

text \<open>PUSH decodes its immediate operand in big-endian order: the bytes that follow the opcode
  are read as one number, most significant byte first, modulo 2^256.\<close>

theorem push_value_big_endian: "push_value bs = of_nat (be_value bs)"
  unfolding push_value_def push_step using push_fold [of bs 0] by simp

text \<open>RETURN and REVERT do not end execution: at either opcode the machine goes on to the next
  instruction in the same state, charging nothing.\<close>

theorem return_revert_continue:
  assumes "pc < length code" "code ! pc = 0xf3 \<or> code ! pc = 0xfd" "gas_used st \<le> gas_limit st"
  shows "exec_loop addr code pc st = exec_loop addr code (pc + 1) st"
proof -
  have "metered_only (code ! pc) = Some 0"
    using assms(2) by (auto simp: metered_only_def op_verylow_def op_low_def op_mid_def op_base_def
        op_warm_def op_zero_def ZERO_def)
  from exec_metered [OF assms(1) this, of st addr] assms(3) show ?thesis by simp
qed

theorem return_revert_continue_witness:
  "exec_loop (Address []) [0xfd, 0xf3] 0 EVMExecutor_init = (Inr (), EVMExecutor_init)"
  using return_revert_continue [of 0 "[0xfd, 0xf3]" EVMExecutor_init "Address []"]
    return_revert_continue [of 1 "[0xfd, 0xf3]" EVMExecutor_init "Address []"]
  by (simp add: EVMExecutor_init_def exec_loop_end)

text \<open>A failed run is not rolled back: when a program stores a value and then meets an unknown
  opcode, the result is a failure and the store remains.\<close>

theorem failure_keeps_storage:
  assumes "20006 \<le> unat limit" "length (evm_stack_of st) \<le> 1022"
  shows "\<exists>st'. execute_contract addr [0x60, k, 0x60, v, 0x55, 0x0c] input limit st
      = (\<lparr>res_success = False, res_return_data = [], res_gas_used = 20006,
          res_error_message = what Unknown_opcode\<rparr>, st')
    \<and> Storage_load addr (ucast k) (evm_storage_of st') = ucast v"
proof -
  have g: "3 \<le> limit" "6 \<le> limit" "20006 \<le> limit"
    using assms(1) by (simp_all add: word_le_nat_alt)
  show ?thesis
    using assms(2) g
    by (simp add: execute_contract_def exec_push1 exec_sstore exec_unknown Storage_load_store)
qed

theorem failure_keeps_storage_witness:
  "res_success (fst (execute_contract (Address []) [0x60, 1, 0x60, 9, 0x55, 0x0c] [] 30000 EVMExecutor_init)) = False"
  using failure_keeps_storage [of 30000 EVMExecutor_init "Address []" 1 9 "[]"]
  by (auto simp: EVMExecutor_init_def)




end
