(* ===== verification/CStrings.thy ===== *)
theory CStrings
  imports QPrelude
begin

text \<open>
  The parts of the C++ string library that the parsers use: character classes of
  the C locale, \<^verbatim>\<open>find\<close>, \<^verbatim>\<open>substr\<close>, \<^verbatim>\<open>getline\<close> and \<^verbatim>\<open>stoull\<close>/\<^verbatim>\<open>stoul\<close> (the same
  function on LP64), which skips blanks, accepts a sign and stops at the first
  character that is not a digit.
\<close>

definition isspace :: "char \<Rightarrow> bool" where
  "isspace c = ((of_char c :: nat) = 32 \<or> (9 \<le> (of_char c :: nat) \<and> (of_char c :: nat) \<le> 13))"

definition isalpha_c :: "char \<Rightarrow> bool" where
  "isalpha_c c = ((65 \<le> (of_char c :: nat) \<and> (of_char c :: nat) \<le> 90)
     \<or> (97 \<le> (of_char c :: nat) \<and> (of_char c :: nat) \<le> 122))"

definition isalnum :: "char \<Rightarrow> bool" where
  "isalnum c = (isalpha_c c \<or> is_digit_char c)"

text \<open>\<^verbatim>\<open>find\<close> with \<^verbatim>\<open>npos\<close> as \<open>None\<close>.\<close>

fun find_char :: "char \<Rightarrow> string \<Rightarrow> nat option" where
  "find_char c [] = None"
| "find_char c (d # ds) = (if c = d then Some 0 else map_option Suc (find_char c ds))"

text \<open>\<^verbatim>\<open>s.substr(pos, n)\<close> for \<^verbatim>\<open>pos <= s.size()\<close>; \<open>None\<close> stands for a count of at least \<^verbatim>\<open>s.size()\<close>.\<close>

definition substr :: "nat \<Rightarrow> nat option \<Rightarrow> string \<Rightarrow> string" where
  "substr pos n s = (case n of None \<Rightarrow> drop pos s | Some k \<Rightarrow> slice pos k s)"

text \<open>\<^verbatim>\<open>getline\<close>: the text before the delimiter and what remains of the stream after it.\<close>

definition getline :: "char \<Rightarrow> string \<Rightarrow> string \<times> string" where
  "getline delim s = (takeWhile (\<lambda>c. c \<noteq> delim) s, drop 1 (dropWhile (\<lambda>c. c \<noteq> delim) s))"

datatype num_error = Invalid_argument | Number_out_of_range

definition stoull :: "string \<Rightarrow> num_error + u64" where
  "stoull s =
     (let s1 = dropWhile isspace s;
          neg = (s1 \<noteq> [] \<and> hd s1 = CHR ''-'');
          s2 = (if s1 \<noteq> [] \<and> (hd s1 = CHR ''-'' \<or> hd s1 = CHR ''+'') then tl s1 else s1);
          ds = takeWhile is_digit_char s2;
          v = parse_digits 0 ds
      in if ds = [] then Inl Invalid_argument
         else if v \<ge> 2 ^ 64 then Inl Number_out_of_range
         else Inr (if neg then - of_nat v else of_nat v))"

section \<open>Lemmas\<close>

lemma find_char_Some:
  "find_char c s = Some i \<Longrightarrow> i < length s \<and> s ! i = c \<and> c \<notin> set (take i s)"
proof (induction s arbitrary: i)
  case (Cons d ds)
  then show ?case by (cases i) (auto split: if_splits)
qed simp

lemma find_char_None: "find_char c s = None \<longleftrightarrow> c \<notin> set s"
  by (induction s) auto

lemma isspace_not_digit: "is_digit_char c \<Longrightarrow> \<not> isspace c"
  by (auto simp: is_digit_char_def isspace_def)

lemma digit_not_sign: "is_digit_char c \<Longrightarrow> c \<noteq> CHR ''-'' \<and> c \<noteq> CHR ''+'' \<and> c \<noteq> CHR ''.''"
  by (auto simp: is_digit_char_def)

lemma takeWhile_all: "list_all P xs \<Longrightarrow> takeWhile P xs = xs"
  by (simp add: list_all_iff)

lemma stoull_digits:
  assumes "list_all is_digit_char ds" "ds \<noteq> []" "parse_digits 0 ds < 2 ^ 64"
  shows "stoull ds = Inr (of_nat (parse_digits 0 ds))"
proof -
  obtain c cs where ds: "ds = c # cs" using assms(2) by (cases ds) auto
  have c: "is_digit_char c" using assms(1) ds by simp
  have "dropWhile isspace ds = ds" using c isspace_not_digit by (simp add: ds)
  moreover have "hd ds \<noteq> CHR ''-'' \<and> hd ds \<noteq> CHR ''+''" using digit_not_sign [OF c] ds by simp
  ultimately show ?thesis
    using assms by (simp add: stoull_def Let_def takeWhile_all)
qed

lemma parse_digits_bound:
  "list_all is_digit_char ds \<Longrightarrow> parse_digits a ds < (a + 1) * 10 ^ length ds"
proof (induction ds arbitrary: a)
  case (Cons c cs)
  have "digit_value c < 10" using Cons.prems by (auto simp: is_digit_char_def digit_value_def)
  then have le: "10 * a + digit_value c + 1 \<le> (a + 1) * 10" by simp
  have "parse_digits a (c # cs) < (10 * a + digit_value c + 1) * 10 ^ length cs"
    using Cons.IH [of "10 * a + digit_value c"] Cons.prems by simp
  also have "\<dots> \<le> ((a + 1) * 10) * 10 ^ length cs" by (rule mult_le_mono1 [OF le])
  finally show ?case by (simp add: algebra_simps)
qed simp

lemma digits_zeros [simp]: "list_all is_digit_char (replicate k CHR ''0'')"
  by (simp add: list_all_iff is_digit_char_def)

lemma parse_digits_zeros: "parse_digits 0 (replicate k CHR ''0'' @ s) = parse_digits 0 s"
  by (induction k) (simp_all add: digit_value_def)

lemma length_dec_string: "n < 10 ^ k \<Longrightarrow> 0 < k \<Longrightarrow> length (dec_string n) \<le> k"
proof (induction n arbitrary: k rule: dec_string.induct)
  case (1 n)
  show ?case
  proof (cases "n < 10")
    case True
    then show ?thesis using 1(3) by (subst dec_string.simps) simp
  next
    case False
    then have "1 < k" using 1(2,3) by (cases k; cases "k - 1") auto
    moreover have "n div 10 < 10 ^ (k - 1)"
      using 1(2,3) by (cases k) (simp_all add: less_mult_imp_div_less mult.commute)
    ultimately have "length (dec_string (n div 10)) \<le> k - 1"
      using 1(1) [OF False] by simp
    then show ?thesis using False \<open>1 < k\<close> by (subst dec_string.simps) simp
  qed
qed

lemma strip_decompose:
  "\<exists>d k. s = d @ replicate k c \<and> (d = [] \<or> last d \<noteq> c)"
proof (induction s rule: rev_induct)
  case (snoc x s)
  then obtain d k where s: "s = d @ replicate k c" "d = [] \<or> last d \<noteq> c" by blast
  show ?case
  proof (cases "x = c")
    case True
    then have "s @ [x] = d @ replicate (Suc k) c"
      using s(1) by (simp add: replicate_append_same)
    with s(2) show ?thesis by blast
  next
    case False
    then have "s @ [x] = (s @ [x]) @ replicate 0 c \<and> ((s @ [x]) = [] \<or> last (s @ [x]) \<noteq> c)" by simp
    then show ?thesis by blast
  qed
qed simp

end
