(* ===== verification/Decimal.thy ===== *)
theory Decimal
  imports CStrings
begin

text \<open>
  The fixed-point numbers of the contract engine, \<^verbatim>\<open>evm::Decimal\<close>
  (\<^verbatim>\<open>src/src/evm/FloatingPoint.cpp\<close>): a 256-bit count of units of 10^-18, reduced
  modulo 10^36 by every constructor.
\<close>

datatype decimal_error = Addition_overflow | Subtraction_underflow | Multiplication_overflow
  | Division_by_zero | Bad_number num_error

datatype rounding_mode = ROUND_DOWN | ROUND_UP | ROUND_HALF_UP

definition DECIMALS :: nat where "DECIMALS = 18"

fun mul10 :: "nat \<Rightarrow> u256 \<Rightarrow> u256" where
  "mul10 0 r = r"
| "mul10 (Suc n) r = mul10 n (r * 10)"

definition pow10 :: "nat \<Rightarrow> u256" where
  "pow10 e =
     (let powers = [1, 10, 100, 1000, 10000, 100000, 1000000, 10000000, 100000000, 1000000000]
      in if e < length powers then powers ! e else mul10 e 1)"

definition normalize :: "u256 \<Rightarrow> u256" where
  "normalize v = v mod pow10 (DECIMALS * 2)"

definition Decimal_of_value :: "u256 \<Rightarrow> u256" where
  "Decimal_of_value v = normalize v"

definition Decimal_of_string :: "string \<Rightarrow> decimal_error + u256" where
  "Decimal_of_string s =
     (let (integer_part, rest) = getline CHR ''.'' s;
          decimal_part = fst (getline (char_of (10 :: nat)) rest)
      in case stoull integer_part of Inl e \<Rightarrow> Inl (Bad_number e) | Inr n \<Rightarrow>
         let v = ucast n * pow10 DECIMALS
         in if decimal_part = [] then Inr (normalize v)
            else
              let dp = (if length decimal_part > DECIMALS then take DECIMALS decimal_part
                        else decimal_part @ replicate (DECIMALS - length decimal_part) CHR ''0'')
              in case stoull dp of Inl e \<Rightarrow> Inl (Bad_number e) | Inr d \<Rightarrow> Inr (normalize (v + ucast d)))"

definition Decimal_add :: "u256 \<Rightarrow> u256 \<Rightarrow> decimal_error + u256" where
  "Decimal_add a b =
     (if a > - 1 - b then Inl Addition_overflow else Inr (Decimal_of_value (a + b)))"

definition Decimal_subtract :: "u256 \<Rightarrow> u256 \<Rightarrow> decimal_error + u256" where
  "Decimal_subtract a b =
     (if a < b then Inl Subtraction_underflow else Inr (Decimal_of_value (a - b)))"

definition Decimal_multiply :: "u256 \<Rightarrow> u256 \<Rightarrow> decimal_error + u256" where
  "Decimal_multiply a b =
     (if a \<noteq> 0 \<and> b > - 1 div a then Inl Multiplication_overflow
      else Inr (Decimal_of_value (a * b div pow10 DECIMALS)))"

definition Decimal_divide :: "u256 \<Rightarrow> u256 \<Rightarrow> decimal_error + u256" where
  "Decimal_divide a b =
     (if b = 0 then Inl Division_by_zero
      else let scaled = a * pow10 DECIMALS in Inr (Decimal_of_value (scaled div b)))"

definition pad_zeros :: "nat \<Rightarrow> string \<Rightarrow> string" where
  "pad_zeros w s = replicate (w - length s) CHR ''0'' @ s"

definition strip_trailing :: "string \<Rightarrow> string" where
  "strip_trailing s =
     (let t = (if CHR ''.'' \<in> set s then rev (dropWhile (\<lambda>c. c = CHR ''0'') (rev s)) else s)
      in if t \<noteq> [] \<and> last t = CHR ''.'' then butlast t else t)"

definition Decimal_toString :: "u256 \<Rightarrow> string" where
  "Decimal_toString v =
     (let integer_part = v div pow10 DECIMALS; decimal_part = v mod pow10 DECIMALS
      in strip_trailing (dec_string (unat integer_part) @ ''.''
           @ pad_zeros DECIMALS (dec_string (unat decimal_part))))"

definition Decimal_toInteger :: "u256 \<Rightarrow> u256" where
  "Decimal_toInteger v = v div pow10 DECIMALS"

definition Decimal_round :: "nat \<Rightarrow> rounding_mode \<Rightarrow> u256 \<Rightarrow> u256" where
  "Decimal_round places mode v =
     (if places \<ge> DECIMALS then v
      else
        let scale = pow10 (DECIMALS - places); scaled = v div scale
        in case mode of
             ROUND_DOWN \<Rightarrow> Decimal_of_value (scaled * scale)
           | ROUND_UP \<Rightarrow> Decimal_of_value ((if v mod scale \<noteq> 0 then scaled + 1 else scaled) * scale)
           | ROUND_HALF_UP \<Rightarrow>
               Decimal_of_value ((if v mod scale \<ge> scale div 2 then scaled + 1 else scaled) * scale))"

section \<open>Powers of ten\<close>

lemma mul10_value: "mul10 n r = r * 10 ^ n"
  by (induction n arbitrary: r) (simp_all add: algebra_simps)

lemma pow10_value: "pow10 e = 10 ^ e"
proof (cases "e < 10")
  case True
  then have "e \<in> set [0, 1, 2, 3, 4, 5, 6, 7, 8, 9]" by auto
  then show ?thesis by (auto simp: pow10_def)
qed (simp add: pow10_def mul10_value)

lemma unat_pow10:
  assumes "e \<le> 76"
  shows "unat (10 ^ e :: u256) = 10 ^ e"
proof -
  have "(10 :: nat) ^ e \<le> 10 ^ 76" using assms by (intro power_increasing) simp_all
  then have "(10 :: nat) ^ e < 2 ^ 256" by (rule le_less_trans) simp
  moreover have "(10 ^ e :: u256) = of_nat (10 ^ e)" by simp
  ultimately show ?thesis by (simp only: unat_of_nat) simp
qed

lemma unat_normalize: "unat (normalize v) = unat v mod 10 ^ 36"
  using unat_pow10 [of 36] by (simp add: normalize_def pow10_value DECIMALS_def unat_mod)

text \<open>Every constructor establishes this bound.\<close>

definition normalised :: "u256 \<Rightarrow> bool" where
  "normalised v \<longleftrightarrow> unat v < 10 ^ 36"

lemma normalised_Decimal_of_value: "normalised (Decimal_of_value v)"
  by (simp add: normalised_def Decimal_of_value_def unat_normalize)

lemma normalize_normalised: "normalised v \<Longrightarrow> normalize v = v"
  by (metis mod_less normalised_def unat_normalize word_unat_eq_iff)

section \<open>Text\<close>

lemma digits_no_dot: "list_all is_digit_char s \<Longrightarrow> CHR ''.'' \<notin> set s \<and> char_of (10 :: nat) \<notin> set s"
  by (auto simp: list_all_iff is_digit_char_def)

lemma getline_split: "c \<notin> set a \<Longrightarrow> getline c (a @ c # b) = (a, b)"
  by (simp add: getline_def takeWhile_append dropWhile_append takeWhile_eq_all_conv)

lemma getline_none: "c \<notin> set a \<Longrightarrow> getline c a = (a, [])"
proof -
  assume "c \<notin> set a"
  then have "takeWhile (\<lambda>x. x \<noteq> c) a = a" "dropWhile (\<lambda>x. x \<noteq> c) a = []"
    by (auto simp: takeWhile_eq_all_conv dropWhile_eq_Nil_conv)
  then show ?thesis unfolding getline_def by (simp only: drop_Nil)
qed

lemma pad_zeros_props:
  assumes "n < 10 ^ w" "0 < w"
  shows "length (pad_zeros w (dec_string n)) = w" "list_all is_digit_char (pad_zeros w (dec_string n))"
    "parse_digits 0 (pad_zeros w (dec_string n)) = n"
  using length_dec_string [OF assms] dec_string_digits [of n]
  by (simp_all add: pad_zeros_def parse_digits_zeros parse_dec_string)

lemma strip_trailing_decimal:
  assumes "list_all is_digit_char d" "d = [] \<or> last d \<noteq> CHR ''0''"
  shows "strip_trailing (q @ ''.'' @ d @ replicate k CHR ''0'') = (if d = [] then q else q @ ''.'' @ d)"
proof -
  have "dropWhile (\<lambda>c. c = CHR ''0'') (rev (q @ ''.'' @ d @ replicate k CHR ''0''))
      = rev (q @ ''.'' @ d)"
  proof (cases "d = []")
    case False
    then obtain d' x where "d = d' @ [x]" by (meson rev_exhaust)
    with assms(2) show ?thesis by (simp add: dropWhile_append)
  qed (simp add: dropWhile_append)
  moreover have "d \<noteq> [] \<Longrightarrow> last d \<noteq> CHR ''.''"
    using assms(1) digits_no_dot last_in_set by metis
  ultimately show ?thesis by (simp add: strip_trailing_def Let_def)
qed

lemma parse_printed:
  assumes "q < 10 ^ 18" "list_all is_digit_char d" "length d \<le> 18"
  shows "Decimal_of_string (if d = [] then dec_string q else dec_string q @ ''.'' @ d)
    = Inr (normalize (of_nat q * 10 ^ 18
        + of_nat (parse_digits 0 (d @ replicate (18 - length d) CHR ''0''))))"
proof -
  let ?p = "d @ replicate (18 - length d) CHR ''0''"
  have q: "stoull (dec_string q) = Inr (of_nat q)"
    using assms(1) stoull_digits [OF dec_string_digits, of q] by (simp add: parse_dec_string)
  have pd: "list_all is_digit_char ?p" using assms(2) by simp
  have "parse_digits 0 ?p < 10 ^ 18" using parse_digits_bound [OF pd, of 0] assms(3) by simp
  then have p: "stoull ?p = Inr (of_nat (parse_digits 0 ?p))" if "d \<noteq> []"
    using stoull_digits [OF pd] that by simp
  have uq: "ucast (of_nat q :: u64) = (of_nat q :: u256)"
    using assms(1) by (simp add: unsigned_of_nat take_bit_nat_eq_self)
  have up: "ucast (of_nat (parse_digits 0 ?p) :: u64) = (of_nat (parse_digits 0 ?p) :: u256)"
    using \<open>parse_digits 0 ?p < 10 ^ 18\<close> by (simp add: unsigned_of_nat take_bit_nat_eq_self)
  show ?thesis
  proof (cases "d = []")
    case True
    have "getline CHR ''.'' (dec_string q) = (dec_string q, [])"
      using digits_no_dot [OF dec_string_digits, of q] by (simp add: getline_none)
    moreover have "fst (getline (char_of (10 :: nat)) []) = []" by (simp add: getline_def)
    moreover have "parse_digits 0 ?p = 0" using True parse_digits_zeros [of 18 "[]"] by simp
    ultimately show ?thesis
      using True unfolding Decimal_of_string_def
      by (simp only: q uq Let_def prod.case sum.case simp_thms if_True pow10_value DECIMALS_def) simp
  next
    case False
    have "getline CHR ''.'' (dec_string q @ ''.'' @ d) = (dec_string q, d)"
      using digits_no_dot [OF dec_string_digits, of q] by (simp add: getline_split)
    moreover have "fst (getline (char_of (10 :: nat)) d) = d"
      using digits_no_dot [OF assms(2)] by (simp add: getline_none)
    moreover have "(if 18 < length d then take 18 d else ?p) = ?p" using assms(3) by simp
    ultimately show ?thesis
      using False unfolding Decimal_of_string_def
      by (simp only: q uq p [OF False] up Let_def prod.case sum.case simp_thms if_False pow10_value DECIMALS_def)
  qed
qed

lemma Decimal_roundtrip:
  assumes "normalised v"
  shows "Decimal_of_string (Decimal_toString v) = Inr v"
proof -
  define q where "q = unat v div 10 ^ 18"
  define r where "r = unat v mod 10 ^ 18"
  have "unat v < 10 ^ 18 * 10 ^ 18" using assms by (simp add: normalised_def)
  then have q: "q < 10 ^ 18" unfolding q_def by (rule less_mult_imp_div_less)
  have r: "r < 10 ^ 18" by (simp add: r_def)
  have parts: "unat (v div 10 ^ 18) = q" "unat (v mod 10 ^ 18) = r"
    using unat_pow10 [of 18] by (simp_all add: unat_div unat_mod q_def r_def)
  note pad = pad_zeros_props [OF r zero_less_numeral]
  obtain d k where dk: "pad_zeros 18 (dec_string r) = d @ replicate k CHR ''0''" "d = [] \<or> last d \<noteq> CHR ''0''"
    using strip_decompose [of "pad_zeros 18 (dec_string r)" "CHR ''0''"] by blast
  have d: "list_all is_digit_char d" "length d \<le> 18" "k = 18 - length d"
    using pad(1,2) [unfolded dk(1)] by simp_all
  have "Decimal_toString v = (if d = [] then dec_string q else dec_string q @ ''.'' @ d)"
    unfolding strip_trailing_decimal [OF d(1) dk(2), of "dec_string q" k, symmetric]
    by (simp only: Decimal_toString_def Let_def pow10_value DECIMALS_def parts dk(1))
  moreover have "parse_digits 0 (d @ replicate (18 - length d) CHR ''0'') = r"
    using pad(3) by (simp only: dk(1) d(3))
  ultimately have "Decimal_of_string (Decimal_toString v) = Inr (normalize (of_nat q * 10 ^ 18 + of_nat r))"
    using parse_printed [OF q d(1,2)] by (simp only:)
  moreover have "of_nat q * 10 ^ 18 + of_nat r = v"
  proof -
    have "of_nat q * 10 ^ 18 + of_nat r = (of_nat (q * 10 ^ 18 + r) :: u256)"
      by (simp only: of_nat_add of_nat_mult of_nat_power of_nat_numeral)
    also have "q * 10 ^ 18 + r = unat v" unfolding q_def r_def by (rule div_mult_mod_eq)
    finally show ?thesis by simp
  qed
  ultimately show ?thesis using normalize_normalised [OF assms] by (simp only:)
qed

section \<open>Arithmetic\<close>

lemma unat_mult_small:
  fixes a b :: u256
  shows "unat a * unat b < 2 ^ 256 \<Longrightarrow> unat (a * b) = unat a * unat b"
  by (simp add: unat_word_ariths)

lemma normalised_product:
  assumes "normalised a" "normalised b"
  shows "unat a * unat b < 2 ^ 256"
proof -
  have "unat a * unat b \<le> 10 ^ 36 * 10 ^ 36"
    using assms by (intro mult_le_mono) (simp_all add: normalised_def)
  then show ?thesis by (rule le_less_trans) simp
qed

lemma unat_max_word: "unat (- 1 :: u256) = 2 ^ 256 - 1"
  by (simp add: unsigned_minus_1_eq_mask mask_eq_exp_minus_1)

lemma unat_max_minus: "unat (- 1 - b :: u256) = 2 ^ 256 - 1 - unat b"
  by (simp only: unat_sub [OF word_n1_ge] unat_max_word)

lemma div_round_up:
  fixes x u :: nat
  assumes "0 < u"
  shows "(x + (u - 1)) div u = (if x mod u \<noteq> 0 then x div u + 1 else x div u)"
proof -
  have "x = u * (x div u) + x mod u" by simp
  then have "(x + (u - 1)) div u = x div u + (x mod u + (u - 1)) div u"
    using assms by (metis add.assoc div_mult_self4 nat_neq_iff not_less_zero)
  moreover have "x mod u < u" using assms by simp
  moreover have "(x mod u + (u - 1)) div u = (if x mod u \<noteq> 0 then 1 else 0)"
    using assms \<open>x mod u < u\<close> by (auto intro!: div_nat_eqI)
  ultimately show ?thesis by simp
qed

lemma div_round_half:
  fixes x u :: nat
  assumes "0 < u" "2 * (u div 2) = u"
  shows "(x + u div 2) div u = (if u div 2 \<le> x mod u then x div u + 1 else x div u)"
proof -
  have "x = u * (x div u) + x mod u" by simp
  then have "(x + u div 2) div u = x div u + (x mod u + u div 2) div u"
    using assms(1) by (metis add.assoc div_mult_self4 nat_neq_iff not_less_zero)
  moreover have "x mod u < u" using assms by simp
  moreover have "(x mod u + u div 2) div u = (if u div 2 \<le> x mod u then 1 else 0)"
    using assms \<open>x mod u < u\<close> by (auto intro!: div_nat_eqI)
  ultimately show ?thesis by simp
qed

section \<open>Properties\<close>

text \<open>Text round trip: the string that toString prints for any value a Decimal can hold is read
  back by the string constructor as exactly that value.\<close>

theorem decimal_roundtrip:
  assumes "normalised v"
  shows "Decimal_of_string (Decimal_toString v) = Inr v"
  using assms by (rule Decimal_roundtrip)

theorem decimal_roundtrip_witness: "Decimal_of_string (Decimal_toString 1050) = Inr 1050"
  by (rule decimal_roundtrip) (simp add: normalised_def)

text \<open>On the values a Decimal can hold, addition, multiplication and division compute the
  exact result (rounded down) modulo 10^36 and never report overflow: a result of 10^18 or
  more loses its high digits silently, because normalize reduces before any check applies.\<close>

theorem decimal_arithmetic:
  assumes "normalised a" "normalised b"
  shows "\<exists>s p. Decimal_add a b = Inr s \<and> unat s = (unat a + unat b) mod 10 ^ 36
    \<and> Decimal_multiply a b = Inr p \<and> unat p = (unat a * unat b div 10 ^ 18) mod 10 ^ 36
    \<and> (b = 0 \<longrightarrow> Decimal_divide a b = Inl Division_by_zero)
    \<and> (b \<noteq> 0 \<longrightarrow> (\<exists>d. Decimal_divide a b = Inr d
         \<and> unat d = (unat a * 10 ^ 18 div unat b) mod 10 ^ 36))"
proof -
  have A: "unat a < 10 ^ 36" and B: "unat b < 10 ^ 36" using assms by (simp_all add: normalised_def)
  have small: "(10 :: nat) ^ 36 + 10 ^ 36 < 2 ^ 256" by simp
  have sum: "unat (a + b) = unat a + unat b"
    using A B small by (simp add: unat_word_ariths)
  have "\<not> - 1 - b < a"
    using A B small by (simp add: word_less_nat_alt unat_max_minus)
  then have add: "Decimal_add a b = Inr (normalize (a + b))"
    by (simp add: Decimal_add_def Decimal_of_value_def)
  have ab: "unat a * unat b < 2 ^ 256" using normalised_product [OF assms] .
  have prod: "unat (a * b) = unat a * unat b" by (rule unat_mult_small [OF ab])
  have "\<not> (a \<noteq> 0 \<and> - 1 div a < b)"
  proof
    assume h: "a \<noteq> 0 \<and> - 1 div a < b"
    then have "(2 ^ 256 - 1) div unat a < unat b"
      by (simp add: word_less_nat_alt unat_div unat_max_word)
    moreover have "0 < unat a" using h by (simp add: unat_gt_0)
    ultimately have "2 ^ 256 - 1 < unat b * unat a" using div_less_iff_less_mult by blast
    with ab show False by (simp add: mult.commute)
  qed
  then have mul: "Decimal_multiply a b = Inr (normalize (a * b div 10 ^ 18))"
    by (simp add: Decimal_multiply_def Decimal_of_value_def pow10_value DECIMALS_def)
  have t18: "unat (10 ^ 18 :: u256) = 10 ^ 18" by (rule unat_pow10) simp
  have "unat a * 10 ^ 18 < 2 ^ 256"
    using A by (intro le_less_trans [of "unat a * 10 ^ 18" "10 ^ 36 * 10 ^ 18"]) simp_all
  then have sc: "unat (a * 10 ^ 18) = unat a * 10 ^ 18"
    using unat_mult_small [of a "10 ^ 18"] t18 by simp
  have divd: "b \<noteq> 0 \<Longrightarrow> Decimal_divide a b = Inr (normalize (a * 10 ^ 18 div b))"
    by (simp add: Decimal_divide_def Decimal_of_value_def pow10_value DECIMALS_def)
  show ?thesis
  proof (intro exI conjI impI)
    show "Decimal_add a b = Inr (normalize (a + b))" by (rule add)
    show "unat (normalize (a + b)) = (unat a + unat b) mod 10 ^ 36" by (simp only: unat_normalize sum)
    show "Decimal_multiply a b = Inr (normalize (a * b div 10 ^ 18))" by (rule mul)
    show "unat (normalize (a * b div 10 ^ 18)) = (unat a * unat b div 10 ^ 18) mod 10 ^ 36"
      by (simp only: unat_normalize unat_div prod t18)
    show "b \<noteq> 0 \<Longrightarrow> Decimal_divide a b = Inr (normalize (a * 10 ^ 18 div b))" by (rule divd)
    show "unat (normalize (a * 10 ^ 18 div b)) = (unat a * 10 ^ 18 div unat b) mod 10 ^ 36"
      by (simp only: unat_normalize unat_div sc)
  qed (simp add: Decimal_divide_def)
qed

theorem decimal_arithmetic_witness:
  "\<exists>s. Decimal_add (10 ^ 36 - 1) 2 = Inr s \<and> unat s = 1"
  using decimal_arithmetic [of "10 ^ 36 - 1" 2] by (auto simp: normalised_def)

text \<open>Half-up rounding is to the nearest: rounding a value below 10^36 - 10^18 to n < 18 places
  gives a multiple of the unit in the last place that differs from the value by at most half
  that unit, and rounding down and up bracket the value within one unit.\<close>

theorem decimal_rounding:
  assumes "unat v < 10 ^ 36 - 10 ^ 18" "n < 18"
  defines "u \<equiv> 10 ^ (18 - n)"
  shows "unat (Decimal_round n ROUND_DOWN v) = unat v div u * u
    \<and> unat (Decimal_round n ROUND_UP v) = (unat v + (u - 1)) div u * u
    \<and> unat (Decimal_round n ROUND_HALF_UP v) = (unat v + u div 2) div u * u"
proof -
  let ?s = "10 ^ (18 - n) :: u256"
  have us: "unat ?s = u" using assms(2) unat_pow10 [of "18 - n"] by (simp add: u_def)
  have u_le: "u \<le> 10 ^ 18" unfolding u_def by (intro power_increasing) simp_all
  have u_pos: "0 < u" by (simp add: u_def)
  have even: "2 * (u div 2) = u" using assms(2) by (simp add: u_def)
  have val: "unat (Decimal_of_value (w * ?s)) = unat w * u"
    if "unat w \<le> unat v div u + 1" for w
  proof -
    have "unat w * u \<le> (unat v div u + 1) * u" using that by (rule mult_le_mono1)
    also have "\<dots> \<le> unat v + u" using div_times_less_eq_dividend [of "unat v" u] by simp
    finally have lt: "unat w * u < 10 ^ 36" using assms(1) u_le by simp
    then have "unat w * unat ?s < 2 ^ 256" unfolding us by (rule less_trans) simp
    from unat_mult_small [OF this] lt show ?thesis
      by (simp add: Decimal_of_value_def unat_normalize us)
  qed
  have dv: "unat (v div ?s) = unat v div u" "unat (v mod ?s) = unat v mod u" "unat (?s div 2) = u div 2"
    by (simp_all add: unat_div unat_mod us)
  have "unat v div u < 10 ^ 36" by (rule le_less_trans [OF div_le_dividend]) (use assms(1) in simp)
  then have inc: "unat (v div ?s + 1) = unat v div u + 1"
    using unat_add_lem [of "v div ?s" 1] by (simp add: dv(1))
  have nz: "v mod ?s \<noteq> 0 \<longleftrightarrow> unat v mod u \<noteq> 0"
    using dv(2) by (metis unsigned_0 unsigned_eq_0_iff)
  have half: "?s div 2 \<le> v mod ?s \<longleftrightarrow> u div 2 \<le> unat v mod u"
    by (simp add: word_le_nat_alt dv)
  have up: "(unat v + (u - 1)) div u = (if unat v mod u \<noteq> 0 then unat v div u + 1 else unat v div u)"
    using u_pos by (rule div_round_up)
  have hf: "(unat v + u div 2) div u = (if u div 2 \<le> unat v mod u then unat v div u + 1 else unat v div u)"
    using u_pos even by (rule div_round_half)
  show ?thesis
    unfolding up hf using assms(2) val [of "v div ?s"] val [of "v div ?s + 1"] dv inc nz half
    by (simp add: Decimal_round_def Let_def DECIMALS_def pow10_value)
qed

theorem decimal_rounding_witness:
  "unat (Decimal_round 17 ROUND_HALF_UP 1234565) = 1234570"
  using decimal_rounding [of 1234565 17] by simp

end
