(* ===== verification/Solidity_Lexer.thy ===== *)
theory Solidity_Lexer
  imports CStrings
begin

text \<open>
  The lexer and the type resolver of \<^verbatim>\<open>evm::SolidityParser\<close>
  (\<^verbatim>\<open>src/src/evm/SolidityParser.cpp\<close>).  The input stream is the list of the characters
  not yet read; the loop state is a record of the tokens found, the word being
  collected and the position.
\<close>

section \<open>Tokens\<close>

datatype token_type = KEYWORD | IDENTIFIER | NUMBER | STRING | OPERATOR | PUNCTUATION
  | COMMENT | WHITESPACE | END | UNKNOWN

record token =
  tok_type :: token_type
  tok_value :: string
  tok_line :: nat
  tok_column :: nat

definition KEYWORDS :: "string list" where
  "KEYWORDS = [''contract'', ''function'', ''public'', ''private'', ''internal'', ''external'',
     ''pure'', ''view'', ''payable'', ''returns'', ''memory'', ''storage'', ''calldata'',
     ''uint'', ''int'', ''address'', ''bool'', ''string'', ''bytes'', ''mapping'',
     ''struct'', ''enum'', ''if'', ''else'', ''while'', ''for'', ''do'', ''break'',
     ''continue'', ''return'']"

definition is_keyword :: "string \<Rightarrow> bool" where
  "is_keyword s = (s \<in> set KEYWORDS)"

definition is_number_literal :: "string \<Rightarrow> bool" where
  "is_number_literal s = (s \<noteq> [] \<and> list_all is_digit_char s)"

definition is_identifier :: "string \<Rightarrow> bool" where
  "is_identifier s =
     (s \<noteq> [] \<and> (isalpha_c (hd s) \<or> hd s = CHR ''_'')
      \<and> list_all (\<lambda>c. isalnum c \<or> c = CHR ''_'') (tl s) \<and> \<not> is_keyword s)"

definition classify :: "string \<Rightarrow> token_type" where
  "classify w =
     (if is_keyword w then KEYWORD
      else if is_number_literal w then NUMBER
      else if is_identifier w then IDENTIFIER
      else UNKNOWN)"

section \<open>The loop\<close>

record lexer =
  lx_tokens :: "token list"
  lx_current :: string
  lx_line :: nat
  lx_column :: nat

definition newline :: char where "newline = CHR 0x0A"

definition add_token :: "token_type \<Rightarrow> string \<Rightarrow> lexer \<Rightarrow> lexer" where
  "add_token ty v lx =
     lx\<lparr>lx_tokens := lx_tokens lx @ [\<lparr>tok_type = ty, tok_value = v, tok_line = lx_line lx,
                                      tok_column = lx_column lx\<rparr>],
        lx_column := lx_column lx + length v\<rparr>"

definition flush :: "lexer \<Rightarrow> lexer" where
  "flush lx =
     (if lx_current lx = [] then lx
      else (add_token (classify (lx_current lx)) (lx_current lx) lx)\<lparr>lx_current := []\<rparr>)"

definition advance :: "char \<Rightarrow> lexer \<Rightarrow> lexer" where
  "advance c lx =
     (if c = newline then lx\<lparr>lx_line := lx_line lx + 1, lx_column := 1\<rparr>
      else lx\<lparr>lx_column := lx_column lx + 1\<rparr>)"

text \<open>The body of a block comment after its opening, with the position it leaves.\<close>

fun block_comment :: "string \<Rightarrow> string \<Rightarrow> nat \<Rightarrow> nat \<Rightarrow> string \<times> nat \<times> nat \<times> string" where
  "block_comment acc [] line col = (acc, line, col, [])"
| "block_comment acc (c # r) line col =
     (if c = CHR ''*'' \<and> r \<noteq> [] \<and> hd r = CHR ''/'' then (acc @ [c, CHR ''/''], line, col, tl r)
      else if c = newline then block_comment (acc @ [c]) r (line + 1) 1
      else block_comment (acc @ [c]) r line col)"

text \<open>A string literal after its opening quote.\<close>

fun string_literal :: "string \<Rightarrow> string \<Rightarrow> string \<times> string" where
  "string_literal acc [] = (acc, [])"
| "string_literal acc [c] = (acc @ [c], [])"
| "string_literal acc (c # d # r) =
     (if c = CHR 0x5C then string_literal (acc @ [c, d]) r
      else if c = CHR 0x22 then (acc @ [c], d # r)
      else string_literal (acc @ [c]) (d # r))"

lemma block_comment_rest: "block_comment acc s l c = (a, l', c', rest) \<Longrightarrow> length rest \<le> length s"
  by (induction acc s l c rule: block_comment.induct) (fastforce split: if_splits)+

lemma string_literal_rest: "string_literal acc s = (a, rest) \<Longrightarrow> length rest \<le> length s"
  by (induction acc s rule: string_literal.induct) (fastforce split: if_splits)+

lemma length_after_line: "length (drop n (dropWhile P r)) < Suc (length r)"
  using length_dropWhile_le [of P r] by simp

function lex_loop :: "string \<Rightarrow> lexer \<Rightarrow> lexer" where
  "lex_loop [] lx = lx"
| "lex_loop (c # r) lx =
     (if isspace c then lex_loop r (flush (advance c lx))
      else if isalnum c \<or> c = CHR ''_'' then lex_loop r (lx\<lparr>lx_current := lx_current lx @ [c]\<rparr>)
      else
        let lx = flush lx
        in if c = CHR ''/'' \<and> r \<noteq> [] \<and> hd r = CHR ''/'' then
             (let comment = ''//'' @ takeWhile (\<lambda>d. d \<noteq> newline) r;
                  rest = drop 1 (dropWhile (\<lambda>d. d \<noteq> newline) r);
                  lx1 = add_token COMMENT comment lx
              in lex_loop rest (lx1\<lparr>lx_line := lx_line lx1 + 1, lx_column := 1\<rparr>))
           else if c = CHR ''/'' \<and> r \<noteq> [] \<and> hd r = CHR ''*'' then
             (case block_comment ''/*'' (tl r) (lx_line lx) (lx_column lx) of
                (comment, line, col, rest) \<Rightarrow>
                  lex_loop rest (add_token COMMENT comment (lx\<lparr>lx_line := line, lx_column := col\<rparr>)))
           else if c = CHR 0x22 then
             (case string_literal [CHR 0x22] r of
                (str, rest) \<Rightarrow> lex_loop rest (add_token STRING str lx))
           else if c \<in> set ''(){}[];,'' then lex_loop r (add_token PUNCTUATION [c] lx)
           else lex_loop r (add_token OPERATOR [c] lx))"
  by pat_completeness auto

termination
  by (relation "measure (\<lambda>(s, lx). length s)")
     (auto dest!: sym [THEN block_comment_rest] sym [THEN string_literal_rest]
       simp: less_Suc_eq_le length_after_line [unfolded less_Suc_eq_le length_drop] neq_Nil_conv)

definition lexer_start :: lexer where
  "lexer_start = \<lparr>lx_tokens = [], lx_current = [], lx_line = 1, lx_column = 1\<rparr>"

definition tokenize :: "string \<Rightarrow> token list" where
  "tokenize source = lx_tokens (add_token END [] (flush (lex_loop source lexer_start)))"

record parse_result =
  pr_success :: bool
  pr_tokens :: "token list"
  pr_errors :: "string list"

definition parse :: "string \<Rightarrow> parse_result" where
  "parse source =
     (let tokens = tokenize source
      in case find (\<lambda>t. tok_type t = UNKNOWN) tokens of
           Some t \<Rightarrow> \<lparr>pr_success = False, pr_tokens = [], pr_errors = [''Unrecognized token: '' @ tok_value t]\<rparr>
         | None \<Rightarrow> \<lparr>pr_success = True, pr_tokens = tokens, pr_errors = []\<rparr>)"

definition add_error :: "string \<Rightarrow> nat \<Rightarrow> nat \<Rightarrow> string list \<Rightarrow> string list" where
  "add_error message line column errors =
     errors @ [''Error at line '' @ dec_string line @ '', column '' @ dec_string column @ '': '' @ message]"

definition add_warning :: "string \<Rightarrow> nat \<Rightarrow> nat \<Rightarrow> string list \<Rightarrow> string list" where
  "add_warning message line column warnings =
     warnings @ [''Warning at line '' @ dec_string line @ '', column '' @ dec_string column @ '': '' @ message]"

section \<open>Types\<close>

datatype data_type = UINT | INT_T | ADDRESS | BOOL | STRING_T | BYTES | ARRAY | MAPPING | STRUCT | ENUM

text \<open>The base type stays uninitialised (\<open>None\<close>) for a name the resolver does not know.\<close>

datatype type_info = Type_info (ti_base: "data_type option") (ti_bits: u16) (ti_is_array: bool)
  (ti_is_mapping: bool) (ti_array_size: "u64 option") (ti_key: "type_info option")
  (ti_value: "type_info option")

definition basic_type :: "string \<Rightarrow> num_error + type_info" where
  "basic_type s =
     (let sized = (\<lambda>b digits scale. if digits = [] then Inr (Type_info (Some b) 256 False False None None None)
                     else case stoull digits of Inl e \<Rightarrow> Inl e
                        | Inr n \<Rightarrow> Inr (Type_info (Some b) (ucast (n * scale)) False False None None None));
          plain = (\<lambda>b. Inr (Type_info b 256 False False None None None))
      in if take 4 s = ''uint'' then sized UINT (drop 4 s) 1
         else if take 3 s = ''int'' then sized INT_T (drop 3 s) 1
         else if s = ''address'' then plain (Some ADDRESS)
         else if s = ''bool'' then plain (Some BOOL)
         else if s = ''string'' then plain (Some STRING_T)
         else if take 5 s = ''bytes'' then sized BYTES (drop 5 s) 8
         else plain None)"

text \<open>
  \<^verbatim>\<open>substr(from + 1, to - from - 1)\<close>: the unsigned difference wraps when the
  delimiters are in the wrong order, and then the substring runs to the end.
\<close>

definition between :: "nat \<Rightarrow> nat \<Rightarrow> string \<Rightarrow> string" where
  "between from to s =
     substr (from + 1) (if from + 1 \<le> to then Some (to - from - 1) else None) s"

lemma length_between: "from < length s \<Longrightarrow> length (between from to s) < length s"
  by (auto simp: between_def substr_def slice_def)

function resolve_type :: "string \<Rightarrow> string list \<Rightarrow> num_error + (type_info \<times> string list)" where
  "resolve_type s errors =
     (case find_char CHR ''['' s of
        Some pos \<Rightarrow>
          (let spec = drop pos s;
               sized = (if spec = ''[]'' then Inr None
                        else case stoull (substr 1 (if length spec < 2 then None else Some (length spec - 2)) spec) of
                               Inl e \<Rightarrow> Inl e | Inr n \<Rightarrow> Inr (Some n));
               errors1 = (case sized of Inl _ \<Rightarrow> add_error ''Invalid array size specification'' 0 0 errors
                                     | Inr _ \<Rightarrow> errors);
               asize = (case sized of Inl _ \<Rightarrow> None | Inr n \<Rightarrow> n)
           in case resolve_type (take pos s) errors1 of
                Inl e \<Rightarrow> Inl e
              | Inr (b, errors2) \<Rightarrow>
                  Inr (Type_info (ti_base b) (ti_bits b) True False asize None None, errors2))
      | None \<Rightarrow>
          if take 7 s = ''mapping'' then
            (case (find_char CHR ''('' s, find_char CHR '','' s, find_char CHR '')'' s) of
               (Some ks, Some ke, Some ve) \<Rightarrow>
                 (case resolve_type (between ks ke s) errors of Inl e \<Rightarrow> Inl e
                  | Inr (k, errors1) \<Rightarrow>
                    (case resolve_type (between ke ve s) errors1 of Inl e \<Rightarrow> Inl e
                     | Inr (v, errors2) \<Rightarrow>
                         Inr (Type_info None 256 False True None (Some k) (Some v), errors2)))
             | _ \<Rightarrow> Inr (Type_info None 256 False True None None None,
                        add_error ''Invalid mapping type specification'' 0 0 errors))
          else map_sum id (\<lambda>t. (t, errors)) (basic_type s))"
  by pat_completeness auto

termination
  by (relation "measure (\<lambda>(s, errors). length s)")
     (auto dest: find_char_Some sym [THEN find_char_Some] intro: length_between)

declare resolve_type.simps [simp del]

section \<open>Lemmas\<close>

definition word_char :: "char \<Rightarrow> bool" where
  "word_char c = (isalnum c \<or> c = CHR ''_'')"

text \<open>
  The lexical structure of a source.  A string body is closed when its only
  unescaped quote is its last character and open when it has none; the same for
  the end mark of a block comment.
\<close>

definition quote :: char where "quote = CHR 0x22"

fun str_closed :: "string \<Rightarrow> bool" where
  "str_closed [] = False"
| "str_closed [c] = (c = quote)"
| "str_closed (c # d # r) = (if c = CHR 0x5C then str_closed r else c \<noteq> quote \<and> str_closed (d # r))"

fun str_open :: "string \<Rightarrow> bool" where
  "str_open [] = True"
| "str_open [c] = (c \<noteq> quote)"
| "str_open (c # d # r) = (if c = CHR 0x5C then str_open r else c \<noteq> quote \<and> str_open (d # r))"

fun com_closed :: "string \<Rightarrow> bool" where
  "com_closed [] = False"
| "com_closed (c # r) = (if c = CHR ''*'' \<and> r \<noteq> [] \<and> hd r = CHR ''/'' then tl r = [] else com_closed r)"

fun com_open :: "string \<Rightarrow> bool" where
  "com_open [] = True"
| "com_open (c # r) = (\<not> (c = CHR ''*'' \<and> r \<noteq> [] \<and> hd r = CHR ''/'') \<and> com_open r)"

text \<open>
  A token is well formed when its text has the shape of its type; a word-like type
  is the classification of a non-empty run of word characters.
\<close>

definition token_ok :: "token \<Rightarrow> bool" where
  "token_ok t =
     (let v = tok_value t in
      case tok_type t of
        STRING \<Rightarrow> take 1 v = [quote] \<and> (str_closed (tl v) \<or> str_open (tl v))
      | COMMENT \<Rightarrow> take 3 v = ''///'' \<and> newline \<notin> set v
          \<or> take 2 v = ''/*'' \<and> (com_closed (drop 2 v) \<or> com_open (drop 2 v))
      | PUNCTUATION \<Rightarrow> length v = 1 \<and> hd v \<in> set ''(){}[];,''
      | OPERATOR \<Rightarrow> length v = 1 \<and> \<not> isspace (hd v) \<and> \<not> word_char (hd v) \<and> hd v \<noteq> quote
          \<and> hd v \<notin> set ''(){}[];,''
      | WHITESPACE \<Rightarrow> False
      | END \<Rightarrow> False
      | ty \<Rightarrow> v \<noteq> [] \<and> list_all word_char v \<and> ty = classify v)"

definition word_token :: "token \<Rightarrow> bool" where
  "word_token t = (tok_type t \<in> {KEYWORD, IDENTIFIER, NUMBER, UNKNOWN})"

definition line_comment :: "token \<Rightarrow> bool" where
  "line_comment t = (tok_type t = COMMENT \<and> take 2 (tok_value t) = ''//'')"

text \<open>The characters of the source that a token stands for: its text, without the slash that a
  line comment has too many.\<close>

definition spelling :: "token \<Rightarrow> string" where
  "spelling t = (if line_comment t then tl (tok_value t) else tok_value t)"

definition closed_token :: "token \<Rightarrow> bool" where
  "closed_token t = (case tok_type t of STRING \<Rightarrow> str_closed (tl (tok_value t))
     | COMMENT \<Rightarrow> line_comment t \<or> com_closed (drop 2 (tok_value t)) | _ \<Rightarrow> True)"

text \<open>Which character may come next after the tokens \<open>ts\<close> and the white space \<open>g\<close>: directly after
  a token nothing that would have made that token longer.\<close>

definition follows :: "token list \<Rightarrow> string \<Rightarrow> char \<Rightarrow> bool" where
  "follows ts g c \<longleftrightarrow> ts = [] \<or> g \<noteq> [] \<or>
     (closed_token (last ts) \<and> \<not> (word_token (last ts) \<and> word_char c)
      \<and> \<not> (tok_type (last ts) = OPERATOR \<and> tok_value (last ts) = ''/'' \<and> c \<in> {CHR ''/'', CHR ''*''})
      \<and> \<not> (line_comment (last ts) \<and> c \<noteq> newline))"

text \<open>\<open>spells ts g s\<close>: the source \<open>s\<close> is spelled by the tokens \<open>ts\<close>, with white space between
  them, and ends in the white space \<open>g\<close>.\<close>

inductive spells :: "token list \<Rightarrow> string \<Rightarrow> string \<Rightarrow> bool" where
  spells_Nil: "spells [] [] []"
| spells_space: "spells ts g s \<Longrightarrow> isspace c \<Longrightarrow> follows ts g c \<Longrightarrow> spells ts (g @ [c]) (s @ [c])"
| spells_token: "spells ts g s \<Longrightarrow> token_ok t \<Longrightarrow> follows ts g (hd (spelling t))
    \<Longrightarrow> spells (ts @ [t]) [] (s @ spelling t)"

lemma classify_word: "classify w \<in> {KEYWORD, IDENTIFIER, NUMBER, UNKNOWN}"
  by (simp add: classify_def)

lemma spells_ok: "spells ts g s \<Longrightarrow> list_all token_ok ts"
  by (induction rule: spells.induct) simp_all

lemma word_not_special:
  "word_char c \<Longrightarrow> \<not> isspace c"
  "\<not> word_char CHR ''/''" "\<not> word_char CHR ''*''" "\<not> word_char quote" "\<not> word_char newline"
  "isspace newline" "\<not> isspace CHR ''/''" "\<not> isspace quote"
  by (auto simp: word_char_def isalnum_def isalpha_c_def is_digit_char_def isspace_def quote_def newline_def)

lemma string_literal_spec:
  "string_literal acc s = (a, rest) \<Longrightarrow>
    \<exists>b. a = acc @ b \<and> s = b @ rest \<and> (str_closed b \<or> str_open b \<and> rest = [])"
proof (induction acc s rule: string_literal.induct)
  case (3 acc c d r)
  consider "c = CHR 0x5C" | "c \<noteq> CHR 0x5C" "c = quote" | "c \<noteq> CHR 0x5C" "c \<noteq> quote" by blast
  then show ?case
  proof cases
    case 1
    with 3 obtain b where "a = (acc @ [c, d]) @ b" "r = b @ rest" "str_closed b \<or> str_open b \<and> rest = []"
      by auto
    with 1 show ?thesis by (intro exI [of _ "c # d # b"]) auto
  next
    case 2
    with 3 show ?thesis by (intro exI [of _ "[c]"]) (auto simp: quote_def)
  next
    case 3
    with "3.IH"(2) "3.prems" obtain b where b: "a = (acc @ [c]) @ b" "d # r = b @ rest"
        "str_closed b \<or> str_open b \<and> rest = []"
      by (auto simp: quote_def)
    with 3 show ?thesis by (intro exI [of _ "c # b"]) (cases b; auto)
  qed
qed auto

lemma block_comment_spec:
  "block_comment acc s l k = (a, l', k', rest) \<Longrightarrow>
    \<exists>b. a = acc @ b \<and> s = b @ rest \<and> (com_closed b \<or> com_open b \<and> rest = [])"
proof (induction acc s l k rule: block_comment.induct)
  case (2 acc c r l k)
  show ?case
  proof (cases "c = CHR ''*'' \<and> r \<noteq> [] \<and> hd r = CHR ''/''")
    case True
    with 2 show ?thesis by (intro exI [of _ "[c, CHR ''/'']"]) (cases r; auto)
  next
    case False
    with 2 obtain b where "a = (acc @ [c]) @ b" "r = b @ rest" "com_closed b \<or> com_open b \<and> rest = []"
      by (fastforce split: if_splits)
    with False show ?thesis by (intro exI [of _ "c # b"]) (cases b; auto)
  qed
qed auto

text \<open>The loop invariant: the tokens found so far spell the part of the source before the
  collected word, and the next character may follow them.\<close>

definition lexer_inv :: "string \<Rightarrow> string \<Rightarrow> lexer \<Rightarrow> bool" where
  "lexer_inv source s lx \<longleftrightarrow> (\<exists>g src. spells (lx_tokens lx) g src \<and> source = src @ lx_current lx @ s
     \<and> list_all word_char (lx_current lx)
     \<and> (lx_current lx @ s \<noteq> [] \<longrightarrow> follows (lx_tokens lx) g (hd (lx_current lx @ s))))"

lemma lexer_inv_position [simp]:
  "lexer_inv source s (advance c lx) = lexer_inv source s lx"
  "lexer_inv source s (lx\<lparr>lx_line := l, lx_column := k\<rparr>) = lexer_inv source s lx"
  by (simp_all add: lexer_inv_def advance_def)

lemma lexer_inv_collect:
  "lexer_inv source (c # r) lx \<Longrightarrow> word_char c
   \<Longrightarrow> lexer_inv source r (lx\<lparr>lx_current := lx_current lx @ [c]\<rparr>)"
  by (auto simp: lexer_inv_def)

lemma flush_current [simp]: "lx_current (flush lx) = []"
  by (simp add: flush_def)

lemma flush_inv:
  assumes "lexer_inv source s lx" "s = [] \<or> \<not> word_char (hd s)"
  shows "lexer_inv source s (flush lx)"
proof (cases "lx_current lx = []")
  case False
  let ?w = "lx_current lx"
  let ?t = "\<lparr>tok_type = classify ?w, tok_value = ?w, tok_line = lx_line lx, tok_column = lx_column lx\<rparr>"
  obtain g src where sp: "spells (lx_tokens lx) g src" "source = src @ ?w @ s" "list_all word_char ?w"
      "follows (lx_tokens lx) g (hd ?w)"
    using assms(1) False by (auto simp: lexer_inv_def)
  have word: "word_token ?t" "\<not> line_comment ?t" "closed_token ?t" "token_ok ?t"
    using classify_word [of ?w] False sp(3)
    by (auto simp: word_token_def line_comment_def closed_token_def token_ok_def Let_def)
  then have "spelling ?t = ?w" by (simp add: spelling_def)
  with spells_token [OF sp(1) word(4)] sp(4)
  have "spells (lx_tokens lx @ [?t]) [] (src @ ?w)" by simp
  then show ?thesis
    unfolding lexer_inv_def using False sp(2) assms(2) word
    by (intro exI [of _ "[]"] exI [of _ "src @ ?w"])
       (auto simp: flush_def add_token_def follows_def word_token_def)
qed (use assms in \<open>simp add: flush_def\<close>)

text \<open>Adding a token for the characters \<open>x\<close> at the front of the rest.\<close>

lemma add_token_inv:
  assumes "lexer_inv source (x @ r) lx" "lx_current lx = []" "x \<noteq> []"
    and t: "t = \<lparr>tok_type = ty, tok_value = v, tok_line = lx_line lx, tok_column = lx_column lx\<rparr>"
    and "token_ok t" "spelling t = x" "r \<noteq> [] \<Longrightarrow> follows [t] [] (hd r)"
  shows "lexer_inv source r (add_token ty v lx)"
proof -
  obtain g src where sp: "spells (lx_tokens lx) g src" "source = src @ x @ r"
      "follows (lx_tokens lx) g (hd x)"
    using assms(1-3) by (auto simp: lexer_inv_def)
  have "spells (lx_tokens lx @ [t]) [] (src @ x)"
    using spells_token [OF sp(1) assms(5)] sp(3) assms(6) by simp
  then show ?thesis
    unfolding lexer_inv_def using sp(2) assms(2,7) t
    by (intro exI [of _ "[]"] exI [of _ "src @ x"]) (auto simp: add_token_def follows_def)
qed

lemma space_inv:
  assumes "lexer_inv source (c # r) lx" "lx_current lx = []" "isspace c"
  shows "lexer_inv source r lx"
proof -
  obtain g src where sp: "spells (lx_tokens lx) g src" "source = src @ c # r" "follows (lx_tokens lx) g c"
    using assms(1,2) by (auto simp: lexer_inv_def)
  show ?thesis
    unfolding lexer_inv_def using spells_space [OF sp(1) assms(3) sp(3)] sp(2) assms(2)
    by (intro exI [of _ "g @ [c]"] exI [of _ "src @ [c]"]) (simp add: follows_def)
qed

lemma line_comment_inv:
  assumes "lexer_inv source (CHR ''/'' # r) lx" "lx_current lx = []" "r \<noteq> []" "hd r = CHR ''/''"
  shows "lexer_inv source (drop 1 (dropWhile (\<lambda>d. d \<noteq> newline) r))
    (add_token COMMENT (''//'' @ takeWhile (\<lambda>d. d \<noteq> newline) r) lx)"
proof -
  let ?P = "\<lambda>d. d \<noteq> newline"
  let ?v = "''//'' @ takeWhile ?P r"
  let ?t = "\<lparr>tok_type = COMMENT, tok_value = ?v, tok_line = lx_line lx, tok_column = lx_column lx\<rparr>"
  have ok: "token_ok ?t" "line_comment ?t"
    using assms(3,4) by (cases r; auto simp: token_ok_def line_comment_def newline_def dest: set_takeWhileD)+
  have sp: "spelling ?t = CHR ''/'' # takeWhile ?P r" using ok(2) by (simp add: spelling_def)
  have rest: "dropWhile ?P r = [] \<or> dropWhile ?P r = newline # drop 1 (dropWhile ?P r)"
    using hd_dropWhile [of ?P r] by (cases "dropWhile ?P r") auto
  have "lexer_inv source (dropWhile ?P r) (add_token COMMENT ?v lx)"
  proof (rule add_token_inv [OF _ assms(2) _ refl ok(1) sp])
    show "lexer_inv source ((CHR ''/'' # takeWhile ?P r) @ dropWhile ?P r) lx" using assms(1) by simp
    show "follows [?t] [] (hd (dropWhile ?P r))" if "dropWhile ?P r \<noteq> []"
      using hd_dropWhile [OF that] ok(2) by (simp add: follows_def closed_token_def word_token_def)
  qed simp
  moreover have "lx_current (add_token COMMENT ?v lx) = []" using assms(2) by (simp add: add_token_def)
  ultimately show ?thesis using rest space_inv [OF _ _ word_not_special(6)] by (metis drop_Nil)
qed

lemma block_comment_inv:
  assumes "lexer_inv source (CHR ''/'' # CHR ''*'' # r) lx" "lx_current lx = []"
    and "block_comment ''/*'' r l k = (v, l', k', rest)"
  shows "lexer_inv source rest (add_token COMMENT v (lx\<lparr>lx_line := l', lx_column := k'\<rparr>))"
proof -
  obtain b where b: "v = ''/*'' @ b" "r = b @ rest" "com_closed b \<or> com_open b \<and> rest = []"
    using block_comment_spec [OF assms(3)] by blast
  let ?t = "\<lparr>tok_type = COMMENT, tok_value = v, tok_line = l', tok_column = k'\<rparr>"
  show ?thesis
  proof (rule add_token_inv [where x = v and t = ?t])
    show "lexer_inv source (v @ rest) (lx\<lparr>lx_line := l', lx_column := k'\<rparr>)" using assms(1) b by simp
    show "token_ok ?t" using b by (auto simp: token_ok_def)
    show "follows [?t] [] (hd rest)" if "rest \<noteq> []"
      using that b by (auto simp: follows_def closed_token_def word_token_def line_comment_def)
  qed (use assms(2) b in \<open>auto simp: spelling_def line_comment_def\<close>)
qed

lemma string_literal_inv:
  assumes "lexer_inv source (quote # r) lx" "lx_current lx = []" "string_literal [CHR 0x22] r = (v, rest)"
  shows "lexer_inv source rest (add_token STRING v lx)"
proof -
  obtain b where b: "v = quote # b" "r = b @ rest" "str_closed b \<or> str_open b \<and> rest = []"
    using string_literal_spec [OF assms(3)] by (auto simp: quote_def)
  show ?thesis
  proof (rule add_token_inv [OF _ assms(2) _ refl, where x = v])
    show "lexer_inv source (v @ rest) lx" using assms(1) b by simp
  qed (use b in \<open>auto simp: token_ok_def spelling_def line_comment_def follows_def closed_token_def
        word_token_def\<close>)
qed

lemma mark_inv:
  assumes "lexer_inv source (c # r) lx" "lx_current lx = []" "ty \<in> {OPERATOR, PUNCTUATION}"
    and "token_ok \<lparr>tok_type = ty, tok_value = [c], tok_line = lx_line lx, tok_column = lx_column lx\<rparr>"
    and "c = CHR ''/'' \<Longrightarrow> r = [] \<or> hd r \<notin> {CHR ''/'', CHR ''*''}"
  shows "lexer_inv source r (add_token ty [c] lx)"
  by (rule add_token_inv [OF _ assms(2) _ refl assms(4), where x = "[c]"])
     (use assms in \<open>auto simp: spelling_def line_comment_def follows_def closed_token_def word_token_def\<close>)

text \<open>One round of the loop on a character that neither is space nor belongs to a word.\<close>

lemma lex_mark:
  assumes "\<not> isspace c" "\<not> word_char c" "lexer_inv source (c # r) lx"
  shows "\<exists>rest lx'. lex_loop (c # r) lx = lex_loop rest lx' \<and> length rest \<le> length r
    \<and> lexer_inv source rest lx'"
proof -
  have f: "lexer_inv source (c # r) (flush lx)" using flush_inv assms by simp
  have nw: "\<not> (isalnum c \<or> c = CHR ''_'')" using assms(2) by (simp add: word_char_def)
  note mark = mark_inv [OF f flush_current] and loop = lex_loop.simps(2) Let_def if_not_P [OF assms(1)] if_not_P [OF nw]
  consider (line) "c = CHR ''/''" "r \<noteq> []" "hd r = CHR ''/''" | (block) "c = CHR ''/''" "r \<noteq> []" "hd r = CHR ''*''"
    | (str) "c = quote" | (punct) "c \<in> set ''(){}[];,''"
    | (op) "c \<noteq> quote" "c \<notin> set ''(){}[];,''" "c = CHR ''/'' \<Longrightarrow> r = [] \<or> hd r \<notin> {CHR ''/'', CHR ''*''}"
    by blast
  then show ?thesis
  proof cases
    case line
    let ?rest = "drop 1 (dropWhile (\<lambda>d. d \<noteq> newline) r)"
    let ?lx = "add_token COMMENT (''//'' @ takeWhile (\<lambda>d. d \<noteq> newline) r) (flush lx)"
    have "lexer_inv source ?rest ?lx" using line_comment_inv [OF _ flush_current] f line by blast
    with line length_after_line [of 1 "\<lambda>d. d \<noteq> newline" r] show ?thesis
      unfolding loop
      by (intro exI [of _ ?rest] exI [of _ "?lx\<lparr>lx_line := lx_line ?lx + 1, lx_column := 1\<rparr>"]) simp
  next
    case block
    obtain v l k rest where bc: "block_comment ''/*'' (tl r) (lx_line (flush lx)) (lx_column (flush lx)) = (v, l, k, rest)"
      by (metis surj_pair)
    have "lexer_inv source rest (add_token COMMENT v ((flush lx)\<lparr>lx_line := l, lx_column := k\<rparr>))"
      using block_comment_inv [OF _ flush_current bc] f block by (metis hd_Cons_tl)
    with block bc block_comment_rest [OF bc] show ?thesis
      unfolding loop by (intro exI conjI; assumption?) (simp_all)
  next
    case str
    obtain v rest where sl: "string_literal [CHR 0x22] r = (v, rest)" by fastforce
    have "lexer_inv source rest (add_token STRING v (flush lx))"
      using string_literal_inv [OF _ flush_current sl] f str by blast
    with str sl string_literal_rest [OF sl] show ?thesis
      unfolding loop by (intro exI conjI; assumption?) (simp_all add: quote_def)
  next
    case punct
    have "lexer_inv source r (add_token PUNCTUATION [c] (flush lx))"
      by (rule mark) (use punct in \<open>auto simp: token_ok_def\<close>)
    moreover have "c \<noteq> CHR ''/''" "c \<noteq> CHR 0x22" using punct by auto
    ultimately show ?thesis
      using punct unfolding loop by (intro exI [of _ r] exI conjI; assumption?) simp_all
  next
    case op
    have "lexer_inv source r (add_token OPERATOR [c] (flush lx))"
      by (rule mark) (use op assms in \<open>auto simp: token_ok_def\<close>)
    moreover have no: "\<not> (c = CHR ''/'' \<and> r \<noteq> [] \<and> hd r = CHR ''/'')" "\<not> (c = CHR ''/'' \<and> r \<noteq> [] \<and> hd r = CHR ''*'')"
        "c \<noteq> CHR 0x22"
      using op(1,3) unfolding quote_def by blast+
    ultimately show ?thesis
      unfolding loop if_not_P [OF no(1)] if_not_P [OF no(2)] if_not_P [OF no(3)] if_not_P [OF op(2)]
      by blast
  qed
qed

lemma lex_inv: "lexer_inv source s lx \<Longrightarrow> lexer_inv source [] (lex_loop s lx)"
proof (induction s arbitrary: lx rule: length_induct)
  case (1 s)
  show ?case
  proof (cases s)
    case s: (Cons c r)
    consider "isspace c" | "word_char c" | "\<not> isspace c" "\<not> word_char c" by blast
    then show ?thesis
    proof cases
      case c: 1
      then have "lexer_inv source (c # r) (flush (advance c lx))"
        using flush_inv [of source "c # r" "advance c lx"] 1(2) s word_not_special(1) [of c] by auto
      from space_inv [OF this flush_current c] c 1(1) s show ?thesis by simp
    next
      case c: 2
      from lexer_inv_collect [OF 1(2) [unfolded s] this] c 1(1) s word_not_special(1) [OF this]
      show ?thesis by (simp add: word_char_def)
    next
      case 3
      from lex_mark [OF this 1(2) [unfolded s]] 1(1) s show ?thesis by (auto simp: less_Suc_eq_le)
    qed
  qed (use 1(2) in simp)
qed

lemma classify_unknown:
  assumes "w \<noteq> []" "list_all word_char w"
  shows "classify w = UNKNOWN \<longleftrightarrow> is_digit_char (hd w) \<and> \<not> list_all is_digit_char w"
proof -
  obtain c cs where w: "w = c # cs" using assms(1) by (cases w) auto
  have "\<forall>k\<in>set KEYWORDS. \<not> is_digit_char (hd k)"
    by (simp add: KEYWORDS_def is_digit_char_def)
  then have kw: "is_keyword w \<Longrightarrow> \<not> is_digit_char c"
    using w by (auto simp: is_keyword_def)
  have alpha: "isalpha_c c \<Longrightarrow> \<not> is_digit_char c" "c = CHR ''_'' \<Longrightarrow> \<not> is_digit_char c"
    by (auto simp: isalpha_c_def is_digit_char_def)
  show ?thesis
    using assms(2) kw alpha unfolding w
    by (auto simp: classify_def is_number_literal_def is_identifier_def word_char_def isalnum_def
        list_all_iff)
qed

lemma lex_word:
  "list_all word_char w \<Longrightarrow> lex_loop (w @ s) lx = lex_loop s (lx\<lparr>lx_current := lx_current lx @ w\<rparr>)"
proof (induction w arbitrary: lx)
  case (Cons c w)
  have "\<not> isspace c"
    using Cons.prems by (auto simp: word_char_def isalnum_def isalpha_c_def is_digit_char_def isspace_def)
  with Cons show ?case by (simp add: word_char_def)
qed simp

section \<open>Properties\<close>

text \<open>C36: The tokens of a source spell it: apart from white space between the tokens, every character
  of the source belongs to exactly one token, in order and unchanged but for the slash that a
  line comment has too many; no word is dropped or split, a string literal ends at its first
  unescaped quote, a block comment at its first end mark, a line comment at the newline, and only
  the last token may be cut off by the end of the source.  Words carry the class of their text, one
  END token closes the list, and parse succeeds exactly when no word starts with a digit without
  being a number.\<close>

theorem tokenize_sound:
  "\<exists>ts g l c. tokenize source = ts @ [\<lparr>tok_type = END, tok_value = [], tok_line = l, tok_column = c\<rparr>]
     \<and> spells ts g source
     \<and> (pr_success (parse source) \<longleftrightarrow>
          \<not> (\<exists>t\<in>set ts. word_token t \<and> is_digit_char (hd (tok_value t)) \<and> \<not> list_all is_digit_char (tok_value t)))"
proof -
  let ?lx = "flush (lex_loop source lexer_start)"
  have "lexer_inv source source lexer_start"
    using spells_Nil by (auto simp: lexer_inv_def lexer_start_def follows_def)
  then have "lexer_inv source [] ?lx" using lex_inv flush_inv by blast
  then obtain g where sp: "spells (lx_tokens ?lx) g source" by (auto simp: lexer_inv_def)
  define ts where "ts = lx_tokens ?lx"
  obtain l c where tk: "tokenize source
      = ts @ [\<lparr>tok_type = END, tok_value = [], tok_line = l, tok_column = c\<rparr>]"
    by (simp add: tokenize_def add_token_def ts_def)
  have unk: "tok_type t = UNKNOWN \<longleftrightarrow> word_token t
      \<and> is_digit_char (hd (tok_value t)) \<and> \<not> list_all is_digit_char (tok_value t)"
    if "t \<in> set ts" for t
  proof -
    have "token_ok t" using spells_ok [OF sp] that by (simp add: list_all_iff ts_def)
    then show ?thesis
      using classify_unknown [of "tok_value t"]
      by (cases "tok_type t") (auto simp: token_ok_def word_token_def Let_def)
  qed
  have "pr_success (parse source) \<longleftrightarrow> find (\<lambda>t. tok_type t = UNKNOWN) (tokenize source) = None"
    by (simp add: parse_def Let_def split: option.split)
  then have "pr_success (parse source) \<longleftrightarrow> \<not> (\<exists>t\<in>set ts. tok_type t = UNKNOWN)"
    by (auto simp: find_None_iff tk)
  with tk sp unk show ?thesis unfolding ts_def by blast
qed

text \<open>A line comment is recorded with one slash too many: for a comment text without a newline
  at the end of the source the token's value is three slashes followed by the text.\<close>

theorem line_comment_extra_slash:
  assumes "newline \<notin> set text"
  shows "tokenize (''//'' @ text) =
    [\<lparr>tok_type = COMMENT, tok_value = ''///'' @ text, tok_line = 1, tok_column = 1\<rparr>,
     \<lparr>tok_type = END, tok_value = [], tok_line = 2, tok_column = 1\<rparr>]"
proof -
  have t: "takeWhile (\<lambda>d. d \<noteq> newline) (CHR ''/'' # text) = CHR ''/'' # text"
      "dropWhile (\<lambda>d. d \<noteq> newline) (CHR ''/'' # text) = []"
    using assms by (auto simp: takeWhile_eq_all_conv newline_def)
  have c: "\<not> isspace CHR ''/''" "\<not> isalnum CHR ''/''"
    by (simp_all add: isspace_def isalnum_def isalpha_c_def is_digit_char_def)
  have "lex_loop (''//'' @ text) lexer_start
      = (add_token COMMENT (''//'' @ CHR ''/'' # text) lexer_start)\<lparr>lx_line := 2, lx_column := 1\<rparr>"
    using c by (simp del: takeWhile.simps dropWhile.simps
        add: t Let_def flush_def lexer_start_def add_token_def)
  then show ?thesis by (simp add: tokenize_def flush_def add_token_def lexer_start_def)
qed

theorem line_comment_extra_slash_witness:
  "tok_value (hd (tokenize ''// ok'')) = ''/// ok''"
  using line_comment_extra_slash [of "'' ok''"] by (simp add: newline_def)

text \<open>A word that ends a line is reported at the start of the next line: for a non-empty word
  followed by a newline the first token has line 2 and column 1 although it begins at line 1.\<close>

theorem word_before_newline_position:
  assumes "w \<noteq> []" "list_all word_char w"
  shows "tokenize (w @ [newline]) =
    [\<lparr>tok_type = classify w, tok_value = w, tok_line = 2, tok_column = 1\<rparr>,
     \<lparr>tok_type = END, tok_value = [], tok_line = 2, tok_column = 1 + length w\<rparr>]"
  using assms
  by (simp add: tokenize_def lex_word) (simp add: newline_def isspace_def advance_def flush_def
      add_token_def lexer_start_def)

theorem word_before_newline_position_witness:
  "tok_line (hd (tokenize (''ab'' @ [newline]))) = 2"
  using word_before_newline_position [of "''ab''"]
  by (simp add: word_char_def isalnum_def isalpha_c_def)

text \<open>A sized integer type resolves to its width modulo 2^16: the width is parsed as a 64-bit
  number and stored in a 16-bit field without any check.\<close>

theorem resolve_uint_width:
  assumes "n < 2 ^ 64"
  shows "resolve_type (''uint'' @ dec_string n) errors
    = Inr (Type_info (Some UINT) (of_nat n) False False None None None, errors)"
proof -
  have d: "list_all is_digit_char (dec_string n)" by (rule dec_string_digits)
  have "find_char CHR ''['' (dec_string n) = None"
    using d by (auto simp: find_char_None list_all_iff is_digit_char_def)
  then have "find_char CHR ''['' (''uint'' @ dec_string n) = None" by simp
  moreover have "stoull (dec_string n) = Inr (of_nat n)"
    using stoull_digits [OF d] assms by (simp add: parse_dec_string)
  moreover have "ucast (of_nat n :: u64) = (of_nat n :: u16)"
    using assms by (simp add: unsigned_of_nat take_bit_nat_eq_self)
  ultimately show ?thesis
    by (subst resolve_type.simps) (simp add: basic_type_def)
qed

theorem resolve_uint_width_witness:
  "resolve_type (''uint'' @ dec_string 65544) []
   = Inr (Type_info (Some UINT) 8 False False None None None, [])"
  using resolve_uint_width [of 65544 "[]"] by simp

end
