(* ===== verification/Rollup_Proofs.thy ===== *)
theory Rollup_Proofs
  imports State_Laws
begin

text \<open>
  The proofs a rollup batch travels with: the transition proof and its byte format
  (\<^verbatim>\<open>StateTransitionProof.cpp\<close>), the check of a transition against two states
  (\<^verbatim>\<open>RollupStateTransition.cpp\<close>), fraud proofs (\<^verbatim>\<open>FraudProof.cpp\<close>), their optimistic
  variant (\<^verbatim>\<open>OptimisticAdapter.cpp\<close>) and the emergency exit (\<^verbatim>\<open>EmergencyExit.cpp\<close>), all
  under \<^verbatim>\<open>src/src/rollup\<close>.  Quantum states enter only through parameters: the bytes of
  the amplitudes that encode an account, the verdict on a difference vector, and the
  zero-knowledge verifier.
\<close>

section \<open>Transition proofs\<close>

record transition_proof =
  stp_pre_state_root :: bytes
  stp_post_state_root :: bytes
  stp_transactions_root :: bytes
  stp_zk_proof :: bytes
  stp_quantum_signature :: bytes

definition StateTransitionProof_verify :: "transition_proof \<Rightarrow> bool" where
  "StateTransitionProof_verify p = (stp_zk_proof p \<noteq> [] \<and> stp_quantum_signature p \<noteq> [])"

definition StateTransitionProof_computeHash :: "hash_fun \<Rightarrow> transition_proof \<Rightarrow> bytes" where
  "StateTransitionProof_computeHash H p =
     H (bytes_of_string ''QUIDS_STATE_TRANSITION_PROOF_V1''
        @ stp_pre_state_root p @ stp_post_state_root p @ stp_transactions_root p
        @ (if stp_zk_proof p \<noteq> [] then stp_zk_proof p else [])
        @ (if stp_quantum_signature p \<noteq> [] then stp_quantum_signature p else []))"

definition addVector :: "bytes \<Rightarrow> bytes" where
  "addVector vec = u32_bytes (of_nat (length vec)) @ vec"

definition StateTransitionProof_serialize :: "transition_proof \<Rightarrow> bytes" where
  "StateTransitionProof_serialize p =
     stp_pre_state_root p @ stp_post_state_root p @ stp_transactions_root p
     @ addVector (stp_zk_proof p) @ addVector (stp_quantum_signature p)"

definition readVector :: "bytes decoder" where
  "readVector data =
     (case dec_u32 data of None \<Rightarrow> None | Some (sz, rest) \<Rightarrow> dec_block (unat sz) rest)"

text \<open>The reader with the bytes it leaves; \<^verbatim>\<open>deserialize\<close> ignores them.\<close>

definition read_transition_proof :: "transition_proof decoder" where
  "read_transition_proof data =
     (if length data < 32 * 3 then None
      else
        case readVector (drop 96 data) of None \<Rightarrow> None | Some (zk, r1) \<Rightarrow>
        case readVector r1 of None \<Rightarrow> None | Some (qs, r2) \<Rightarrow>
          Some (\<lparr>stp_pre_state_root = slice 0 32 data, stp_post_state_root = slice 32 32 data,
                 stp_transactions_root = slice 64 32 data, stp_zk_proof = zk,
                 stp_quantum_signature = qs\<rparr>, r2))"

definition StateTransitionProof_deserialize :: "bytes \<Rightarrow> transition_proof option" where
  "StateTransitionProof_deserialize data = map_option fst (read_transition_proof data)"

section \<open>Checking a transition\<close>

text \<open>The loop that applies transactions to a scratch state and stops at the first failure.\<close>

fun apply_all :: "grant \<Rightarrow> hash_fun \<Rightarrow> transaction list \<Rightarrow> bool sm" where
  "apply_all grant H [] = sm_return True"
| "apply_all grant H (tx # txs) =
     sm_bind (apply_transaction grant H tx) (\<lambda>ok.
       if \<not> ok then sm_return False else apply_all grant H txs)"

definition run_root :: "grant \<Rightarrow> sm_state \<Rightarrow> sm_error + bytes" where
  "run_root grant s = fst (get_state_root grant [] s)"

definition verify_transition ::
  "grant \<Rightarrow> hash_fun \<Rightarrow> sm_state \<Rightarrow> sm_state \<Rightarrow> transaction list \<Rightarrow> sm_error + bool" where
  "verify_transition grant H pre_state post_state txs =
     (case (run_root grant pre_state, fst (get_previous_root grant [] post_state)) of
        (Inr r, Inr p) \<Rightarrow>
          if r \<noteq> p then Inr False
          else (case fst (clone grant H [] pre_state) of Inl e \<Rightarrow> Inl e | Inr temp \<Rightarrow>
               (case apply_all grant H txs [] temp of
                  (Inl e, _) \<Rightarrow> Inl e
                | (Inr False, _) \<Rightarrow> Inr False
                | (Inr True, temp') \<Rightarrow>
                    (case (run_root grant temp', run_root grant post_state) of
                       (Inr a, Inr b) \<Rightarrow> Inr (a = b) | _ \<Rightarrow> Inl Deadlock)))
      | _ \<Rightarrow> Inl Deadlock)"

fun verify_transaction_sequence :: "transaction list \<Rightarrow> bool" where
  "verify_transaction_sequence (t1 # t2 # ts) =
     (if tx_nonce t2 \<le> tx_nonce t1 then False else verify_transaction_sequence (t2 # ts))"
| "verify_transaction_sequence _ = True"

text \<open>\<^verbatim>\<open>copy_n\<close> of 32 bytes reads past the end of a shorter root.\<close>

datatype root_error = Root_too_short | State_error sm_error

definition compute_post_state_root :: "grant \<Rightarrow> transaction list \<Rightarrow> sm_state \<Rightarrow> root_error + bytes" where
  "compute_post_state_root grant batch s =
     (case run_root grant s of
        Inl e \<Rightarrow> Inl (State_error e)
      | Inr r \<Rightarrow> if length r < 32 then Inl Root_too_short else Inr (take 32 r))"

definition compute_batch_hash :: "hash_fun \<Rightarrow> transaction list \<Rightarrow> bytes" where
  "compute_batch_hash H batch = H (concat (map StandardTransaction_serialize batch))"

record 'z rollup_batch_proof =
  rp_pre_state_root :: bytes
  rp_post_state_root :: bytes
  rp_transactions :: "transaction list"
  rp_proof_data :: 'z
  rp_timestamp :: u64
  rp_batch_number :: u64
  rp_batch_hash :: bytes

definition generate_transition_proof ::
  "grant \<Rightarrow> hash_fun \<Rightarrow> (transaction list \<Rightarrow> 'z) \<Rightarrow> u64 \<Rightarrow> transaction list \<Rightarrow> sm_state \<Rightarrow> u64
    \<Rightarrow> (root_error + 'z rollup_batch_proof) \<times> u64" where
  "generate_transition_proof grant H zkp now batch s batch_number =
     (let zk = zkp batch in
      case run_root grant s of
        Inl e \<Rightarrow> (Inl (State_error e), batch_number)
      | Inr vec_root \<Rightarrow>
          if length vec_root < 32 then (Inl Root_too_short, batch_number)
          else
            (case compute_post_state_root grant batch s of
               Inl e \<Rightarrow> (Inl e, batch_number)
             | Inr post \<Rightarrow>
                 (Inr \<lparr>rp_pre_state_root = take 32 vec_root, rp_post_state_root = post,
                       rp_transactions = batch, rp_proof_data = zk, rp_timestamp = now,
                       rp_batch_number = batch_number, rp_batch_hash = compute_batch_hash H batch\<rparr>,
                  batch_number + 1)))"

section \<open>Fraud proofs\<close>

definition encode_state_diff :: "sm_state \<Rightarrow> sm_state \<Rightarrow> u64 list" where
  "encode_state_diff pre post =
     (let pre_accounts = sort_key fst (accounts pre); post_accounts = sort_key fst (accounts post)
      in concat (map (\<lambda>(addr, a). case map_of post_accounts addr of
             Some b \<Rightarrow> [acc_balance b - acc_balance a, acc_nonce b - acc_nonce a]
           | None \<Rightarrow> [- acc_balance a, - acc_nonce a]) pre_accounts)
         @ concat (map (\<lambda>(addr, b). if map_of pre_accounts addr = None
             then [acc_balance b, acc_nonce b] else []) post_accounts))"

record 'v fraud_proof =
  fp_pre_state_root :: bytes
  fp_post_state_root :: bytes
  fp_transactions :: "transaction list"
  fp_pre_state :: sm_state
  fp_post_state :: sm_state
  fp_validity_proof :: 'v

definition verify_state_roots :: "grant \<Rightarrow> 'v fraud_proof \<Rightarrow> root_error + bool" where
  "verify_state_roots grant p =
     (case run_root grant (fp_pre_state p) of Inl e \<Rightarrow> Inl (State_error e) | Inr pre \<Rightarrow>
      if length pre < 32 then Inl Root_too_short
      else if take 32 pre \<noteq> fp_pre_state_root p then Inr False
      else (case run_root grant (fp_post_state p) of Inl e \<Rightarrow> Inl (State_error e) | Inr post \<Rightarrow>
            if length post < 32 then Inl Root_too_short
            else if take 32 post \<noteq> fp_post_state_root p then Inr False else Inr True))"

text \<open>\<open>differs\<close> is the test on the norm of the quantum state built from the difference vector.\<close>

definition verify_state_transition ::
  "grant \<Rightarrow> hash_fun \<Rightarrow> (u64 list \<Rightarrow> bool) \<Rightarrow> 'v fraud_proof \<Rightarrow> root_error + bool" where
  "verify_state_transition grant H differs p =
     (case fst (clone grant H [] (fp_pre_state p)) of Inl e \<Rightarrow> Inl (State_error e) | Inr temp \<Rightarrow>
     (case apply_all grant H (fp_transactions p) [] temp of
        (Inl e, _) \<Rightarrow> Inl (State_error e)
      | (Inr False, _) \<Rightarrow> Inr False
      | (Inr True, temp') \<Rightarrow> Inr (differs (encode_state_diff temp' (fp_post_state p)))))"

definition verify_zkp_proof :: "('v \<Rightarrow> u64 list \<Rightarrow> bool) \<Rightarrow> 'v fraud_proof \<Rightarrow> bool" where
  "verify_zkp_proof zkp p =
     zkp (fp_validity_proof p) (encode_state_diff (fp_pre_state p) (fp_post_state p))"

definition verify_fraud_proof ::
  "grant \<Rightarrow> hash_fun \<Rightarrow> (u64 list \<Rightarrow> bool) \<Rightarrow> ('v \<Rightarrow> u64 list \<Rightarrow> bool) \<Rightarrow> 'v fraud_proof
    \<Rightarrow> root_error + (bool \<times> string)" where
  "verify_fraud_proof grant H differs zkp p =
     (case verify_state_roots grant p of Inl e \<Rightarrow> Inl e
      | Inr False \<Rightarrow> Inr (False, ''State root verification failed'')
      | Inr True \<Rightarrow>
        (case verify_state_transition grant H differs p of Inl e \<Rightarrow> Inl e
         | Inr False \<Rightarrow> Inr (False, ''State transition verification failed'')
         | Inr True \<Rightarrow>
             if \<not> verify_zkp_proof zkp p then Inr (False, ''ZKP verification failed'')
             else Inr (True, ''Fraud proof verified successfully'')))"

definition generate_fraud_proof ::
  "grant \<Rightarrow> hash_fun \<Rightarrow> (u64 list \<Rightarrow> 'v) \<Rightarrow> sm_state \<Rightarrow> sm_state \<Rightarrow> transaction list
    \<Rightarrow> root_error + 'v fraud_proof" where
  "generate_fraud_proof grant H prove pre post txs =
     (case (fst (clone grant H [] pre), fst (clone grant H [] post)) of
        (Inr pre', Inr post') \<Rightarrow>
          (let v = prove (encode_state_diff pre post) in
           case (run_root grant pre, run_root grant post) of
             (Inr a, Inr b) \<Rightarrow>
               if length a < 32 then Inl Root_too_short
               else if length b < 32 then Inl Root_too_short
               else Inr \<lparr>fp_pre_state_root = take 32 a, fp_post_state_root = take 32 b,
                         fp_transactions = txs, fp_pre_state = pre', fp_post_state = post',
                         fp_validity_proof = v\<rparr>
           | _ \<Rightarrow> Inl (State_error Deadlock))
      | _ \<Rightarrow> Inl (State_error Deadlock))"

section \<open>Optimistic proofs\<close>

record 'z optimistic_proof =
  op_zk_proof :: "'z rollup_batch_proof"
  op_challenge_period_end :: u64
  op_has_fraud_proof :: bool

text \<open>\<open>week\<close> is \<^verbatim>\<open>hours(24 * 7)\<close> in ticks of the system clock.\<close>

definition convert_to_optimistic :: "u64 \<Rightarrow> u64 \<Rightarrow> 'z rollup_batch_proof \<Rightarrow> 'z optimistic_proof" where
  "convert_to_optimistic now week zk =
     \<lparr>op_zk_proof = zk, op_challenge_period_end = now + week, op_has_fraud_proof = False\<rparr>"

definition verify_optimistic_proof ::
  "grant \<Rightarrow> hash_fun \<Rightarrow> 'z optimistic_proof \<Rightarrow> sm_state \<Rightarrow> sm_error + bool" where
  "verify_optimistic_proof grant H p s =
     fst (apply_all grant H (rp_transactions (op_zk_proof p)) [] (StateManager_init H))"

definition optimistic_verify_state_transition ::
  "grant \<Rightarrow> hash_fun \<Rightarrow> 'z rollup_batch_proof \<Rightarrow> sm_state \<Rightarrow> sm_error + bool" where
  "optimistic_verify_state_transition grant H p s =
     (case run_root grant s of Inl e \<Rightarrow> Inl e | Inr r \<Rightarrow>
      if length r < 32 then Inr False
      else if rp_pre_state_root p \<noteq> take 32 r then Inr False
      else (case apply_all grant H (rp_transactions p) [] (StateManager_init H) of
              (Inl e, _) \<Rightarrow> Inl e
            | (Inr False, _) \<Rightarrow> Inr False
            | (Inr True, temp) \<Rightarrow>
                (case run_root grant temp of Inl e \<Rightarrow> Inl e | Inr q \<Rightarrow>
                 if length q < 32 then Inr False else Inr (rp_post_state_root p = take 32 q))))"

section \<open>Emergency exit\<close>

record emergency_proof =
  ep_account_address :: string
  ep_signature :: bytes
  ep_timestamp :: u64
  ep_state_root :: bytes

definition emergency_message :: "string \<Rightarrow> u64 \<Rightarrow> bytes \<Rightarrow> bytes" where
  "emergency_message addr ts root = bytes_of_string addr @ u64_bytes ts @ root"

text \<open>\<open>enc b n\<close> stands for the bytes of the amplitudes of \<^verbatim>\<open>encode_state(b, n)\<close>.\<close>

definition EmergencyExit_verify_proof ::
  "grant \<Rightarrow> (u64 \<Rightarrow> u64 \<Rightarrow> bytes) \<Rightarrow> u64 \<Rightarrow> emergency_proof \<Rightarrow> bool sm" where
  "EmergencyExit_verify_proof grant enc now p =
     (if ep_timestamp p > now then sm_return False
      else sm_bind (get_account grant (ep_account_address p)) (\<lambda>acc.
        case acc of None \<Rightarrow> sm_return False
        | Some a \<Rightarrow>
          if enc (acc_balance a) (acc_nonce a) \<noteq> ep_state_root p then sm_return False
          else sm_return (emergency_message (ep_account_address p) (ep_timestamp p) (ep_state_root p)
                          = ep_signature p)))"

definition EmergencyExit_process_exit ::
  "grant \<Rightarrow> (u64 \<Rightarrow> u64 \<Rightarrow> bytes) \<Rightarrow> u64 \<Rightarrow> emergency_proof \<Rightarrow> bool sm" where
  "EmergencyExit_process_exit grant enc now p =
     sm_bind (EmergencyExit_verify_proof grant enc now p) (\<lambda>ok.
       if \<not> ok then sm_return False
       else sm_bind (get_account grant (ep_account_address p)) (\<lambda>acc.
         case acc of None \<Rightarrow> sm_return False
         | Some a \<Rightarrow>
           sm_bind (set_balance grant (ep_account_address p) 0) (\<lambda>ok1.
             if \<not> ok1 then sm_return False
             else sm_bind (set_nonce grant (ep_account_address p) (acc_nonce a + 1)) (\<lambda>ok2.
               if \<not> ok2 then sm_return False else sm_return True))))"

text \<open>\<open>None\<close> is the exception for an unknown account.\<close>

definition EmergencyExit_generate_proof ::
  "grant \<Rightarrow> (u64 \<Rightarrow> u64 \<Rightarrow> bytes) \<Rightarrow> u64 \<Rightarrow> string \<Rightarrow> emergency_proof option sm" where
  "EmergencyExit_generate_proof grant enc now addr =
     sm_bind (get_account grant addr) (\<lambda>acc.
       case acc of None \<Rightarrow> sm_return None
       | Some a \<Rightarrow>
         let root = enc (acc_balance a) (acc_nonce a)
         in sm_return (Some \<lparr>ep_account_address = addr, ep_signature = emergency_message addr now root,
                             ep_timestamp = now, ep_state_root = root\<rparr>))"

section \<open>Lemmas: the byte format\<close>

interpretation vec_codec: byte_codec addVector readVector "\<lambda>v. length v < 2 ^ 32"
proof
  fix x rest :: bytes
  assume "length x < 2 ^ 32"
  then have "unat (of_nat (length x) :: u32) = length x" by (simp add: unat_of_nat)
  then show "readVector (addVector x @ rest) = Some (x, rest)"
    by (simp add: readVector_def addVector_def dec_u32_enc dec_block_append)
qed

definition stp_ok :: "transition_proof \<Rightarrow> bool" where
  "stp_ok p \<longleftrightarrow> length (stp_pre_state_root p) = 32 \<and> length (stp_post_state_root p) = 32
     \<and> length (stp_transactions_root p) = 32 \<and> length (stp_zk_proof p) < 2 ^ 32
     \<and> length (stp_quantum_signature p) < 2 ^ 32"

interpretation stp_codec: byte_codec StateTransitionProof_serialize read_transition_proof stp_ok
proof
  fix p rest assume ok: "stp_ok p"
  let ?a = "stp_pre_state_root p" and ?b = "stp_post_state_root p" and ?c = "stp_transactions_root p"
  define data where "data = StateTransitionProof_serialize p @ rest"
  have data: "data = ?a @ ?b @ ?c @ addVector (stp_zk_proof p) @ addVector (stp_quantum_signature p) @ rest"
    by (simp add: data_def StateTransitionProof_serialize_def)
  have parts: "slice 0 32 data = ?a" "slice 32 32 data = ?b" "slice 64 32 data = ?c"
    using ok by (simp_all add: data slice_def stp_ok_def)
  have "drop 96 data = addVector (stp_zk_proof p) @ addVector (stp_quantum_signature p) @ rest"
    "\<not> length data < 32 * 3"
    using ok by (simp_all add: data stp_ok_def)
  then show "read_transition_proof (StateTransitionProof_serialize p @ rest) = Some (p, rest)"
    unfolding data_def [symmetric]
    using ok by (simp add: read_transition_proof_def parts vec_codec.dec_enc stp_ok_def)
qed

section \<open>Lemmas: applying a batch\<close>

lemma roots_put_note [simp]:
  "current_state_root (put_account k a s) = current_state_root s"
  "current_state_root (note_history k tx s) = current_state_root s"
  "previous_state_root (put_account k a s) = previous_state_root s"
  "previous_state_root (note_history k tx s) = previous_state_root s"
  by (simp_all add: put_account_def note_history_def Let_def)

lemma apply_all_glibc:
  "apply_all glibc_grant H txs held s = (if txs = [] then Inr True else Inl Deadlock, s)"
  by (cases txs) (simp_all add: sm_run sm_bind_run glibc_apply_deadlock)

lemma glibc_queries [simp]:
  "run_root glibc_grant s = Inr (current_state_root s)"
  "fst (get_previous_root glibc_grant [] s) = Inr (previous_state_root s)"
  "fst (clone glibc_grant H [] s) = Inr s"
  by (simp_all add: run_root_def get_state_root_def get_previous_root_def clone_def with_lock_def sm_run
      glibc_grant_def StateManager_init_def)

text \<open>A manager without accounts applies no transaction, whatever the mutex does.\<close>

lemma empty_state_rejects:
  "accounts s = [] \<Longrightarrow> txs \<noteq> [] \<Longrightarrow> fst (apply_all grant H txs held s) \<noteq> Inr True"
  by (cases txs) (auto simp: apply_transaction_def get_account_def with_lock_def sm_run sm_bind_run)

section \<open>Lemmas: state differences\<close>

lemma map_of_sort_alist:
  fixes m :: "(string \<times> 'v) list"
  assumes "distinct (keys m)"
  shows "map_of (sort_key fst m) = map_of m"
proof -
  have "set (sort_key fst m) = set m" by simp
  moreover have "distinct (keys (sort_key fst m))"
  proof -
    have "mset (keys (sort_key fst m)) = mset (keys m)" by simp
    with assms show ?thesis by (metis mset_eq_imp_distinct_iff)
  qed
  ultimately show ?thesis using assms map_of_inject_set by metis
qed

text \<open>An entry without balance and nonce, which the difference cannot tell from a missing one.\<close>

definition ledger_view :: "sm_state \<Rightarrow> string \<Rightarrow> u64 \<times> u64" where
  "ledger_view s k = (case ledger_of s k of Some e \<Rightarrow> e | None \<Rightarrow> (0, 0))"

lemma encode_state_diff_zero:
  assumes "distinct (keys (accounts pre))" "distinct (keys (accounts post))"
  shows "(\<forall>x\<in>set (encode_state_diff pre post). x = 0) \<longleftrightarrow> ledger_view pre = ledger_view post"
proof -
  have m: "map_of (sort_key fst (accounts pre)) = map_of (accounts pre)"
      "map_of (sort_key fst (accounts post)) = map_of (accounts post)"
    using map_of_sort_alist assms by blast+
  have pre: "(k, a) \<in> set (accounts pre) \<longleftrightarrow> map_of (accounts pre) k = Some a"
    and post: "(k, a) \<in> set (accounts post) \<longleftrightarrow> map_of (accounts post) k = Some a" for k a
    using assms by auto
  have flat: "(\<forall>x\<in>set (concat (map f (sort_key fst m))). x = (0 :: u64)) \<longleftrightarrow>
      (\<forall>k a. (k, a) \<in> set m \<longrightarrow> (\<forall>x\<in>set (f (k, a)). x = 0))"
    for f and m :: "(string \<times> sm_account) list"
    by auto
  have "(\<forall>x\<in>set (encode_state_diff pre post). x = 0) \<longleftrightarrow>
    (\<forall>k a. map_of (accounts pre) k = Some a \<longrightarrow>
       (case map_of (accounts post) k of
          Some b \<Rightarrow> acc_balance b = acc_balance a \<and> acc_nonce b = acc_nonce a
        | None \<Rightarrow> acc_balance a = 0 \<and> acc_nonce a = 0))
    \<and> (\<forall>k b. map_of (accounts post) k = Some b \<longrightarrow> map_of (accounts pre) k = None \<longrightarrow>
       acc_balance b = 0 \<and> acc_nonce b = 0)"
    unfolding encode_state_diff_def Let_def m set_append ball_Un flat pre post
    by (simp split: option.split del: map_of_eq_Some_iff) blast
  also have "\<dots> \<longleftrightarrow> (\<forall>k. ledger_view pre k = ledger_view post k)"
  proof (intro iffI allI conjI impI)
    fix k
    assume h: "(\<forall>k a. map_of (accounts pre) k = Some a \<longrightarrow>
       (case map_of (accounts post) k of
          Some b \<Rightarrow> acc_balance b = acc_balance a \<and> acc_nonce b = acc_nonce a
        | None \<Rightarrow> acc_balance a = 0 \<and> acc_nonce a = 0))
    \<and> (\<forall>k b. map_of (accounts post) k = Some b \<longrightarrow> map_of (accounts pre) k = None \<longrightarrow>
       acc_balance b = 0 \<and> acc_nonce b = 0)"
    show "ledger_view pre k = ledger_view post k"
      using h [THEN conjunct1, rule_format, of k] h [THEN conjunct2, rule_format, of k]
      by (cases "map_of (accounts pre) k"; cases "map_of (accounts post) k")
         (simp_all add: ledger_view_def ledger_of_def del: map_of_eq_Some_iff)
  next
    fix k a
    assume "\<forall>k. ledger_view pre k = ledger_view post k" "map_of (accounts pre) k = Some a"
    then show "case map_of (accounts post) k of
          Some b \<Rightarrow> acc_balance b = acc_balance a \<and> acc_nonce b = acc_nonce a
        | None \<Rightarrow> acc_balance a = 0 \<and> acc_nonce a = 0"
      by (auto simp: ledger_view_def ledger_of_def simp del: map_of_eq_Some_iff
          split: option.splits dest!: spec [of _ k])
  next
    fix k b
    assume "\<forall>k. ledger_view pre k = ledger_view post k" "map_of (accounts post) k = Some b"
      "map_of (accounts pre) k = None"
    then show "acc_balance b = 0" "acc_nonce b = 0"
      by (auto simp: ledger_view_def ledger_of_def simp del: map_of_eq_Some_iff dest!: spec [of _ k])
  qed
  finally show ?thesis by (simp add: fun_eq_iff)
qed

section \<open>Properties\<close>

definition sample_proof :: transition_proof where
  "sample_proof = \<lparr>stp_pre_state_root = replicate 32 1, stp_post_state_root = replicate 32 2,
     stp_transactions_root = replicate 32 3, stp_zk_proof = [4, 5], stp_quantum_signature = [6]\<rparr>"

text \<open>Deserialising a serialised transition proof gives it back, whatever bytes follow, for
  every proof with 32-byte roots and vectors shorter than 2^32; hence two such proofs with the
  same bytes are equal.\<close>

theorem transition_proof_roundtrip:
  assumes "stp_ok p"
  shows "StateTransitionProof_deserialize (StateTransitionProof_serialize p @ rest) = Some p
    \<and> (\<forall>q. stp_ok q \<and> StateTransitionProof_serialize q = StateTransitionProof_serialize p \<longrightarrow> q = p)"
  using stp_codec.dec_enc [OF assms, of rest] stp_codec.enc_inj [OF _ assms]
  by (simp add: StateTransitionProof_deserialize_def)

theorem transition_proof_roundtrip_witness:
  "StateTransitionProof_deserialize (StateTransitionProof_serialize sample_proof @ [9]) = Some sample_proof"
  using transition_proof_roundtrip [of sample_proof "[9]"] by (simp add: stp_ok_def sample_proof_def)

text \<open>The proof hash does not separate the two variable-length fields: a non-empty tail of the
  zero-knowledge proof can move to the front of the signature without changing the hash.\<close>

theorem proof_hash_ambiguous:
  "StateTransitionProof_computeHash H (p\<lparr>stp_zk_proof := a @ b, stp_quantum_signature := c\<rparr>)
   = StateTransitionProof_computeHash H (p\<lparr>stp_zk_proof := a, stp_quantum_signature := b @ c\<rparr>)"
  by (simp add: StateTransitionProof_computeHash_def)

text \<open>C35: The verdict of verify_transition with the documented mutex: it rejects when the post state's
  previous root is not the pre state's root; otherwise it throws for every non-empty list of
  transactions, because the replay calls apply_transaction, and for the empty list it accepts
  exactly when the two states have the same root.  So no transition with a transaction is ever
  accepted.\<close>

theorem verify_transition_outcome:
  "verify_transition glibc_grant H pre post txs =
     (if current_state_root pre \<noteq> previous_state_root post then Inr False
      else if txs = [] then Inr (current_state_root pre = current_state_root post)
      else Inl Deadlock)"
  by (simp add: verify_transition_def apply_all_glibc)

text \<open>Fraud detection sees balances and nonces only: the difference vector of two
  states with distinct account keys is zero exactly when every address has the same balance and nonce in both, an absent
  account counting as zero; contract code and storage do not enter it.\<close>

theorem fraud_difference_zero_iff:
  assumes "distinct (keys (accounts pre))" "distinct (keys (accounts post))"
  shows "(\<forall>x\<in>set (encode_state_diff pre post). x = 0) \<longleftrightarrow>
    (\<forall>k. ledger_view pre k = ledger_view post k)"
  using encode_state_diff_zero [OF assms] by (auto simp: fun_eq_iff)

theorem fraud_difference_zero_iff_witness:
  "list_all (\<lambda>x. x = 0) (encode_state_diff demo_state
     (put_account ''A'' ((demo_account ''A'' 100 0)\<lparr>acc_code := [96]\<rparr>) demo_state))"
proof -
  let ?s = "put_account ''A'' ((demo_account ''A'' 100 0)\<lparr>acc_code := [96]\<rparr>) demo_state"
  have d: "distinct (keys (accounts demo_state))" "distinct (keys (accounts ?s))"
    by (simp_all add: demo_state_def put_account_def)
  moreover have "ledger_of ?s = ledger_of demo_state"
    unfolding ledger_of_put by (rule ext) (simp add: ledger_of_def demo_defs)
  ultimately show ?thesis
    using fraud_difference_zero_iff [OF d] by (simp add: ledger_view_def list_all_iff)
qed

text \<open>The optimistic checks replay the batch on an empty state: whatever the mutex does, both return
  true only for an empty batch, whatever state they are given.\<close>

theorem optimistic_accepts_only_empty:
  "(verify_optimistic_proof grant H p s = Inr True \<longleftrightarrow> rp_transactions (op_zk_proof p) = [])
   \<and> (optimistic_verify_state_transition grant H q s = Inr True \<longrightarrow> rp_transactions q = [])"
proof -
  have "accounts (StateManager_init H) = []" by (simp add: StateManager_init_def)
  note no = empty_state_rejects [OF this, of _ grant H "[]"]
  have "verify_optimistic_proof grant H p s = Inr True \<longleftrightarrow> rp_transactions (op_zk_proof p) = []"
    using no [of "rp_transactions (op_zk_proof p)"]
    by (cases "rp_transactions (op_zk_proof p) = []") (simp_all add: verify_optimistic_proof_def sm_run)
  moreover have "rp_transactions q = []" if "optimistic_verify_state_transition grant H q s = Inr True"
    using that no [of "rp_transactions q"]
    by (force simp: optimistic_verify_state_transition_def split: sum.splits if_splits prod.splits bool.splits)
  ultimately show ?thesis by blast
qed

theorem optimistic_accepts_only_empty_witness:
  "verify_optimistic_proof glibc_grant demo_hash
     \<lparr>op_zk_proof = \<lparr>rp_pre_state_root = [], rp_post_state_root = [],
        rp_transactions = [demo_tx ''A'' ''B'' 30 5 1], rp_proof_data = (), rp_timestamp = 0,
        rp_batch_number = 0, rp_batch_hash = []\<rparr>, op_challenge_period_end = 0, op_has_fraud_proof = False\<rparr>
     demo_state \<noteq> Inr True"
  by (simp add: optimistic_accepts_only_empty [THEN conjunct1])

text \<open>An emergency exit needs no secret: for any existing account anyone can assemble, from its
  public balance and nonce, a proof that process_exit accepts; the exit sets the balance to 0,
  advances the nonce by one and changes no other account.\<close>

theorem emergency_exit_forgeable:
  assumes "map_of (accounts s) k = Some a" "ts \<le> now"
    and "p = \<lparr>ep_account_address = k, ep_signature = emergency_message k ts (enc (acc_balance a) (acc_nonce a)),
              ep_timestamp = ts, ep_state_root = enc (acc_balance a) (acc_nonce a)\<rparr>"
  shows "\<exists>s'. EmergencyExit_process_exit glibc_grant enc now p [] s = (Inr True, s')
    \<and> ledger_of s' = (ledger_of s)(k \<mapsto> (0, acc_nonce a + 1))"
proof -
  let ?grant = glibc_grant
  have g: "?grant [] m" for m by (simp add: glibc_grant_def split: lock_mode.split)
  let ?s1 = "put_account k (a\<lparr>acc_balance := 0\<rparr>) s"
  let ?s2 = "put_account k (a\<lparr>acc_balance := 0, acc_nonce := acc_nonce a + 1\<rparr>) ?s1"
  have get: "get_account ?grant k [] s = (Inr (Some a), s)"
    using assms(1) g by (simp add: get_account_def with_lock_def sm_gets_def)
  have "EmergencyExit_verify_proof ?grant enc now p [] s = (Inr True, s)"
    using assms(2,3) get by (simp add: EmergencyExit_verify_proof_def sm_run)
  moreover have "set_balance ?grant k 0 [] s = (Inr True, ?s1)"
    using assms(1) g by (simp add: set_balance_def with_lock_def update_field_def)
  moreover have "set_nonce ?grant k (acc_nonce a + 1) [] ?s1 = (Inr True, ?s2)"
    using g by (simp add: set_nonce_def with_lock_def update_field_def alist_simps)
  ultimately have "EmergencyExit_process_exit ?grant enc now p [] s = (Inr True, ?s2)"
    using assms(3) get by (simp add: EmergencyExit_process_exit_def sm_run)
  moreover have "ledger_of ?s2 = (ledger_of s)(k \<mapsto> (0, acc_nonce a + 1))"
    by (simp add: ledger_of_put)
  ultimately show ?thesis by blast
qed

theorem emergency_exit_forgeable_witness:
  "\<exists>s'. EmergencyExit_process_exit glibc_grant (\<lambda>b n. u64_bytes b @ u64_bytes n) 10
      \<lparr>ep_account_address = ''A'', ep_signature = emergency_message ''A'' 3 (u64_bytes 100 @ u64_bytes 0),
       ep_timestamp = 3, ep_state_root = u64_bytes 100 @ u64_bytes 0\<rparr> [] demo_state = (Inr True, s')
    \<and> ledger_of s' = (ledger_of demo_state)(''A'' \<mapsto> (0, 1))"
  using emergency_exit_forgeable [of demo_state "''A''" "demo_account ''A'' 100 0" 3 10 _
      "\<lambda>b n. u64_bytes b @ u64_bytes n", OF _ _ refl]
  by simp

end
