(* ===== verification/Rollup_Bridges.thy ===== *)
theory Rollup_Bridges
  imports QPrelude
begin

text \<open>
  The rollup's connections to other chains: commitments and messages of the L1 bridge
  (\<^verbatim>\<open>L1Bridge.cpp\<close>), the message register of the cross-rollup bridge
  (\<^verbatim>\<open>CrossRollupBridge.cpp\<close>) and the Merkle tree of the proof aggregator
  (\<^verbatim>\<open>ProofAggregator.cpp\<close>), all under \<^verbatim>\<open>src/src/rollup\<close>.  The hash is an argument; a
  failing OpenSSL call is not modelled.
\<close>

section \<open>L1 bridge\<close>

record l1_commitment =
  lc_state_root :: bytes
  lc_batch_hash :: bytes
  lc_batch_size :: u64
  lc_aggregated_proof :: bytes

text \<open>\<^verbatim>\<open>memcmp\<close> over 32 bytes reads past the end of a shorter proof.\<close>

datatype bridge_error = Over_read

definition L1Bridge_verify_commitment :: "hash_fun \<Rightarrow> l1_commitment \<Rightarrow> bridge_error + bool" where
  "L1Bridge_verify_commitment H c =
     (if size_t (lc_aggregated_proof c) \<noteq> lc_batch_size c * 32 then Inr False
      else if \<not> (list_ex (\<lambda>i. lc_state_root c ! i \<noteq> 0 \<or> lc_batch_hash c ! i \<noteq> 0) [0..<32]) then Inr False
      else
        let expected = H (lc_state_root c @ lc_batch_hash c)
        in if length (lc_aggregated_proof c) < 32 then Inl Over_read
           else Inr (take 32 expected = take 32 (lc_aggregated_proof c)))"

definition L1Bridge_send_message_to_l2 :: "bytes \<Rightarrow> bytes list \<Rightarrow> bytes list" where
  "L1Bridge_send_message_to_l2 message pending = pending @ [message]"

fun L1Bridge_process_l2_messages :: "bytes list \<Rightarrow> bytes list" where
  "L1Bridge_process_l2_messages [] = []"
| "L1Bridge_process_l2_messages (m # pending) = L1Bridge_process_l2_messages pending"

section \<open>Cross-rollup bridge\<close>

record 'v cross_message =
  cm_source_chain_id :: u32
  cm_destination_chain_id :: u32
  cm_payload :: bytes
  cm_validity_proof :: 'v

definition message_bytes :: "'v cross_message \<Rightarrow> bytes" where
  "message_bytes m =
     u32_bytes (cm_source_chain_id m) @ u32_bytes (cm_destination_chain_id m) @ cm_payload m"

definition compute_message_hash :: "hash_fun \<Rightarrow> 'v cross_message \<Rightarrow> bytes" where
  "compute_message_hash H m = H (message_bytes m)"

definition CrossRollupBridge_send_message ::
  "hash_fun \<Rightarrow> 'v cross_message \<Rightarrow> bytes list \<Rightarrow> bytes list" where
  "CrossRollupBridge_send_message H m hashes = hashes @ [compute_message_hash H m]"

definition CrossRollupBridge_verify_incoming_message ::
  "hash_fun \<Rightarrow> 'v cross_message \<Rightarrow> bytes list \<Rightarrow> bool" where
  "CrossRollupBridge_verify_incoming_message H m hashes = (compute_message_hash H m \<in> set hashes)"

section \<open>Proof aggregation\<close>

text \<open>
  One level of the tree, computed in place: slot \<open>i\<close> receives the hash of slots \<open>2 i\<close>
  and \<open>2 i + 1\<close>, which no earlier iteration has overwritten.
\<close>

fun merkle_pairs :: "hash_fun \<Rightarrow> nat \<Rightarrow> nat \<Rightarrow> bytes list \<Rightarrow> bytes list" where
  "merkle_pairs H 0 i hs = hs"
| "merkle_pairs H (Suc n) i hs =
     merkle_pairs H n (i + 1) (hs[i := H (hs ! (2 * i) @ hs ! (2 * i + 1))])"

definition merkle_level :: "hash_fun \<Rightarrow> bytes list \<Rightarrow> bytes list" where
  "merkle_level H hs =
     (let pairs = length hs div 2; hs' = merkle_pairs H pairs 0 hs
      in if length hs mod 2 = 1 then take (pairs + 1) (hs'[pairs := last hs'])
         else take pairs hs')"

lemma length_merkle_pairs [simp]: "length (merkle_pairs H n i hs) = length hs"
  by (induction n arbitrary: i hs) simp_all

lemma length_merkle_level: "length (merkle_level H hs) = (length hs + 1) div 2"
  by (simp add: merkle_level_def Let_def) presburger

function merkle_loop :: "hash_fun \<Rightarrow> bytes list \<Rightarrow> bytes list" where
  "merkle_loop H hs = (if length hs > 1 then merkle_loop H (merkle_level H hs) else hs)"
  by pat_completeness auto
termination
  by (relation "measure (\<lambda>(H, hs). length hs)") (auto simp: length_merkle_level)

declare merkle_loop.simps [simp del]

definition compute_proof_merkle_root :: "hash_fun \<Rightarrow> bytes list \<Rightarrow> bytes" where
  "compute_proof_merkle_root H proofs = merkle_loop H (map H proofs) ! 0"

text \<open>\<open>None\<close> is the exception for an empty list.\<close>

definition aggregate_proofs :: "hash_fun \<Rightarrow> bytes list \<Rightarrow> bytes option" where
  "aggregate_proofs H proofs =
     (if proofs = [] then None
      else Some (concat proofs @ compute_proof_merkle_root H proofs))"

definition verify_aggregated_proof :: "hash_fun \<Rightarrow> bytes \<Rightarrow> bytes list \<Rightarrow> bool" where
  "verify_aggregated_proof H aggregated originals =
     (if originals = [] \<or> length aggregated < 32 then False
      else drop (length aggregated - 32) aggregated = compute_proof_merkle_root H originals)"

section \<open>Lemmas\<close>

text \<open>The reference: hash neighbours in pairs, carry an odd last element.\<close>

fun pair_up :: "hash_fun \<Rightarrow> bytes list \<Rightarrow> bytes list" where
  "pair_up H (a # b # hs) = H (a @ b) # pair_up H hs"
| "pair_up H hs = hs"

lemma length_pair_up: "length (pair_up H hs) = (length hs + 1) div 2"
  by (induction H hs rule: pair_up.induct) simp_all

function merkle_reference :: "hash_fun \<Rightarrow> bytes list \<Rightarrow> bytes" where
  "merkle_reference H hs = (if length hs > 1 then merkle_reference H (pair_up H hs) else hs ! 0)"
  by pat_completeness auto
termination
  by (relation "measure (\<lambda>(H, hs). length hs)") (auto simp: length_pair_up)

declare merkle_reference.simps [simp del]

lemma merkle_pairs_nth:
  assumes "2 * (i + n) \<le> length hs"
  shows "merkle_pairs H n i hs =
    take i hs @ map (\<lambda>j. H (hs ! (2 * j) @ hs ! (2 * j + 1))) [i..<i + n] @ drop (i + n) hs"
  using assms
proof (induction n arbitrary: i hs)
  case (Suc n)
  let ?v = "H (hs ! (2 * i) @ hs ! (2 * i + 1))"
  let ?hs = "hs[i := ?v]"
  have i: "i < length hs" using Suc.prems by simp
  have "merkle_pairs H (Suc n) i hs = take (i + 1) ?hs
      @ map (\<lambda>j. H (?hs ! (2 * j) @ ?hs ! (2 * j + 1))) [i + 1..<i + 1 + n] @ drop (i + 1 + n) ?hs"
    using Suc.IH [of "i + 1" ?hs] Suc.prems by simp
  also have "map (\<lambda>j. H (?hs ! (2 * j) @ ?hs ! (2 * j + 1))) [i + 1..<i + 1 + n]
      = map (\<lambda>j. H (hs ! (2 * j) @ hs ! (2 * j + 1))) [i + 1..<i + 1 + n]"
    by (rule map_cong) auto
  also have "take (i + 1) ?hs = take i hs @ [?v]"
    using i by (simp add: take_Suc_conv_app_nth)
  finally show ?case
    using i by (simp add: upt_rec [of i])
qed simp

lemma pair_up_nth:
  "pair_up H hs = map (\<lambda>j. H (hs ! (2 * j) @ hs ! (2 * j + 1))) [0..<length hs div 2]
     @ (if length hs mod 2 = 1 then [last hs] else [])"
proof (induction H hs rule: pair_up.induct)
  case (1 H a b hs)
  have "map (\<lambda>j. H ((a # b # hs) ! (2 * j) @ (a # b # hs) ! (2 * j + 1))) [0..<Suc (length hs div 2)]
      = H (a @ b) # map (\<lambda>j. H (hs ! (2 * j) @ hs ! (2 * j + 1))) [0..<length hs div 2]"
    by (simp add: map_upt_Suc del: upt_Suc)
  moreover have "length hs mod 2 = 1 \<Longrightarrow> hs \<noteq> []" by auto
  ultimately show ?case using 1 by (auto simp del: upt_Suc)
qed simp_all

lemma merkle_level_pair_up: "merkle_level H hs = pair_up H hs"
proof -
  let ?n = "length hs div 2"
  define m where "m = map (\<lambda>j. H (hs ! (2 * j) @ hs ! Suc (2 * j))) [0..<?n]"
  have p: "merkle_pairs H ?n 0 hs = m @ drop ?n hs"
    using merkle_pairs_nth [of 0 ?n hs H] by (simp add: m_def)
  have len: "length m = ?n" by (simp add: m_def)
  show ?thesis
  proof (cases "length hs mod 2 = 1")
    case True
    then have "?n < length hs" "drop ?n hs \<noteq> []" "last (drop ?n hs) = last hs" by auto
    moreover from this have "(m @ drop ?n hs)[?n := last hs] = m @ (drop ?n hs)[0 := last hs]"
      by (simp add: list_update_append len)
    moreover have "take (?n + 1) (m @ (drop ?n hs)[0 := last hs]) = m @ [last hs]"
      using \<open>drop ?n hs \<noteq> []\<close> len by (cases "drop ?n hs") simp_all
    ultimately show ?thesis
      using True by (simp add: merkle_level_def Let_def p pair_up_nth m_def [symmetric])
  next
    case False
    then show ?thesis by (simp add: merkle_level_def Let_def p pair_up_nth m_def [symmetric] len)
  qed
qed

lemma merkle_loop_reference: "merkle_loop H hs ! 0 = merkle_reference H hs"
proof (induction H hs rule: merkle_loop.induct)
  case (1 H hs)
  then show ?case
    by (subst merkle_loop.simps, subst merkle_reference.simps) (simp add: merkle_level_pair_up)
qed

lemma merkle_loop_single: "hs \<noteq> [] \<Longrightarrow> \<exists>r. merkle_loop H hs = [r]"
proof (induction H hs rule: merkle_loop.induct)
  case (1 H hs)
  show ?case
  proof (cases "length hs > 1")
    case True
    then have "merkle_level H hs \<noteq> []" using length_merkle_level [of H hs] by force
    with 1 True show ?thesis by (subst merkle_loop.simps) simp
  next
    case False
    then have "length hs = 1" using 1(2) by (cases hs) auto
    then show ?thesis by (subst merkle_loop.simps) (auto simp: length_Suc_conv)
  qed
qed

lemma pair_up_in_image: "set (pair_up H hs) \<subseteq> range H \<union> set hs"
  by (induction H hs rule: pair_up.induct) auto

lemma merkle_loop_in_image: "set hs \<subseteq> range H \<Longrightarrow> set (merkle_loop H hs) \<subseteq> range H"
proof (induction H hs rule: merkle_loop.induct)
  case (1 H hs)
  have "set (merkle_level H hs) \<subseteq> range H"
    using pair_up_in_image [of H hs] 1(2) by (auto simp: merkle_level_pair_up)
  with 1 show ?case by (subst merkle_loop.simps) auto
qed

lemma merkle_root_in_image: "proofs \<noteq> [] \<Longrightarrow> compute_proof_merkle_root H proofs \<in> range H"
proof -
  assume "proofs \<noteq> []"
  then obtain r where r: "merkle_loop H (map H proofs) = [r]"
    using merkle_loop_single [of "map H proofs" H] by auto
  have "set (merkle_loop H (map H proofs)) \<subseteq> range H"
    by (rule merkle_loop_in_image) auto
  with r show ?thesis by (simp add: compute_proof_merkle_root_def)
qed

lemma message_bytes_eq_iff:
  "message_bytes m = message_bytes m' \<longleftrightarrow> cm_source_chain_id m' = cm_source_chain_id m
     \<and> cm_destination_chain_id m' = cm_destination_chain_id m \<and> cm_payload m' = cm_payload m"
  unfolding message_bytes_def using u32_codec.enc_append_inj by (auto 0 3)

lemma fold_send_message:
  "fold (CrossRollupBridge_send_message H) sent hs = hs @ map (compute_message_hash H) sent"
  by (induction sent arbitrary: hs) (simp_all add: CrossRollupBridge_send_message_def)

section \<open>Properties\<close>

text \<open>C20: The in-place Merkle tree is the textbook one: the loop that overwrites the array of hashes
  it is still reading computes the root obtained by repeatedly replacing a list of hashes with
  the hashes of its neighbouring pairs, an odd last element carried over.\<close>

theorem merkle_root_correct: "compute_proof_merkle_root H proofs = merkle_reference H (map H proofs)"
  unfolding compute_proof_merkle_root_def by (rule merkle_loop_reference)

text \<open>Aggregation is complete: with a hash of 32 bytes, the aggregate of any non-empty list of
  proofs exists and passes verify_aggregated_proof against that list.\<close>

theorem aggregate_verifies:
  assumes "\<And>x. length (H x) = 32" "proofs \<noteq> []"
  shows "\<exists>agg. aggregate_proofs H proofs = Some agg \<and> verify_aggregated_proof H agg proofs"
proof -
  have "length (compute_proof_merkle_root H proofs) = 32"
    using merkle_root_in_image [OF assms(2), of H] assms(1) by auto
  then show ?thesis
    using assms(2) by (simp add: aggregate_proofs_def verify_aggregated_proof_def)
qed

theorem aggregate_verifies_witness:
  "\<exists>agg. aggregate_proofs (\<lambda>x. take 32 (x @ replicate 32 0)) [[1], [2, 3], []] = Some agg
     \<and> verify_aggregated_proof (\<lambda>x. take 32 (x @ replicate 32 0)) agg [[1], [2, 3], []]"
  by (rule aggregate_verifies) simp_all

text \<open>The cross-rollup bridge accepts exactly what was sent: where the hash has no collision
  among the messages at hand, a message passes if and only if a message with the same chain ids
  and payload was registered; the validity proof it carries plays no part.\<close>

theorem cross_bridge_accepts_sent:
  fixes m :: "'v cross_message" and sent :: "'v cross_message list"
  assumes "inj_on H (insert (message_bytes m) (message_bytes ` set sent))"
  shows "CrossRollupBridge_verify_incoming_message H m
      (fold (CrossRollupBridge_send_message H) sent []) \<longleftrightarrow>
    (\<exists>m'\<in>set sent. cm_source_chain_id m' = cm_source_chain_id m
       \<and> cm_destination_chain_id m' = cm_destination_chain_id m \<and> cm_payload m' = cm_payload m)"
proof -
  have "compute_message_hash H m = compute_message_hash H m' \<longleftrightarrow> message_bytes m = message_bytes m'"
    if "m' \<in> set sent" for m'
    unfolding compute_message_hash_def using that by (intro inj_on_eq_iff [OF assms]) auto
  then show ?thesis
    unfolding CrossRollupBridge_verify_incoming_message_def fold_send_message
    by (auto simp: message_bytes_eq_iff)
qed

theorem cross_bridge_accepts_sent_witness:
  "CrossRollupBridge_verify_incoming_message (\<lambda>x. x)
     \<lparr>cm_source_chain_id = 1, cm_destination_chain_id = 2, cm_payload = [7], cm_validity_proof = 0 :: nat\<rparr>
     (fold (CrossRollupBridge_send_message (\<lambda>x. x))
       [\<lparr>cm_source_chain_id = 1, cm_destination_chain_id = 2, cm_payload = [7],
         cm_validity_proof = 5 :: nat\<rparr>] [])"
  by (subst cross_bridge_accepts_sent) simp_all

text \<open>A commitment for an empty batch makes the L1 bridge read past its proof: when the batch
  size is 0, the proof is empty and a root is not zero, the comparison of 32 bytes starts on an
  empty buffer; for batch sizes from 1 to 2^58 no such read happens.\<close>

theorem commitment_over_read:
  assumes "size_t (lc_aggregated_proof c) = lc_batch_size c * 32"
    and "length (lc_aggregated_proof c) < 2 ^ 64" "unat (lc_batch_size c) \<le> 2 ^ 58"
    and "i < 32" "lc_state_root c ! i \<noteq> 0"
  shows "L1Bridge_verify_commitment H c = Inl Over_read \<longleftrightarrow> lc_batch_size c = 0"
proof -
  have "unat (lc_batch_size c * 32) = unat (lc_batch_size c) * 32"
    using assms(3) by (simp add: unat_word_ariths)
  then have len: "length (lc_aggregated_proof c) = unat (lc_batch_size c) * 32"
    using assms(1,2) unat_size_t by metis
  have "list_ex (\<lambda>i. lc_state_root c ! i \<noteq> 0 \<or> lc_batch_hash c ! i \<noteq> 0) [0..<32]"
    using assms(4,5) by (auto simp: list_ex_iff)
  then have "L1Bridge_verify_commitment H c = Inl Over_read \<longleftrightarrow> length (lc_aggregated_proof c) < 32"
    using assms(1) unfolding L1Bridge_verify_commitment_def Let_def by simp
  also have "\<dots> \<longleftrightarrow> lc_batch_size c = 0"
    using len by (simp add: unat_eq_0)
  finally show ?thesis .
qed

theorem commitment_over_read_witness:
  "L1Bridge_verify_commitment (\<lambda>x. x) \<lparr>lc_state_root = replicate 32 1, lc_batch_hash = replicate 32 0,
      lc_batch_size = 0, lc_aggregated_proof = []\<rparr> = Inl Over_read"
  by (subst commitment_over_read [where i = 0]) simp_all

end
