(* ===== verification/Rollup_Queues.thy ===== *)
theory Rollup_Queues
  imports State_Laws EVM_Machine
begin

text \<open>
  The rollup's work queues: the batch processor (\<^verbatim>\<open>BatchProcessor.cpp\<close>), the transaction API
  (\<^verbatim>\<open>RollupTransactionAPI.cpp\<close>) and the parallel processor (\<^verbatim>\<open>ParallelProcessor.cpp\<close>) of
  \<^verbatim>\<open>src/src/rollup\<close>.  Each critical section is one step; a wait on a condition variable is a
  step that is only taken when its condition holds.  Floating-point performance figures are left
  out of the states.
\<close>

section \<open>Queue contract\<close>

text \<open>A submission is answered and may change the state; a worker takes the next item, if any.\<close>

datatype 'i queue_op = Submit 'i | Take

fun queue_run ::
  "('i \<Rightarrow> 's \<Rightarrow> bool \<times> 's) \<Rightarrow> ('s \<Rightarrow> ('a \<times> 's) option) \<Rightarrow> 'i queue_op list \<Rightarrow> 's \<Rightarrow> 'i list \<times> 'a list \<times> 's" where
  "queue_run submit next [] s = ([], [], s)"
| "queue_run submit next (Submit i # ops) s =
     (let (ok, s') = submit i s; (acc, out, s'') = queue_run submit next ops s'
      in (if ok then i # acc else acc, out, s''))"
| "queue_run submit next (Take # ops) s =
     (case next s of
        None \<Rightarrow> queue_run submit next ops s
      | Some (x, s') \<Rightarrow> let (acc, out, s'') = queue_run submit next ops s' in (acc, x # out, s''))"

text \<open>Items that \<open>counts\<close> selects are only accepted while there is room.\<close>

locale work_queue =
  fixes submit :: "'i \<Rightarrow> 's \<Rightarrow> bool \<times> 's"
    and next_item :: "'s \<Rightarrow> ('a \<times> 's) option"
    and contents :: "'s \<Rightarrow> 'a list"
    and item :: "'i \<Rightarrow> 'a"
    and capacity :: "'s \<Rightarrow> nat"
    and counts :: "'a \<Rightarrow> bool"
  assumes submit_accepts: "submit i s = (True, s') \<Longrightarrow>
      contents s' = contents s @ [item i] \<and> (counts (item i) \<longrightarrow> length (contents s) < capacity s)
      \<and> capacity s' = capacity s"
    and submit_rejects: "submit i s = (False, s') \<Longrightarrow> s' = s"
    and next_front: "next_item s = Some (x, s') \<Longrightarrow> contents s = x # contents s' \<and> capacity s' = capacity s"
begin

lemma run_spec:
  assumes "queue_run submit next_item ops s = (acc, out, s')"
  shows "contents s @ map item acc = out @ contents s' \<and> capacity s' = capacity s
    \<and> (length (filter counts (contents s)) \<le> capacity s
        \<longrightarrow> length (filter counts (contents s')) \<le> capacity s)"
  using assms
proof (induction ops arbitrary: s acc out s')
  case (Cons p ops)
  show ?case
  proof (cases p)
    case (Submit i)
    obtain ok t where t: "submit i s = (ok, t)" by fastforce
    obtain acc' out' u where u: "queue_run submit next_item ops t = (acc', out', u)"
      by (metis prod.exhaust)
    show ?thesis
      using Cons.IH [OF u] Cons.prems submit_accepts [of i s t] submit_rejects [of i s t]
        le_less_trans [OF length_filter_le, of "contents s" "capacity s" counts]
      by (cases ok) (auto simp: Submit t u split: if_splits)
  next
    case Take
    show ?thesis
    proof (cases "next_item s")
      case None
      with Cons show ?thesis by (simp add: Take)
    next
      case (Some xt)
      obtain x t where x: "xt = (x, t)" by fastforce
      obtain acc' out' u where u: "queue_run submit next_item ops t = (acc', out', u)"
        by (metis prod.exhaust)
      show ?thesis
        using Cons.IH [OF u] Cons.prems next_front [of s x t]
        by (auto simp: Take Some x u split: if_splits)
    qed
  qed
qed simp

lemma run_accepted:
  assumes "queue_run submit next_item ops s = (acc, out, s')" "\<And>i s s'. submit i s = (True, s') \<Longrightarrow> Q i"
  shows "list_all Q acc"
  using assms(1)
proof (induction ops arbitrary: s acc out s')
  case (Cons p ops)
  then show ?case
    by (cases p) (auto split: prod.splits option.splits if_splits intro: assms(2))
qed simp

end

section \<open>Transaction API\<close>

record transaction_batch =
  tb_transactions :: "transaction list"
  tb_batch_id :: u64
  tb_timestamp :: u64
  tb_validator :: string
  tb_merkle_root :: bytes

text \<open>
  \<open>api_workers\<close> counts the threads that still run their loop.
\<close>

record api_state =
  batch_queue :: "transaction_batch list"
  api_should_stop :: bool
  api_workers :: nat

definition MAX_QUEUE_SIZE :: nat where "MAX_QUEUE_SIZE = 1000"


definition is_overloaded :: "api_state \<Rightarrow> bool" where
  "is_overloaded s = (length (batch_queue s) \<ge> MAX_QUEUE_SIZE)"

definition validate_transaction_with_message :: "transaction \<Rightarrow> api_state \<Rightarrow> string" where
  "validate_transaction_with_message tx s =
     (if getSender tx = [] then ''Invalid sender address''
      else if getRecipient tx = [] then ''Invalid recipient address''
      else if tx_value tx = 0 then ''Transaction value cannot be zero''
      else if tx_signature tx = [] then ''Missing transaction signature''
      else if is_overloaded s then ''System is currently overloaded''
      else [])"

definition api_validate_transaction :: "transaction \<Rightarrow> api_state \<Rightarrow> bool" where
  "api_validate_transaction tx s = (validate_transaction_with_message tx s = [])"


definition submit_batch :: "u64 \<Rightarrow> transaction list \<Rightarrow> api_state \<Rightarrow> bool \<times> api_state" where
  "submit_batch now txs s =
     (if list_ex (\<lambda>tx. \<not> api_validate_transaction tx s) txs then (False, s)
      else (True, s\<lparr>batch_queue := batch_queue s @
              [\<lparr>tb_transactions = txs, tb_batch_id = 0, tb_timestamp = now, tb_validator = [], tb_merkle_root = []\<rparr>]\<rparr>))"

definition start_processing :: "api_state \<Rightarrow> api_state" where
  "start_processing s = s\<lparr>api_should_stop := False\<rparr>"

definition stop_processing :: "api_state \<Rightarrow> api_state" where
  "stop_processing s = s\<lparr>api_should_stop := True\<rparr>"



definition api_worker_exit :: "api_state \<Rightarrow> api_state option" where
  "api_worker_exit s =
     (if api_should_stop s \<and> api_workers s > 0 then Some (s\<lparr>api_workers := api_workers s - 1\<rparr>) else None)"

section \<open>Batch processor\<close>

record batch_config =
  max_batch_size :: nat
  min_batch_size :: nat

record batch_processor =
  bp_pending :: "transaction list"
  bp_config :: batch_config
  bp_should_stop :: bool

definition BatchProcessor_submit_transaction :: "transaction \<Rightarrow> batch_processor \<Rightarrow> batch_processor" where
  "BatchProcessor_submit_transaction tx s = s\<lparr>bp_pending := bp_pending s @ [tx]\<rparr>"

definition BatchProcessor_stop :: "batch_processor \<Rightarrow> batch_processor" where
  "BatchProcessor_stop s = s\<lparr>bp_should_stop := True\<rparr>"

text \<open>The loop that moves transactions from the queue to the batch.\<close>

fun fill_batch :: "nat \<Rightarrow> transaction list \<Rightarrow> transaction list \<Rightarrow> transaction list \<times> transaction list" where
  "fill_batch limit [] batch = (batch, [])"
| "fill_batch limit (tx # pending) batch =
     (if length batch < limit then fill_batch limit pending (batch @ [tx]) else (batch, tx # pending))"

text \<open>
  \<^verbatim>\<open>wait_for\<close> returns when the minimum is reached, on stop or on timeout; what follows does not
  depend on which of them it was.
\<close>

definition create_batch :: "batch_processor \<Rightarrow> transaction list \<times> batch_processor" where
  "create_batch s =
     (if bp_should_stop s \<or> bp_pending s = [] then ([], s)
      else let (batch, rest) = fill_batch (max_batch_size (bp_config s)) (bp_pending s) []
           in (batch, s\<lparr>bp_pending := rest\<rparr>))"

fun apply_each :: "grant \<Rightarrow> hash_fun \<Rightarrow> transaction list \<Rightarrow> unit sm" where
  "apply_each grant H [] = sm_return ()"
| "apply_each grant H (tx # txs) =
     sm_bind (apply_transaction grant H tx) (\<lambda>success. apply_each grant H txs)"

definition BatchProcessor_process_batch ::
  "grant \<Rightarrow> hash_fun \<Rightarrow> batch_processor \<Rightarrow> sm_state \<Rightarrow> (sm_error + unit) \<times> batch_processor \<times> sm_state" where
  "BatchProcessor_process_batch grant H bp s =
     (let (batch, bp') = create_batch bp
      in if batch = [] then (Inr (), bp', s)
         else let (r, s') = apply_each grant H batch [] s in (r, bp', s'))"

section \<open>Parallel processor\<close>

record par_account =
  pa_balance :: u64
  pa_nonce :: u64
  pa_pending :: "transaction list"

record contract_call =
  cc_contract_address :: evm_address
  cc_input :: bytes
  cc_gas_limit :: u64

record contract_state =
  cs_balance :: u64
  cs_code :: bytes
  cs_storage :: "(string \<times> bytes) list"
  cs_is_executing :: bool
  cs_pending_calls :: "contract_call list"

text \<open>The members of \<^verbatim>\<open>ParallelProcessor::Impl\<close>; the maps create default entries on access.\<close>

record par_impl =
  failed_transactions :: u64
  failed_contracts :: u64
  contract_queue :: "contract_call list"
  contract_states :: "evm_address \<rightharpoonup> contract_state"
  account_states :: "string \<rightharpoonup> par_account"

text \<open>
  \<open>pp_impl\<close> is the owning pointer (\<open>None\<close>: null) and \<open>pp_current\<close> the static counter of
  \<^verbatim>\<open>getAvailableExecutor\<close>.
\<close>

record par_state =
  pp_should_stop :: bool
  pp_max_queue_size :: nat
  transaction_queue :: "transaction list"
  evm_executors :: "evm_state list"
  pp_current :: nat
  pp_impl :: "par_impl option"

datatype par_error = Null_impl | No_executor

definition ParallelProcessor_init :: "nat \<Rightarrow> par_state" where
  "ParallelProcessor_init batch_size =
     \<lparr>pp_should_stop = False, pp_max_queue_size = batch_size, transaction_queue = [],
      evm_executors = [], pp_current = 0, pp_impl = None\<rparr>"

definition par_start :: "par_state \<Rightarrow> par_state" where
  "par_start s = s\<lparr>pp_should_stop := False\<rparr>"

definition par_stop :: "par_state \<Rightarrow> par_state" where
  "par_stop s = s\<lparr>pp_should_stop := True\<rparr>"

definition par_submitTransaction :: "transaction \<Rightarrow> par_state \<Rightarrow> bool \<times> par_state" where
  "par_submitTransaction tx s =
     (if pp_should_stop s then (False, s)
      else if length (transaction_queue s) \<ge> pp_max_queue_size s then (False, s)
      else (True, s\<lparr>transaction_queue := transaction_queue s @ [tx]\<rparr>))"

definition par_next :: "par_state \<Rightarrow> (transaction \<times> par_state) option" where
  "par_next s =
     (if pp_should_stop s then None
      else case transaction_queue s of
             [] \<Rightarrow> None | tx # txs \<Rightarrow> Some (tx, s\<lparr>transaction_queue := txs\<rparr>))"

definition account_state_of :: "string \<Rightarrow> par_impl \<Rightarrow> par_account" where
  "account_state_of a p = (case account_states p a of
     None \<Rightarrow> \<lparr>pa_balance = 0, pa_nonce = 0, pa_pending = []\<rparr> | Some x \<Rightarrow> x)"

definition update_transaction_metric :: "bool \<Rightarrow> par_impl \<Rightarrow> par_impl" where
  "update_transaction_metric success p =
     (if success then p else p\<lparr>failed_transactions := failed_transactions p + 1\<rparr>)"

definition update_contract_metric :: "bool \<Rightarrow> par_impl \<Rightarrow> par_impl" where
  "update_contract_metric success p =
     (if success then p else p\<lparr>failed_contracts := failed_contracts p + 1\<rparr>)"

text \<open>The effect on the account of the sender, and whether it counts as a success.\<close>

definition process_account :: "transaction \<Rightarrow> par_account \<Rightarrow> bool \<times> par_account" where
  "process_account tx a =
     (if tx_nonce tx = pa_nonce a then (True, a\<lparr>pa_nonce := pa_nonce a + 1\<rparr>)
      else if tx_nonce tx > pa_nonce a then (False, a\<lparr>pa_pending := pa_pending a @ [tx]\<rparr>)
      else (False, a))"

definition impl_processTransaction :: "transaction \<Rightarrow> par_impl \<Rightarrow> bool \<times> par_impl" where
  "impl_processTransaction tx p =
     (let (success, a) = process_account tx (account_state_of (getSender tx) p)
      in (success, update_transaction_metric success
            (p\<lparr>account_states := (account_states p)(getSender tx \<mapsto> a)\<rparr>)))"

definition processTransaction :: "transaction \<Rightarrow> par_state \<Rightarrow> par_error + (bool \<times> par_state)" where
  "processTransaction tx s =
     (case pp_impl s of
        None \<Rightarrow> Inl Null_impl
      | Some p \<Rightarrow> let (ok, p') = impl_processTransaction tx p in Inr (ok, s\<lparr>pp_impl := Some p'\<rparr>))"

text \<open>The tasks of a batch, in the order in which they happen to run.\<close>

fun impl_processBatch :: "transaction list \<Rightarrow> par_impl \<Rightarrow> bool \<times> par_impl" where
  "impl_processBatch [] p = (True, p)"
| "impl_processBatch (tx # txs) p =
     (let (ok, p') = impl_processTransaction tx p; (all_success, p'') = impl_processBatch txs p'
      in (ok \<and> all_success, p''))"

definition hasDependency :: "transaction \<Rightarrow> transaction \<Rightarrow> bool" where
  "hasDependency tx1 tx2 =
     (getSender tx1 = getSender tx2 \<or> getSender tx1 = getRecipient tx2 \<or> getRecipient tx1 = getSender tx2)"

text \<open>The inner loop over the later transactions and the outer loop of \<^verbatim>\<open>createIndependentBatches\<close>.\<close>

fun gather :: "transaction list \<Rightarrow> nat list \<Rightarrow> transaction list \<Rightarrow> bool list \<Rightarrow> transaction list \<times> bool list" where
  "gather txs [] batch assigned = (batch, assigned)"
| "gather txs (j # js) batch assigned =
     (if assigned ! j then gather txs js batch assigned
      else if list_ex (\<lambda>tx. hasDependency tx (txs ! j)) batch then gather txs js batch assigned
      else gather txs js (batch @ [txs ! j]) (assigned[j := True]))"

fun batches_from :: "transaction list \<Rightarrow> nat list \<Rightarrow> bool list \<Rightarrow> transaction list list" where
  "batches_from txs [] assigned = []"
| "batches_from txs (i # is) assigned =
     (if assigned ! i then batches_from txs is assigned
      else let (batch, assigned') = gather txs [i + 1..<length txs] [txs ! i] (assigned[i := True])
           in batch # batches_from txs is assigned')"

definition createIndependentBatches :: "transaction list \<Rightarrow> transaction list list" where
  "createIndependentBatches txs = batches_from txs [0..<length txs] (replicate (length txs) False)"

text \<open>\<^verbatim>\<open>submitBatch\<close> and \<^verbatim>\<open>processBatch\<close>, the sub-batches and their tasks run one after the other.\<close>

definition submitBatch :: "transaction list \<Rightarrow> par_state \<Rightarrow> par_error + (bool \<times> par_state)" where
  "submitBatch batch s =
     (if pp_should_stop s then Inr (False, s)
      else if batch = [] then Inr (True, s)
      else case pp_impl s of
             None \<Rightarrow> Inl Null_impl
           | Some p \<Rightarrow> let (ok, p') = impl_processBatch (concat (createIndependentBatches batch)) p
                       in Inr (ok, s\<lparr>pp_impl := Some p'\<rparr>))"

definition contract_state_of :: "evm_address \<Rightarrow> par_impl \<Rightarrow> contract_state" where
  "contract_state_of a p = (case contract_states p a of
     None \<Rightarrow> \<lparr>cs_balance = 0, cs_code = [], cs_storage = [], cs_is_executing = False, cs_pending_calls = []\<rparr> | Some c \<Rightarrow> c)"

definition set_contract_state :: "evm_address \<Rightarrow> contract_state \<Rightarrow> par_impl \<Rightarrow> par_impl" where
  "set_contract_state a c p = p\<lparr>contract_states := (contract_states p)(a \<mapsto> c)\<rparr>"

definition getAvailableExecutor :: "par_state \<Rightarrow> par_error + (nat \<times> par_state)" where
  "getAvailableExecutor s =
     (if pp_current s < length (evm_executors s)
      then Inr (pp_current s, s\<lparr>pp_current := (pp_current s + 1) mod length (evm_executors s)\<rparr>)
      else Inl No_executor)"

text \<open>\<open>unset\<close> is the content of a result that is never assigned.\<close>

definition executeContractInternal ::
  "execution_result \<Rightarrow> contract_call \<Rightarrow> par_state \<Rightarrow> par_error + (execution_result \<times> par_state)" where
  "executeContractInternal unset call s =
     (case pp_impl s of
        None \<Rightarrow> Inl Null_impl
      | Some p \<Rightarrow>
          let addr = cc_contract_address call; c = contract_state_of addr p
          in if \<not> cs_is_executing c then
               (case getAvailableExecutor s of
                  Inl e \<Rightarrow> Inl e
                | Inr (k, s') \<Rightarrow>
                    let (result, x) = execute_contract addr (cc_input call) [] (cc_gas_limit call) (evm_executors s' ! k)
                    in Inr (result, s'\<lparr>evm_executors := (evm_executors s')[k := x],
                          pp_impl := Some (update_contract_metric (res_success result)
                            (set_contract_state addr (c\<lparr>cs_is_executing := False\<rparr>) p))\<rparr>))
             else Inr (unset, s\<lparr>pp_impl := Some (update_contract_metric False
                    (set_contract_state addr (c\<lparr>cs_pending_calls := cs_pending_calls c @ [call]\<rparr>) p))\<rparr>))"

definition executeContract ::
  "execution_result \<Rightarrow> contract_call \<Rightarrow> par_state \<Rightarrow> par_error + (execution_result \<times> par_state)" where
  "executeContract unset call s =
     (if pp_should_stop s
      then Inr (\<lparr>res_success = False, res_return_data = [], res_gas_used = 0,
                 res_error_message = ''Processor stopped''\<rparr>, s)
      else case pp_impl s of
             None \<Rightarrow> Inl Null_impl
           | Some p \<Rightarrow> executeContractInternal unset call
                 (s\<lparr>pp_impl := Some (p\<lparr>contract_queue := contract_queue p @ [call]\<rparr>)\<rparr>))"

text \<open>One passage of a contract worker; \<open>None\<close>: it waits or ends.\<close>

definition contract_worker_step ::
  "execution_result \<Rightarrow> par_state \<Rightarrow> (par_error + (execution_result \<times> par_state)) option" where
  "contract_worker_step unset s =
     (if pp_should_stop s then None
      else case pp_impl s of
             None \<Rightarrow> Some (Inl Null_impl)
           | Some p \<Rightarrow>
               (case contract_queue p of
                  [] \<Rightarrow> None
                | call # calls \<Rightarrow> Some (executeContractInternal unset call
                     (s\<lparr>pp_impl := Some (p\<lparr>contract_queue := calls\<rparr>)\<rparr>))))"

section \<open>Lemmas\<close>

datatype api_request = Single_tx u64 transaction | Tx_batch u64 "transaction list"

fun api_request_batch :: "api_request \<Rightarrow> transaction_batch" where
  "api_request_batch (Single_tx now tx) = \<lparr>tb_transactions = [tx], tb_batch_id = 0, tb_timestamp = now, tb_validator = [], tb_merkle_root = []\<rparr>"
| "api_request_batch (Tx_batch now txs) =
     \<lparr>tb_transactions = txs, tb_batch_id = 0, tb_timestamp = now, tb_validator = [], tb_merkle_root = []\<rparr>"








interpretation parq: work_queue par_submitTransaction par_next transaction_queue "\<lambda>tx. tx" pp_max_queue_size
  "\<lambda>_. True"
  by unfold_locales (auto simp: par_submitTransaction_def par_next_def split: if_splits list.splits)

lemma fill_batch_spec:
  "fill_batch limit pending batch =
     (batch @ take (limit - length batch) pending, drop (limit - length batch) pending)"
  by (induction limit pending batch rule: fill_batch.induct) (auto simp: Suc_diff_Suc [symmetric])

lemma create_batch_spec:
  assumes "\<not> bp_should_stop s"
  shows "create_batch s = (take (max_batch_size (bp_config s)) (bp_pending s),
    s\<lparr>bp_pending := drop (max_batch_size (bp_config s)) (bp_pending s)\<rparr>)"
  using assms by (simp add: create_batch_def fill_batch_spec)

lemma gather_spec:
  assumes "gather txs js batch assigned = (b, as)" "distinct js" "set js \<subseteq> {..<length assigned}"
  shows "mset b + image_mset ((!) txs) (mset (filter (\<lambda>i. \<not> as ! i) js))
      = mset batch + image_mset ((!) txs) (mset (filter (\<lambda>i. \<not> assigned ! i) js))
    \<and> length as = length assigned \<and> (\<forall>i. i \<notin> set js \<longrightarrow> as ! i = assigned ! i)"
  using assms
proof (induction txs js batch assigned rule: gather.induct)
  case (2 txs j js batch assigned)
  consider "assigned ! j" | "\<not> assigned ! j" "list_ex (\<lambda>tx. hasDependency tx (txs ! j)) batch"
    | "\<not> assigned ! j" "\<not> list_ex (\<lambda>tx. hasDependency tx (txs ! j)) batch" by blast
  then show ?case
  proof cases
    case 3
    have "filter (\<lambda>i. \<not> assigned[j := True] ! i) js = filter (\<lambda>i. \<not> assigned ! i) js"
      using 2(5) by (intro filter_cong refl) (metis distinct.simps(2) nth_list_update_neq)
    moreover have "gather txs js (batch @ [txs ! j]) (assigned[j := True]) = (b, as)"
      using 3 2(4) by simp
    ultimately show ?thesis using 3 2(3) [OF 3] 2(5,6) by auto
  qed (use 2 in auto)
qed simp

lemma gather_independent:
  assumes "sorted_wrt (\<lambda>a b. \<not> hasDependency a b) batch"
  shows "sorted_wrt (\<lambda>a b. \<not> hasDependency a b) (fst (gather txs js batch assigned))"
  using assms
  by (induction txs js batch assigned rule: gather.induct) (auto simp: sorted_wrt_append list_ex_iff)

lemma gather_nonempty: "batch \<noteq> [] \<Longrightarrow> fst (gather txs js batch assigned) \<noteq> []"
  by (induction txs js batch assigned rule: gather.induct) auto

lemma batches_from_mset:
  assumes "length assigned = length txs" "k \<le> length txs"
  shows "mset (concat (batches_from txs [k..<length txs] assigned))
    = image_mset ((!) txs) (mset (filter (\<lambda>i. \<not> assigned ! i) [k..<length txs]))"
  using assms
proof (induction "length txs - k" arbitrary: k assigned)
  case (Suc n)
  then have k: "k < length txs" by simp
  then have upt: "[k..<length txs] = k # [Suc k..<length txs]" by (rule upt_conv_Cons)
  show ?case
  proof (cases "assigned ! k")
    case True
    with Suc.hyps(1) [of "Suc k" assigned] Suc.hyps(2) Suc.prems k show ?thesis by (simp add: upt)
  next
    case False
    obtain b as where g: "gather txs [Suc k..<length txs] [txs ! k] (assigned[k := True]) = (b, as)"
      by fastforce
    have "filter (\<lambda>i. \<not> assigned[k := True] ! i) [Suc k..<length txs]
        = filter (\<lambda>i. \<not> assigned ! i) [Suc k..<length txs]"
      by (intro filter_cong) auto
    with gather_spec [OF g] Suc.prems k
    have "mset b + image_mset ((!) txs) (mset (filter (\<lambda>i. \<not> as ! i) [Suc k..<length txs]))
        = add_mset (txs ! k) (image_mset ((!) txs) (mset (filter (\<lambda>i. \<not> assigned ! i) [Suc k..<length txs])))"
      and "length as = length txs" by (auto simp: subset_iff)
    with Suc.hyps(1) [of "Suc k" as] Suc.hyps(2) Suc.prems k False g show ?thesis by (simp add: upt)
  qed
qed simp

lemma batches_from_independent:
  "list_all (\<lambda>b. b \<noteq> [] \<and> sorted_wrt (\<lambda>a b. \<not> hasDependency a b) b) (batches_from txs is assigned)"
proof (induction "is" arbitrary: assigned)
  case (Cons i "is")
  obtain b as where g: "gather txs [Suc i..<length txs] [txs ! i] (assigned[i := True]) = (b, as)"
    by fastforce
  have "b \<noteq> []" "sorted_wrt (\<lambda>a b. \<not> hasDependency a b) b"
    using gather_nonempty [of "[txs ! i]" txs "[Suc i..<length txs]" "assigned[i := True]"]
      gather_independent [of "[txs ! i]" txs "[Suc i..<length txs]" "assigned[i := True]"] g by auto
  with Cons.IH show ?case by (simp add: g)
qed simp

text \<open>Tasks of different senders commute.\<close>

definition par_task :: "transaction \<Rightarrow> bool \<times> par_impl \<Rightarrow> bool \<times> par_impl" where
  "par_task tx r = (let (ok, p) = impl_processTransaction tx (snd r) in (fst r \<and> ok, p))"

lemma impl_processBatch_fold:
  "fold par_task txs (ok, p) = (let (ok', p') = impl_processBatch txs p in (ok \<and> ok', p'))"
  by (induction txs arbitrary: ok p) (auto simp: par_task_def Let_def split: prod.splits)

lemma par_task_commute:
  assumes "getSender tx1 \<noteq> getSender tx2"
  shows "par_task tx1 (par_task tx2 r) = par_task tx2 (par_task tx1 r)"
  using assms
  by (auto simp: par_task_def impl_processTransaction_def Let_def account_state_of_def
      update_transaction_metric_def fun_upd_twist split: prod.splits)

lemma independent_senders:
  assumes "sorted_wrt (\<lambda>a b. \<not> hasDependency a b) txs" "tx1 \<in> set txs" "tx2 \<in> set txs" "tx1 \<noteq> tx2"
  shows "getSender tx1 \<noteq> getSender tx2"
  using assms by (induction txs) (auto simp: hasDependency_def)

lemma executeContractInternal_idle:
  assumes "pp_impl s = Some p" "\<not> cs_is_executing (contract_state_of (cc_contract_address call) p)"
    and "evm_executors s = [x]" "pp_current s = 0"
    and "execute_contract (cc_contract_address call) (cc_input call) [] (cc_gas_limit call) x = (r, y)"
  shows "executeContractInternal unset call s = Inr (r, s\<lparr>pp_current := 0, evm_executors := [y],
    pp_impl := Some (update_contract_metric (res_success r) (set_contract_state (cc_contract_address call)
      ((contract_state_of (cc_contract_address call) p)\<lparr>cs_is_executing := False\<rparr>) p))\<rparr>)"
  using assms by (simp add: executeContractInternal_def Let_def getAvailableExecutor_def)

lemma update_contract_metric_frame [simp]:
  "contract_queue (update_contract_metric ok p) = contract_queue p"
  "contract_state_of a (update_contract_metric ok p) = contract_state_of a p"
  by (simp_all add: update_contract_metric_def contract_state_of_def)

lemma set_contract_state_frame [simp]:
  "contract_queue (set_contract_state a c p) = contract_queue p"
  "contract_state_of a (set_contract_state a c p) = c"
  "contract_state_of a (p\<lparr>contract_queue := q\<rparr>) = contract_state_of a p"
  by (simp_all add: set_contract_state_def contract_state_of_def)

definition demo_unset :: execution_result where
  "demo_unset = \<lparr>res_success = False, res_return_data = [], res_gas_used = 0, res_error_message = []\<rparr>"

definition demo_impl :: par_impl where
  "demo_impl = \<lparr>failed_transactions = 0, failed_contracts = 0, contract_queue = [],
     contract_states = Map.empty, account_states = Map.empty\<rparr>"

definition demo_processor :: par_state where
  "demo_processor = (ParallelProcessor_init 3)\<lparr>evm_executors := [EVMExecutor_init],
     pp_impl := Some demo_impl\<rparr>"

section \<open>Properties\<close>

text \<open>C19: Splitting into independent batches loses and duplicates nothing and separates conflicts: the
  sub-batches together hold exactly the transactions of the input, none of them is empty, and
  within one sub-batch no transaction's sender is another's sender or recipient.\<close>

theorem independent_batches:
  "mset (concat (createIndependentBatches txs)) = mset txs
    \<and> list_all (\<lambda>b. b \<noteq> [] \<and> sorted_wrt (\<lambda>t u. \<not> hasDependency t u) b) (createIndependentBatches txs)"
proof -
  have "filter (\<lambda>i. \<not> replicate (length txs) False ! i) [0..<length txs] = [0..<length txs]"
    by (rule filter_True) simp
  then have "mset (concat (createIndependentBatches txs)) = mset (map ((!) txs) [0..<length txs])"
    unfolding createIndependentBatches_def by (subst batches_from_mset) simp_all
  then show ?thesis
    by (simp only: map_nth createIndependentBatches_def batches_from_independent simp_thms)
qed

text \<open>C10: Running a sub-batch in parallel is deterministic: whatever the order in which its tasks
  happen to run, the overall answer and the resulting accounts and counters are the same.\<close>

theorem independent_batch_order:
  assumes "batch \<in> set (createIndependentBatches txs)" "mset order = mset batch"
  shows "impl_processBatch order p = impl_processBatch batch p"
proof -
  have ind: "sorted_wrt (\<lambda>a b. \<not> hasDependency a b) batch"
    using assms(1) batches_from_independent [of txs "[0..<length txs]" "replicate (length txs) False"]
    by (simp add: createIndependentBatches_def list_all_iff)
  have "fold par_task order = fold par_task batch"
  proof (rule fold_multiset_equiv [OF _ assms(2)])
    fix t u assume "t \<in> set order" "u \<in> set order"
    then have "t \<in> set batch" "u \<in> set batch" using assms(2) mset_eq_setD by blast+
    then show "par_task t \<circ> par_task u = par_task u \<circ> par_task t"
      using par_task_commute independent_senders [OF ind] by (cases "t = u") (auto simp: fun_eq_iff)
  qed
  then show ?thesis
    using impl_processBatch_fold [of order True p] impl_processBatch_fold [of batch True p]
    by (simp add: Let_def split: prod.splits)
qed

theorem independent_batch_order_witness:
  "impl_processBatch [demo_tx ''C'' ''B'' 1 1 0, demo_tx ''A'' ''B'' 1 1 0] demo_impl
     = impl_processBatch [demo_tx ''A'' ''B'' 1 1 0, demo_tx ''C'' ''B'' 1 1 0] demo_impl"
  by (rule independent_batch_order [of _ "[demo_tx ''A'' ''B'' 1 1 0, demo_tx ''C'' ''B'' 1 1 0]"])
    (simp_all add: createIndependentBatches_def hasDependency_def getSender_def getRecipient_def
      demo_tx_def upt_rec numeral_2_eq_2)



text \<open>Empty batches are not limited: the API accepts one however many batches wait.\<close>

lemma empty_batch_always_accepted:
  "submit_batch now [] s = (True, s\<lparr>batch_queue := batch_queue s @ [api_request_batch (Tx_batch now [])]\<rparr>)"
  by (simp add: submit_batch_def)

text \<open>Conflicts on the recipient are missed: two transactions with different senders that pay the
  same third account are put into one sub-batch, whose tasks run concurrently.\<close>

theorem shared_recipient_not_separated:
  assumes "getSender t \<noteq> getSender u" "getRecipient t = getRecipient u"
    and "getRecipient t \<noteq> getSender t" "getRecipient t \<noteq> getSender u"
  shows "createIndependentBatches [t, u] = [[t, u]]"
  using assms by (auto simp: createIndependentBatches_def hasDependency_def upt_rec numeral_2_eq_2)

theorem shared_recipient_not_separated_witness:
  "createIndependentBatches [demo_tx ''A'' ''B'' 1 1 0, demo_tx ''C'' ''B'' 1 1 0]
     = [[demo_tx ''A'' ''B'' 1 1 0, demo_tx ''C'' ''B'' 1 1 0]]"
  by (rule shared_recipient_not_separated) (simp_all add: getSender_def getRecipient_def demo_tx_def)

text \<open>A contract call is executed twice: executeContract queues the call for the contract workers
  and also runs it itself, so once a worker has taken it the executor has run the same code a
  second time on the state the first run left.\<close>

theorem contract_call_runs_twice:
  assumes "\<not> pp_should_stop s" "pp_impl s = Some p" "contract_queue p = []"
    and "\<not> cs_is_executing (contract_state_of (cc_contract_address call) p)"
    and "evm_executors s = [x]" "pp_current s = 0"
  shows "\<exists>r s' r' s''. executeContract unset call s = Inr (r, s')
    \<and> contract_worker_step unset s' = Some (Inr (r', s''))
    \<and> evm_executors s'' = [snd (execute_contract (cc_contract_address call) (cc_input call) [] (cc_gas_limit call)
         (snd (execute_contract (cc_contract_address call) (cc_input call) [] (cc_gas_limit call) x)))]"
proof -
  let ?run = "execute_contract (cc_contract_address call) (cc_input call) [] (cc_gas_limit call)"
  obtain r y where y: "?run x = (r, y)" by fastforce
  obtain r' z where z: "?run y = (r', z)" by fastforce
  let ?s = "s\<lparr>pp_impl := Some (p\<lparr>contract_queue := [call]\<rparr>)\<rparr>"
  let ?p = "update_contract_metric (res_success r) (set_contract_state (cc_contract_address call)
      ((contract_state_of (cc_contract_address call) p)\<lparr>cs_is_executing := False\<rparr>) (p\<lparr>contract_queue := [call]\<rparr>))"
  let ?t = "s\<lparr>pp_current := 0, evm_executors := [y], pp_impl := Some ?p\<rparr>"
  have one: "executeContract unset call s = Inr (r, ?t)"
    using assms executeContractInternal_idle [of ?s "p\<lparr>contract_queue := [call]\<rparr>" call x r y unset] y
    by (simp add: executeContract_def)
  have "\<exists>s''. contract_worker_step unset ?t = Some (Inr (r', s'')) \<and> evm_executors s'' = [z]"
    using assms executeContractInternal_idle
      [of "?t\<lparr>pp_impl := Some (?p\<lparr>contract_queue := []\<rparr>)\<rparr>" "?p\<lparr>contract_queue := []\<rparr>" call y r' z unset] z
    by (simp add: contract_worker_step_def)
  with one y z show ?thesis by auto
qed

theorem contract_call_runs_twice_witness:
  "\<exists>r s' r' s''. executeContract demo_unset \<lparr>cc_contract_address = Address [], cc_input = [0x5b], cc_gas_limit = 9\<rparr>
      demo_processor = Inr (r, s') \<and> contract_worker_step demo_unset s' = Some (Inr (r', s''))"
  using contract_call_runs_twice [of demo_processor]
  by (fastforce simp: demo_processor_def demo_impl_def ParallelProcessor_init_def contract_state_of_def)

lemma constructed_processor_has_no_impl:
  "processTransaction tx (ParallelProcessor_init n) = Inl Null_impl"
  by (simp add: processTransaction_def ParallelProcessor_init_def)

end
