(* ===== verification/Falcon_Field.thy ===== *)
theory Falcon_Field
  imports QPrelude "HOL-Library.Signed_Division"
begin

text \<open>
  Arithmetic of the Falcon signature scheme: the prime field with 12289 elements
  (\<^verbatim>\<open>src/include/crypto/falcon/ff.hpp\<close>) and the 72-bit integers of its sampler
  (\<^verbatim>\<open>u72.hpp\<close>).  An element \<^verbatim>\<open>ff_t\<close> is its 16-bit member \<^verbatim>\<open>v\<close>; what it stands for is an element of
  the ring of integers modulo 12289, the type of that name.
\<close>

unbundle bit_operations_syntax

section \<open>Field elements\<close>

type_synonym ff_t = u16
type_synonym i16 = "16 word"
type_synonym zq = 12289

definition ff_Q :: u16 where "ff_Q = 3 * push_bit 12 1 + 1"
definition ff_R :: u16 where "ff_R = 21843"

definition ff_make :: "u16 \<Rightarrow> ff_t" where
  "ff_make v = (if v < ff_Q then v else v mod ff_Q)"

definition ff_zero :: ff_t where "ff_zero = ff_make 0"
definition ff_one :: ff_t where "ff_one = ff_make 1"

text \<open>\<^verbatim>\<open>t0 - flg * Q\<close>, the conditional subtraction that every operation ends with.\<close>

definition ff_csub :: "u16 \<Rightarrow> u16" where
  "ff_csub t0 = t0 - of_bool (t0 \<ge> ff_Q) * ff_Q"

definition ff_add_assign :: "ff_t \<Rightarrow> ff_t \<Rightarrow> ff_t" where
  "ff_add_assign a b = ff_csub (a + b)"

definition ff_add :: "ff_t \<Rightarrow> ff_t \<Rightarrow> ff_t" where
  "ff_add a b = ff_make (ff_csub (a + b))"

definition ff_neg :: "ff_t \<Rightarrow> ff_t" where
  "ff_neg a = ff_make (ff_Q - a)"

definition ff_sub :: "ff_t \<Rightarrow> ff_t \<Rightarrow> ff_t" where
  "ff_sub a b = ff_add a (ff_neg b)"

definition barrett :: "u32 \<Rightarrow> u16" where
  "barrett t2 =
     (let t3 = (ucast t2 :: u64) * ucast ff_R;
          t4 = (ucast (drop_bit 28 t3) :: u32);
          t5 = t4 * ucast ff_Q;
          t6 = (ucast (t2 - t5) :: u16)
      in ff_csub t6)"

definition ff_mul_assign :: "ff_t \<Rightarrow> ff_t \<Rightarrow> ff_t" where
  "ff_mul_assign a b = barrett (ucast a * ucast b)"

definition ff_mul :: "ff_t \<Rightarrow> ff_t \<Rightarrow> ff_t" where
  "ff_mul a b = ff_make (barrett (ucast a * ucast b))"

text \<open>
  The loop of the extended Euclidean algorithm over \<^verbatim>\<open>int16_t\<close>: a quotient and the products are
  computed in \<^verbatim>\<open>int\<close> and narrowed to 16 bits.
\<close>

lemma sint_narrow_smod:
  fixes a b :: i16
  assumes "b \<noteq> 0"
  shows "sint (a - of_int (sint a sdiv sint b) * b) = sint a smod sint b"
proof -
  have b: "\<bar>sint b\<bar> \<le> 2 ^ 15" "sint b \<noteq> 0"
    using sint_range_size [of b] assms by (auto simp: word_size signed_eq_0_iff)
  have "\<bar>sint a smod sint b\<bar> < \<bar>sint b\<bar>" using smod_int_range [OF b(2), of "sint a"] by auto
  with b have r: "- (2 ^ 15) \<le> sint a smod sint b" "sint a smod sint b < 2 ^ 15" by linarith+
  have "a - of_int (sint a sdiv sint b) * b = of_int (sint a - sint a sdiv sint b * sint b)" by simp
  then have "a - of_int (sint a sdiv sint b) * b = of_int (sint a smod sint b)"
    by (simp only: minus_sdiv_mult_eq_smod)
  then show ?thesis using r by (simp add: signed_of_int signed_take_bit_int_eq_self)
qed

function xgcd_loop :: "i16 \<Rightarrow> i16 \<Rightarrow> i16 \<Rightarrow> i16 \<Rightarrow> i16 \<Rightarrow> i16 \<Rightarrow> i16 \<times> i16 \<times> i16" where
  "xgcd_loop old_r r old_s s old_t t =
     (if r \<noteq> 0 then
        let quotient = of_int (sint old_r sdiv sint r)
        in xgcd_loop r (old_r - quotient * r) s (old_s - quotient * s) t (old_t - quotient * t)
      else (old_s, old_t, old_r))"
  by pat_completeness auto
termination
proof (relation "measure (\<lambda>(old_r, r, _). nat \<bar>sint r\<bar>)")
  fix old_r r old_s s old_t t x :: i16
  assume "r \<noteq> 0" "x = of_int (sint old_r sdiv sint r)"
  moreover have "sint r \<noteq> 0" using \<open>r \<noteq> 0\<close> by (simp add: signed_eq_0_iff)
  ultimately show "((r, old_r - x * r, s, old_s - x * s, t, old_t - x * t), old_r, r, old_s, s, old_t, t)
      \<in> measure (\<lambda>(old_r, r, _). nat \<bar>sint r\<bar>)"
    using smod_int_range [of "sint r" "sint old_r"] by (auto simp: sint_narrow_smod)
qed simp

declare xgcd_loop.simps [simp del]

definition xgcd :: "u16 \<Rightarrow> u16 \<Rightarrow> i16 \<times> i16 \<times> i16" where
  "xgcd x y = xgcd_loop x y 1 0 0 1"

definition ff_inv :: "ff_t \<Rightarrow> ff_t" where
  "ff_inv a =
     (let flg0 = of_bool (a = 0);
          res = fst (xgcd (a + flg0) ff_Q);
          t1 = of_bool (sint res < 0) * ff_Q + res;
          t2 = t1 - of_bool (t1 \<ge> ff_Q) * ff_Q
      in ff_make (t2 - flg0))"

definition ff_div :: "ff_t \<Rightarrow> ff_t \<Rightarrow> ff_t" where
  "ff_div a b = ff_mul a (ff_inv b)"

text \<open>\<open>till\<close> iterations remain; \<open>i\<close> is the bit looked at.\<close>

fun ff_pow_loop :: "nat \<Rightarrow> nat \<Rightarrow> u64 \<Rightarrow> ff_t \<Rightarrow> ff_t \<Rightarrow> ff_t" where
  "ff_pow_loop 0 i n base res = res"
| "ff_pow_loop (Suc m) i n base res =
     (let base' = ff_mul base base
      in ff_pow_loop m (i + 1) n base' (ff_mul res (if bit n i then base' else ff_one)))"

definition countl_zero :: "'a::len word \<Rightarrow> nat" where
  "countl_zero w = length (takeWhile (\<lambda>i. \<not> bit w i) (rev [0..<LENGTH('a)]))"

definition ff_pow :: "ff_t \<Rightarrow> u64 \<Rightarrow> ff_t" where
  "ff_pow a n =
     (let res = (if bit n 0 then a else ff_one); till = 64 - countl_zero n
      in ff_pow_loop (till - 1) 1 n a res)"

definition ff_shl :: "ff_t \<Rightarrow> nat \<Rightarrow> ff_t" where
  "ff_shl a l = ff_make (push_bit l a)"

definition ff_shr :: "ff_t \<Rightarrow> nat \<Rightarrow> ff_t" where
  "ff_shr a l = ff_make (drop_bit l a)"

section \<open>Lemmas\<close>

definition zq_of :: "ff_t \<Rightarrow> zq" where
  "zq_of a = of_nat (unat a)"

definition canonical :: "ff_t \<Rightarrow> bool" where
  "canonical a \<longleftrightarrow> a < ff_Q"

named_theorems ff_simps \<open>meaning of the field operations in the ring of integers modulo 12289\<close>
named_theorems ff_canonical \<open>the field operations give canonical elements\<close>

lemma ff_Q_eq: "ff_Q = 12289" by (simp add: ff_Q_def)

lemma canonical_unat: "canonical a \<longleftrightarrow> unat a < 12289"
  by (simp add: canonical_def ff_Q_eq word_less_nat_alt)

lemma zq_modulus: "(12289 :: zq) = 0" by simp

lemma zq_of_eqI: "unat a = n \<Longrightarrow> zq_of a = of_nat n"
  by (simp only: zq_of_def)

lemma of_nat_zq_mod: "(of_nat (n mod 12289) :: zq) = of_nat n"
proof -
  have "(of_nat n :: zq) = of_nat (n div 12289 * 12289 + n mod 12289)" by simp
  also have "\<dots> = of_nat (n div 12289) * (12289 :: zq) + of_nat (n mod 12289)"
    by (simp only: of_nat_add of_nat_mult of_nat_numeral)
  finally show ?thesis by (simp add: zq_modulus)
qed

lemma of_nat_zq_inj: "\<lbrakk>m < 12289; n < 12289; (of_nat m :: zq) = of_nat n\<rbrakk> \<Longrightarrow> m = n"
proof -
  assume "m < 12289" "n < 12289" "(of_nat m :: zq) = of_nat n"
  then have "Rep_bit1 (Abs_bit1 (int m mod int CARD(6144 bit1)) :: zq)
      = Rep_bit1 (Abs_bit1 (int n mod int CARD(6144 bit1)) :: zq)"
    by (simp only: bit1.of_nat_eq [where ?'a = 6144])
  then have "int m mod 12289 = int n mod 12289"
    by (simp only: bit1.Rep_Abs_mod) simp
  with \<open>m < 12289\<close> \<open>n < 12289\<close> show "m = n" by simp
qed

lemma zq_of_inj: "\<lbrakk>canonical a; canonical b; zq_of a = zq_of b\<rbrakk> \<Longrightarrow> a = b"
  unfolding canonical_unat zq_of_def by (rule word_unat_eq_iff [THEN iffD2]) (rule of_nat_zq_inj)

lemma unat_ff_make: "unat (ff_make v) = unat v mod 12289"
  by (simp add: ff_make_def ff_Q_eq word_less_nat_alt unat_mod)

lemma ff_make [ff_simps]: "zq_of (ff_make v) = of_nat (unat v)"
  by (simp only: zq_of_def unat_ff_make of_nat_zq_mod)

lemma canonical_ff_make [ff_canonical]: "canonical (ff_make v)"
  by (simp add: canonical_unat unat_ff_make)

lemma unat_csub: "unat (ff_csub t) = (if unat t \<ge> 12289 then unat t - 12289 else unat t)"
  by (simp add: ff_csub_def ff_Q_eq word_le_nat_alt unat_sub)

lemma zq_csub: "zq_of (ff_csub t) = zq_of t"
proof (cases "unat t \<ge> 12289")
  case True
  then obtain d where d: "unat t = d + 12289" by (metis le_add_diff_inverse2)
  then have "unat (ff_csub t) = d" by (simp add: unat_csub)
  then have "zq_of (ff_csub t) = of_nat d" by (rule zq_of_eqI)
  also have "\<dots> = of_nat (d + 12289)" by (simp add: zq_modulus)
  also have "\<dots> = zq_of t" using d by (rule zq_of_eqI [symmetric])
  finally show ?thesis .
qed (simp add: unat_csub zq_of_def)

lemma unat_add_canonical: "\<lbrakk>canonical a; canonical b\<rbrakk> \<Longrightarrow> unat (a + b) = unat a + unat b"
  by (simp add: canonical_unat unat_word_ariths)

lemma ff_add_assign [ff_simps]:
  "\<lbrakk>canonical a; canonical b\<rbrakk> \<Longrightarrow> zq_of (ff_add_assign a b) = zq_of a + zq_of b"
  by (simp only: ff_add_assign_def zq_csub) (simp only: zq_of_def unat_add_canonical of_nat_add)

lemma canonical_ff_add_assign [ff_canonical]: "\<lbrakk>canonical a; canonical b\<rbrakk> \<Longrightarrow> canonical (ff_add_assign a b)"
  using unat_add_canonical [of a b] by (auto simp: ff_add_assign_def canonical_unat unat_csub)

lemma ff_add_eq_assign: "\<lbrakk>canonical a; canonical b\<rbrakk> \<Longrightarrow> ff_add a b = ff_add_assign a b"
  using canonical_ff_add_assign [of a b] by (simp add: ff_add_def ff_add_assign_def ff_make_def canonical_def)

lemma ff_add [ff_simps]: "\<lbrakk>canonical a; canonical b\<rbrakk> \<Longrightarrow> zq_of (ff_add a b) = zq_of a + zq_of b"
  by (simp add: ff_add_eq_assign ff_add_assign)

lemma canonical_ff_add [ff_canonical]: "canonical (ff_add a b)"
  by (simp add: ff_add_def canonical_ff_make)

lemma ff_neg [ff_simps]: "canonical a \<Longrightarrow> zq_of (ff_neg a) = - zq_of a"
proof -
  assume "canonical a"
  then have "unat (ff_Q - a) + unat a = 12289"
    by (simp add: canonical_unat ff_Q_eq unat_sub word_le_nat_alt)
  then have "of_nat (unat (ff_Q - a)) + of_nat (unat a) = (of_nat 12289 :: zq)"
    by (simp only: of_nat_add [symmetric])
  then have "of_nat (unat (ff_Q - a)) + zq_of a = 0" by (simp only: zq_of_def of_nat_numeral zq_modulus)
  then show ?thesis by (simp only: ff_neg_def ff_make eq_neg_iff_add_eq_0)
qed

lemma canonical_ff_neg [ff_canonical]: "canonical (ff_neg a)"
  by (simp add: ff_neg_def canonical_ff_make)

lemma ff_sub [ff_simps]: "\<lbrakk>canonical a; canonical b\<rbrakk> \<Longrightarrow> zq_of (ff_sub a b) = zq_of a - zq_of b"
  by (simp add: ff_sub_def ff_add ff_neg canonical_ff_neg)

lemma canonical_ff_sub [ff_canonical]: "canonical (ff_sub a b)"
  by (simp add: ff_sub_def canonical_ff_add)

lemma unat_ucast_small:
  fixes w :: "'a::len word"
  assumes "unat w < 2 ^ LENGTH('b)"
  shows "unat (ucast w :: 'b::len word) = unat w"
  using assms by (simp add: unsigned_ucast_eq take_bit_nat_eq_self)

lemma unat_ucast_up:
  fixes w :: "'a::len word"
  assumes "LENGTH('a) \<le> LENGTH('b)"
  shows "unat (ucast w :: 'b::len word) = unat w"
proof (rule unat_ucast_small)
  have "unat w < 2 ^ LENGTH('a)" by (rule unsigned_less)
  also have "\<dots> \<le> 2 ^ LENGTH('b)" using assms by simp
  finally show "unat w < 2 ^ LENGTH('b)" .
qed

text \<open>Barrett reduction is exact below \<open>2 ^ 28\<close>.\<close>

lemma barrett_quotient:
  fixes x k :: nat
  assumes "k = x * 21843 div 268435456" "x < 268435456"
  shows "k * 12289 \<le> x" "x < k * 12289 + 2 * 12289"
proof -
  have "k * 268435456 \<le> x * 21843" "x * 21843 < k * 268435456 + 268435456"
    using assms(1) by (simp_all add: div_times_less_eq_dividend dividend_less_div_times)
  with assms(2) show "k * 12289 \<le> x" "x < k * 12289 + 2 * 12289" by linarith+
qed

lemma unat_barrett:
  assumes "unat t < 2 ^ 28"
  shows "unat (barrett t) = unat t mod 12289"
proof -
  define x where "x = unat t"
  define k where "k = x * 21843 div 268435456"
  have x: "x < 268435456" using assms by (simp add: x_def)
  note q = barrett_quotient [OF k_def x]
  have "unat ((ucast t :: u64) * ucast ff_R) = x * 21843"
    using x by (simp add: ff_R_def unat_word_ariths unat_ucast_small x_def)
  then have "unat (drop_bit 28 ((ucast t :: u64) * ucast ff_R)) = k"
    unfolding unat_drop_bit_eq by (simp add: drop_bit_eq_div k_def)
  then have t4: "unat (ucast (drop_bit 28 ((ucast t :: u64) * ucast ff_R)) :: u32) = k"
    using q(1) x by (simp add: unat_ucast_small)
  have t5: "unat ((ucast (drop_bit 28 ((ucast t :: u64) * ucast ff_R)) :: u32) * ucast ff_Q) = k * 12289"
    using q(1) x by (simp add: unat_word_ariths t4 ff_Q_eq)
  then have "unat (t - (ucast (drop_bit 28 ((ucast t :: u64) * ucast ff_R)) :: u32) * ucast ff_Q) = x - k * 12289"
    using q(1) by (simp add: unat_sub word_le_nat_alt x_def)
  then have "unat (ucast (t - (ucast (drop_bit 28 ((ucast t :: u64) * ucast ff_R)) :: u32) * ucast ff_Q) :: u16)
      = x - k * 12289"
    using q by (simp add: unat_ucast_small)
  moreover have "(if x - k * 12289 \<ge> 12289 then x - k * 12289 - 12289 else x - k * 12289) = x mod 12289"
  proof -
    define d where "d = x - k * 12289"
    then have "x = d + k * 12289" "d < 24578" using q by simp_all
    then show ?thesis by (simp add: le_mod_geq)
  qed
  ultimately show ?thesis by (simp only: barrett_def Let_def unat_csub x_def [symmetric])
qed

lemma unat_mult_canonical:
  "\<lbrakk>canonical a; canonical b\<rbrakk> \<Longrightarrow> unat ((ucast a :: u32) * ucast b) = unat a * unat b \<and> unat a * unat b < 2 ^ 28"
proof -
  assume "canonical a" "canonical b"
  then have "unat a * unat b \<le> 12288 * 12288"
    unfolding canonical_unat by (intro mult_le_mono) simp_all
  then show ?thesis by (simp add: unat_word_ariths unat_ucast_up)
qed

lemma unat_ff_mul_assign:
  "\<lbrakk>canonical a; canonical b\<rbrakk> \<Longrightarrow> unat (ff_mul_assign a b) = unat a * unat b mod 12289"
  using unat_mult_canonical [of a b] unat_barrett [of "ucast a * ucast b"] by (simp add: ff_mul_assign_def)

lemma ff_mul_assign [ff_simps]:
  "\<lbrakk>canonical a; canonical b\<rbrakk> \<Longrightarrow> zq_of (ff_mul_assign a b) = zq_of a * zq_of b"
  using unat_ff_mul_assign [of a b] by (simp only: zq_of_def of_nat_zq_mod of_nat_mult)

lemma canonical_ff_mul_assign [ff_canonical]: "\<lbrakk>canonical a; canonical b\<rbrakk> \<Longrightarrow> canonical (ff_mul_assign a b)"
  using unat_ff_mul_assign [of a b] by (simp add: canonical_unat [of "ff_mul_assign a b"])

lemma ff_mul_eq_assign: "\<lbrakk>canonical a; canonical b\<rbrakk> \<Longrightarrow> ff_mul a b = ff_mul_assign a b"
  using canonical_ff_mul_assign [of a b] by (simp add: ff_mul_def ff_mul_assign_def ff_make_def canonical_def)

lemma ff_mul [ff_simps]: "\<lbrakk>canonical a; canonical b\<rbrakk> \<Longrightarrow> zq_of (ff_mul a b) = zq_of a * zq_of b"
  by (simp add: ff_mul_eq_assign ff_mul_assign)

lemma canonical_ff_mul [ff_canonical]: "canonical (ff_mul a b)"
  by (simp add: ff_mul_def canonical_ff_make)

lemma ff_zero_one [ff_simps]: "zq_of ff_zero = 0" "zq_of ff_one = 1"
  by (simp_all add: ff_zero_def ff_one_def ff_make)

lemma canonical_zero_one [ff_canonical]: "canonical ff_zero" "canonical ff_one"
  by (simp_all add: ff_zero_def ff_one_def canonical_ff_make)

text \<open>The Euclidean algorithm stays within 16 bits and computes B\'ezout coefficients.\<close>

lemma sint_narrow:
  fixes a b :: i16
  assumes "\<bar>sint a - q * sint b\<bar> < 2 ^ 15"
  shows "sint (a - of_int q * b) = sint a - q * sint b"
proof -
  have eq: "a - of_int q * b = of_int (sint a - q * sint b)" by simp
  show ?thesis unfolding eq signed_of_int using assms by (simp add: signed_take_bit_int_eq_self abs_less_iff)
qed

lemma abs_opposite:
  fixes a b q :: int
  assumes "a * b \<le> 0" "0 \<le> q"
  shows "\<bar>a - q * b\<bar> = \<bar>a\<bar> + q * \<bar>b\<bar>" "b * (a - q * b) \<le> 0"
proof -
  consider "a \<ge> 0" "b \<le> 0" | "a \<le> 0" "b \<ge> 0" | "a = 0" | "b = 0"
    using assms(1) by (metis linear mult_le_0_iff)
  then show "\<bar>a - q * b\<bar> = \<bar>a\<bar> + q * \<bar>b\<bar>"
  proof cases
    case 1
    then have "q * b \<le> 0" using assms(2) by (simp add: mult_nonneg_nonpos)
    with 1 show ?thesis by simp
  next
    case 2
    then have "q * b \<ge> 0" using assms(2) by simp
    with 2 show ?thesis by simp
  qed (use assms(2) in \<open>simp_all add: abs_mult\<close>)
  have "b * (a - q * b) = a * b - q * (b * b)" by (simp add: algebra_simps)
  moreover have "0 \<le> q * (b * b)" using assms(2) by simp
  ultimately show "b * (a - q * b) \<le> 0" using assms(1) by linarith
qed

lemma cofactor_step:
  fixes s0 s1 q r r0 y :: int
  assumes "\<bar>s0\<bar> * r + \<bar>s1\<bar> * r0 = y" "s0 * s1 \<le> 0" "0 \<le> q" "0 < r" "0 < r0" "0 \<le> r0 - q * r"
  shows "\<bar>s1\<bar> * (r0 - q * r) + \<bar>s0 - q * s1\<bar> * r = y" "s1 * (s0 - q * s1) \<le> 0"
    and "\<bar>s0 - q * s1\<bar> \<le> y" "\<bar>s1\<bar> \<le> y"
proof -
  note o = abs_opposite [OF assms(2,3)]
  show id: "\<bar>s1\<bar> * (r0 - q * r) + \<bar>s0 - q * s1\<bar> * r = y"
    unfolding o(1) using assms(1) by (simp add: algebra_simps)
  show "s1 * (s0 - q * s1) \<le> 0" by (rule o(2))
  have le: "\<bar>v\<bar> \<le> z" if "\<bar>u\<bar> * m + \<bar>v\<bar> * n = z" "0 \<le> m" "0 < n" for u v m n z :: int
  proof -
    have "\<bar>v\<bar> * 1 \<le> \<bar>v\<bar> * n" using that(3) by (intro mult_left_mono) simp_all
    moreover have "0 \<le> \<bar>u\<bar> * m" using that(2) by simp
    ultimately show ?thesis using that(1) by simp
  qed
  show "\<bar>s0 - q * s1\<bar> \<le> y" by (rule le [OF id assms(6,4)])
  show "\<bar>s1\<bar> \<le> y" using assms(4) by (intro le [OF assms(1) _ assms(5)]) simp
qed

lemma xgcd_loop_bezout:
  fixes x y :: int and old_r r old_s s old_t t :: i16
  assumes "sint old_s * x + sint old_t * y = sint old_r" "sint s * x + sint t * y = sint r"
    and "\<bar>sint old_s\<bar> * sint r + \<bar>sint s\<bar> * sint old_r = y" "sint old_s * sint s \<le> 0" "\<bar>sint old_s\<bar> \<le> y"
    and "\<bar>sint old_t\<bar> * sint r + \<bar>sint t\<bar> * sint old_r = x" "sint old_t * sint t \<le> 0"
    and "0 < sint old_r" "0 \<le> sint r" "x < 2 ^ 15" "y < 2 ^ 15"
    and "xgcd_loop old_r r old_s s old_t t = (a, b, g)"
  shows "sint a * x + sint b * y = sint g \<and> sint g = gcd (sint old_r) (sint r) \<and> \<bar>sint a\<bar> \<le> y"
  using assms
proof (induction old_r r old_s s old_t t rule: xgcd_loop.induct)
  case (1 old_r r old_s s old_t t)
  show ?case
  proof (cases "r = 0")
    case True
    then show ?thesis using 1 by (auto simp: xgcd_loop.simps)
  next
    case False
    define q where "q = sint old_r sdiv sint r"
    have r: "0 < sint r" using False 1(10) by (simp add: order_less_le signed_eq_0_iff)
    have q: "q = sint old_r div sint r"
      using r 1(9) by (simp add: q_def signed_divide_int_eq_divide_int)
    have q0: "0 \<le> q" using r 1(9) by (simp add: q pos_imp_zdiv_nonneg_iff)
    have rq: "sint old_r mod sint r = sint old_r - q * sint r"
      by (simp add: q minus_div_mult_eq_mod)
    have r': "sint (old_r - of_int q * r) = sint old_r - q * sint r"
      using sint_narrow_smod [OF False, of old_r] r 1(9)
      by (simp add: q_def [symmetric] signed_modulo_int_eq_modulo_int rq)
    have nn: "0 \<le> sint old_r - q * sint r" unfolding rq [symmetric] using r by simp
    note S = cofactor_step [OF 1(4,5) q0 r 1(9) nn] and T = cofactor_step [OF 1(7,8) q0 r 1(9) nn]
    have ns: "sint (old_s - of_int q * s) = sint old_s - q * sint s"
      and nt: "sint (old_t - of_int q * t) = sint old_t - q * sint t"
      using S(3) T(3) 1(11,12) by (auto intro!: sint_narrow)
    have step: "xgcd_loop r (old_r - of_int q * r) s (old_s - of_int q * s) t (old_t - of_int q * t) = (a, b, g)"
      using 1(13) False by (subst (asm) xgcd_loop.simps) (simp add: q_def Let_def)
    have "sint a * x + sint b * y = sint g \<and> sint g = gcd (sint r) (sint (old_r - of_int q * r)) \<and> \<bar>sint a\<bar> \<le> y"
    proof (rule 1(1) [OF False refl, folded q_def])
      have "(sint old_s - q * sint s) * x + (sint old_t - q * sint t) * y
          = (sint old_s * x + sint old_t * y) - q * (sint s * x + sint t * y)" by (simp add: algebra_simps)
      then show "sint (old_s - of_int q * s) * x + sint (old_t - of_int q * t) * y = sint (old_r - of_int q * r)"
        unfolding ns nt r' by (simp only: 1(2,3))
    qed (simp_all only: 1 ns nt r' S T nn r step)
    then have "sint a * x + sint b * y = sint g \<and> sint g = gcd (sint r) (sint old_r mod sint r) \<and> \<bar>sint a\<bar> \<le> y"
      by (simp only: r' rq)
    then show ?thesis by (simp only: gcd_red_int [of "sint old_r" "sint r"])
  qed
qed

lemma coprime_modulus:
  assumes "0 < x" "x < 12289"
  shows "gcd x (12289 :: int) = 1"
proof (rule ccontr)
  define g where "g = gcd x 12289"
  assume "gcd x 12289 \<noteq> 1"
  moreover have "0 < g" using assms by (simp add: g_def)
  ultimately have g: "1 < g" "g \<le> x" using assms by (simp_all add: g_def zdvd_imp_le order_less_le)
  have "g dvd 12289" by (simp add: g_def)
  then obtain h where h: "12289 = g * h" by (rule dvdE)
  then have "0 < g * h" by simp
  then have "0 < h" using g(1) by (rule zero_less_mult_pos [OF _ order.strict_trans [OF zero_less_one]])
  moreover have "h \<noteq> 1" using g(2) assms(2) h by (cases "h = 1") simp_all
  ultimately have h1: "1 < h" by linarith
  have small: "list_all (\<lambda>d. 12289 mod d \<noteq> (0 :: int)) [2..110]" by code_simp
  have no: False if "1 < d" "d \<le> 110" "d dvd 12289" for d :: int
  proof -
    have "d \<in> set [2..110]" unfolding set_upto using that by (intro atLeastAtMost_iff [THEN iffD2]) simp
    with small have "12289 mod d \<noteq> 0" unfolding list_all_iff by (rule bspec)
    with that(3) show False by (simp add: dvd_eq_mod_eq_0)
  qed
  show False
  proof (cases "g \<le> 110")
    case True
    then show False using no g(1) \<open>g dvd 12289\<close> by blast
  next
    case False
    have "h \<le> 110"
    proof (rule ccontr)
      assume "\<not> h \<le> 110"
      then have "111 * 111 \<le> g * h" using False by (intro mult_mono) simp_all
      with h show False by simp
    qed
    moreover have "h dvd 12289" by (rule dvdI [of _ _ g]) (simp only: h mult.commute)
    ultimately show False using no h1 by blast
  qed
qed

lemma sint_small:
  fixes a :: i16
  assumes "unat a < 2 ^ 15"
  shows "sint a = int (unat a)"
proof -
  have "sint (of_int (int (unat a)) :: i16) = int (unat a)"
    using assms by (simp add: signed_of_int signed_take_bit_int_eq_self del: of_nat_unat of_int_of_nat_eq)
  then show ?thesis by simp
qed

lemma xgcd_field:
  assumes "canonical a" "a \<noteq> 0" "xgcd a ff_Q = (s, t, g)"
  shows "sint s * int (unat a) + sint t * 12289 = 1" "\<bar>sint s\<bar> \<le> 12289"
proof -
  have a: "sint a = int (unat a)" "0 < unat a" "unat a < 12289"
    using assms(1,2) by (simp_all add: canonical_unat unat_gt_0 sint_small)
  have "sint s * int (unat a) + sint t * 12289 = sint g \<and> sint g = gcd (sint a) (sint ff_Q) \<and> \<bar>sint s\<bar> \<le> 12289"
    by (rule xgcd_loop_bezout [OF _ _ _ _ _ _ _ _ _ _ _ assms(3) [unfolded xgcd_def]])
      (use a in \<open>simp_all add: ff_Q_eq del: of_nat_unat\<close>)
  then show "sint s * int (unat a) + sint t * 12289 = 1" "\<bar>sint s\<bar> \<le> 12289"
    using a coprime_modulus [of "int (unat a)"] by (simp_all add: ff_Q_eq del: of_nat_unat)
qed

lemma of_int_zq_multiple: "(of_int (k * 12289) :: zq) = 0"
  by (simp only: of_int_mult of_int_numeral zq_modulus mult_zero_right)

lemma zq_of_signed:
  fixes s :: i16
  assumes "\<bar>sint s\<bar> \<le> 12289"
  shows "zq_of (of_bool (sint s < 0) * ff_Q + s) = of_int (sint s)"
proof -
  define v where "v = of_bool (sint s < 0) * 12289 + sint s"
  have v: "0 \<le> v" "v \<le> 12289" using assms by (auto simp: v_def)
  have "of_bool (sint s < 0) * ff_Q + s = of_int v" by (simp add: v_def ff_Q_eq)
  also have "\<dots> = word_of_nat (nat v)" using v by simp
  finally have "unat (of_bool (sint s < 0) * ff_Q + s) = unat (word_of_nat (nat v) :: u16)" by (rule arg_cong)
  also have "\<dots> = nat v" unfolding unat_of_nat using v by simp
  finally have "unat (of_bool (sint s < 0) * ff_Q + s) = nat v" .
  then have "zq_of (of_bool (sint s < 0) * ff_Q + s) = of_int v" using v by (simp add: zq_of_eqI)
  also have "\<dots> = of_int (of_bool (sint s < 0) * 12289) + of_int (sint s)" by (simp only: v_def of_int_add)
  also have "\<dots> = of_int (sint s)" by (simp only: of_int_zq_multiple add_0_left)
  finally show ?thesis .
qed

lemma ff_inv_nonzero: "a \<noteq> 0 \<Longrightarrow>
  ff_inv a = ff_make (ff_csub (of_bool (sint (fst (xgcd a ff_Q)) < 0) * ff_Q + fst (xgcd a ff_Q)))"
  by (simp add: ff_inv_def Let_def ff_csub_def)

lemma ff_inv_mult:
  assumes "canonical a" "a \<noteq> 0"
  shows "zq_of (ff_inv a) * zq_of a = 1"
proof -
  obtain s t g where x: "xgcd a ff_Q = (s, t, g)" by (cases "xgcd a ff_Q")
  note b = xgcd_field [OF assms x]
  have "zq_of (ff_inv a) = of_int (sint s)"
    unfolding ff_inv_nonzero [OF assms(2)] ff_make zq_of_def [symmetric] zq_csub x fst_conv by (rule zq_of_signed [OF b(2)])
  moreover have "zq_of a = of_int (int (unat a))" by (simp only: zq_of_def of_int_of_nat_eq)
  ultimately have "zq_of (ff_inv a) * zq_of a = of_int (sint s * int (unat a))" by (simp only: of_int_mult)
  also have "\<dots> = of_int (sint s * int (unat a) + sint t * 12289)"
    by (simp only: of_int_add of_int_zq_multiple add_0_right)
  finally show ?thesis by (simp only: b(1) of_int_1)
qed

lemma ff_inv_zero: "ff_inv 0 = 0" by code_simp

lemma canonical_ff_inv [ff_canonical]: "canonical (ff_inv a)"
  by (simp add: ff_inv_def Let_def canonical_ff_make)

lemma takeWhile_prefix: "j < length (takeWhile P xs) \<Longrightarrow> P (xs ! j)"
  by (metis nth_mem set_takeWhileD takeWhile_nth)

lemma unat_below_countl:
  fixes n :: u64
  shows "unat n < 2 ^ (64 - countl_zero n)"
proof -
  have "\<not> bit n j" if "64 - countl_zero n \<le> j" "j < 64" for j
  proof -
    have "63 - j < countl_zero n" using that by simp
    from takeWhile_prefix [OF this [unfolded countl_zero_def]] show ?thesis
      using that by (simp add: rev_nth)
  qed
  then have "take_bit (64 - countl_zero n) n = n"
    by (intro bit_word_eqI) (auto simp: bit_take_bit_iff not_less [symmetric])
  then have "take_bit (64 - countl_zero n) (unat n) = unat n"
    by (metis unsigned_take_bit_eq)
  then show ?thesis by (simp add: take_bit_nat_eq_self_iff)
qed

lemma ff_pow_loop:
  assumes "canonical base" "canonical res" "1 \<le> i"
    and "zq_of base = x ^ (2 ^ (i - 1))" "zq_of res = x ^ take_bit i (unat n)"
  shows "zq_of (ff_pow_loop m i n base res) = x ^ take_bit (i + m) (unat n) \<and> canonical (ff_pow_loop m i n base res)"
  using assms
proof (induction m arbitrary: i base res)
  case (Suc m)
  define base' where "base' = ff_mul base base"
  have b: "canonical base'" "zq_of base' = x ^ (2 ^ i)"
  proof -
    have "2 ^ (i - 1) + 2 ^ (i - 1) = (2 :: nat) ^ i" using Suc.prems(3) by (cases i) simp_all
    then show "zq_of base' = x ^ (2 ^ i)"
      using Suc.prems(1,4) by (simp add: base'_def ff_mul power_add [symmetric])
  qed (simp add: base'_def canonical_ff_mul)
  define res' where "res' = ff_mul res (if bit n i then base' else ff_one)"
  have "zq_of res' = x ^ take_bit (Suc i) (unat n)"
    using b Suc.prems(2,5)
    by (simp add: res'_def ff_mul canonical_zero_one ff_zero_one take_bit_Suc_from_most bit_unsigned_iff
        power_add mult.commute)
  moreover have "canonical res'" by (simp add: res'_def canonical_ff_mul)
  ultimately show ?case using Suc.IH [of base' res' "Suc i"] b
    by (simp add: base'_def [symmetric] res'_def [symmetric] Let_def del: if_split)
qed simp

lemma ff_pow [ff_simps]:
  assumes "canonical a"
  shows "zq_of (ff_pow a n) = zq_of a ^ unat n"
    and canonical_ff_pow [ff_canonical]: "canonical (ff_pow a n)"
proof -
  define till where "till = 64 - countl_zero n"
  define res where "res = (if bit n 0 then a else ff_one)"
  have res: "canonical res" "zq_of res = zq_of a ^ take_bit 1 (unat n)"
    using assms by (simp_all add: res_def canonical_zero_one ff_zero_one take_bit_Suc_from_most bit_unsigned_iff)
  have "take_bit (1 + (till - 1)) (unat n) = unat n"
  proof (rule take_bit_nat_eq_self)
    have "unat n < 2 ^ till" unfolding till_def by (rule unat_below_countl)
    also have "\<dots> \<le> 2 ^ (1 + (till - 1))" by (intro power_increasing) simp_all
    finally show "unat n < 2 ^ (1 + (till - 1))" .
  qed
  then show "zq_of (ff_pow a n) = zq_of a ^ unat n" "canonical (ff_pow a n)"
    using ff_pow_loop [OF assms res(1), of 1 "zq_of a" n "till - 1"] res(2)
    by (simp_all add: ff_pow_def Let_def till_def [symmetric] res_def [symmetric])
qed

lemma ff_div_mul:
  assumes "canonical a" "canonical b" "b \<noteq> 0"
  shows "ff_mul (ff_div a b) b = a"
proof -
  have "zq_of (ff_mul (ff_div a b) b) = zq_of a * (zq_of (ff_inv b) * zq_of b)"
    using assms by (simp add: ff_div_def ff_mul canonical_ff_mul canonical_ff_inv mult.assoc)
  then show ?thesis using assms by (intro zq_of_inj) (simp_all add: ff_inv_mult canonical_ff_mul)
qed

lemmas falcon_field_simps = ff_simps ff_canonical

section \<open>Properties\<close>

text \<open>
  C16: On canonical elements every operation of the field gives a canonical element that stands for the sum,
  difference, negation or product in the integers modulo 12289; the 32-bit Barrett reduction, its
  conditional subtraction and the compound assignments included.
\<close>

theorem ff_ring_operations:
  assumes "canonical a" "canonical b"
  shows "canonical (ff_add a b) \<and> zq_of (ff_add a b) = zq_of a + zq_of b
    \<and> canonical (ff_sub a b) \<and> zq_of (ff_sub a b) = zq_of a - zq_of b
    \<and> canonical (ff_neg a) \<and> zq_of (ff_neg a) = - zq_of a
    \<and> canonical (ff_mul a b) \<and> zq_of (ff_mul a b) = zq_of a * zq_of b
    \<and> ff_add_assign a b = ff_add a b \<and> ff_mul_assign a b = ff_mul a b
    \<and> canonical (ff_pow a n) \<and> zq_of (ff_pow a n) = zq_of a ^ unat n"
  using assms by (simp add: falcon_field_simps ff_add_eq_assign [symmetric] ff_mul_eq_assign [symmetric])

lemma ff_ring_operations_witness:
  "canonical 12288 \<and> canonical 12287 \<and> ff_mul 12288 12287 = 2 \<and> zq_of (ff_mul 12288 12287) = zq_of 12288 * zq_of 12287"
proof -
  have c: "canonical 12288" "canonical 12287" by (simp_all add: canonical_def ff_Q_eq)
  moreover have "ff_mul 12288 12287 = 2" by code_simp
  ultimately show ?thesis using ff_ring_operations [OF c] by blast
qed

text \<open>
  C28: The extended Euclidean algorithm over 16-bit signed integers computes the inverse of every element
  but zero: dividing by it and multiplying again gives back the dividend.  Zero is sent to zero.
\<close>

theorem ff_division:
  assumes "canonical a" "canonical b" "b \<noteq> 0"
  shows "ff_mul (ff_div a b) b = a \<and> ff_mul (ff_inv b) b = ff_one \<and> ff_inv 0 = 0"
proof (intro conjI)
  show "ff_mul (ff_div a b) b = a" by (rule ff_div_mul [OF assms])
  show "ff_mul (ff_inv b) b = ff_one"
    using assms by (intro zq_of_inj) (simp_all add: ff_inv_mult ff_mul ff_zero_one falcon_field_simps)
qed (rule ff_inv_zero)

lemma ff_division_witness:
  "canonical 5 \<and> canonical 7 \<and> (7 :: ff_t) \<noteq> 0 \<and> ff_div 5 7 = 7023 \<and> ff_mul (ff_div 5 7) 7 = 5"
proof -
  have c: "canonical 5" "canonical 7" "(7 :: ff_t) \<noteq> 0" by (simp_all add: canonical_def ff_Q_eq)
  moreover have "ff_div 5 7 = 7023" by code_simp
  ultimately show ?thesis using ff_division [OF c] by blast
qed

end
