(* ===== verification/Falcon_NTT.thy ===== *)
theory Falcon_NTT
  imports Falcon_Field
begin

text \<open>
  The number theoretic transform of Falcon (\<^verbatim>\<open>src/include/crypto/falcon/ntt.hpp\<close>) and the coefficient-wise
  operations on transformed polynomials (\<^verbatim>\<open>polynomial.hpp\<close>).  A polynomial is the list of its
  \<^verbatim>\<open>N = 2 ^ LOG2N\<close> coefficients; the in-place loops update that list.  The locale
  \<open>ntt_tables\<close> states what the loops need of the tables of powers; it is interpreted on both
  tables of the code.
\<close>

unbundle bit_operations_syntax

section \<open>Tables\<close>

type_synonym poly = "ff_t list"

definition FALCON512_LOG2N :: nat where "FALCON512_LOG2N = 9"
definition FALCON512_N :: nat where "FALCON512_N = push_bit FALCON512_LOG2N 1"
definition FALCON1024_LOG2N :: nat where "FALCON1024_LOG2N = 10"
definition FALCON1024_N :: nat where "FALCON1024_N = push_bit FALCON1024_LOG2N 1"

definition FALCON512_zeta :: ff_t where "FALCON512_zeta = ff_make 49"
definition FALCON1024_zeta :: ff_t where "FALCON1024_zeta = ff_make 7"

definition INV_FALCON512_N :: ff_t where "INV_FALCON512_N = ff_inv (ff_make (of_nat FALCON512_N))"
definition INV_FALCON1024_N :: ff_t where "INV_FALCON1024_N = ff_inv (ff_make (of_nat FALCON1024_N))"

definition check_log2n :: "nat \<Rightarrow> bool" where
  "check_log2n lgn \<longleftrightarrow> lgn = FALCON512_LOG2N \<or> lgn = FALCON1024_LOG2N"

definition bit_rev :: "nat \<Rightarrow> u64 \<Rightarrow> u64" where
  "bit_rev mbw v = fold (\<lambda>i v_rev. v_rev XOR push_bit (mbw - 1 - i) (drop_bit i v AND 1)) [0..<mbw] 0"

definition compute_powers_of_zeta :: "nat \<Rightarrow> ff_t list" where
  "compute_powers_of_zeta N =
     (if N = FALCON512_N
      then map (\<lambda>i. ff_pow FALCON512_zeta (bit_rev FALCON512_LOG2N (of_nat i))) [0..<N]
      else map (\<lambda>i. ff_pow FALCON1024_zeta (bit_rev FALCON1024_LOG2N (of_nat i))) [0..<N])"

definition POWERS_OF_zeta_512 :: "ff_t list" where
  "POWERS_OF_zeta_512 = compute_powers_of_zeta FALCON512_N"
definition POWERS_OF_zeta_1024 :: "ff_t list" where
  "POWERS_OF_zeta_1024 = compute_powers_of_zeta FALCON1024_N"

definition compute_neg_powers_of_zeta :: "nat \<Rightarrow> ff_t list" where
  "compute_neg_powers_of_zeta N =
     (if N = FALCON512_N
      then map (\<lambda>i. ff_neg (POWERS_OF_zeta_512 ! i)) [0..<N]
      else map (\<lambda>i. ff_neg (POWERS_OF_zeta_1024 ! i)) [0..<N])"

definition NEG_POWERS_OF_zeta_512 :: "ff_t list" where
  "NEG_POWERS_OF_zeta_512 = compute_neg_powers_of_zeta FALCON512_N"
definition NEG_POWERS_OF_zeta_1024 :: "ff_t list" where
  "NEG_POWERS_OF_zeta_1024 = compute_neg_powers_of_zeta FALCON1024_N"

section \<open>Transforms\<close>

definition zeta_exp :: "nat \<Rightarrow> nat \<Rightarrow> ff_t" where
  "zeta_exp LOG2N k_now =
     (if LOG2N = FALCON512_LOG2N then POWERS_OF_zeta_512 ! k_now else POWERS_OF_zeta_1024 ! k_now)"

definition neg_zeta_exp :: "nat \<Rightarrow> nat \<Rightarrow> ff_t" where
  "neg_zeta_exp LOG2N k_now =
     (if LOG2N = FALCON512_LOG2N then NEG_POWERS_OF_zeta_512 ! k_now else NEG_POWERS_OF_zeta_1024 ! k_now)"

definition inv_n :: "nat \<Rightarrow> ff_t" where
  "inv_n LOG2N = (if LOG2N = FALCON512_LOG2N then INV_FALCON512_N else INV_FALCON1024_N)"

definition ntt_butterfly :: "ff_t \<Rightarrow> nat \<Rightarrow> nat \<Rightarrow> poly \<Rightarrow> poly" where
  "ntt_butterfly z len i poly =
     (let tmp = ff_mul z (poly ! (i + len));
          poly = poly[i + len := ff_sub (poly ! i) tmp]
      in poly[i := ff_add_assign (poly ! i) tmp])"

definition ntt_layer :: "nat \<Rightarrow> nat \<Rightarrow> poly \<Rightarrow> poly" where
  "ntt_layer LOG2N l poly =
     (let N = push_bit LOG2N 1; len = push_bit l 1; lenx2 = push_bit 1 len; k_beg = drop_bit (l + 1) N
      in fold (\<lambda>start poly.
           let k_now = k_beg + drop_bit (l + 1) start
           in fold (ntt_butterfly (zeta_exp LOG2N k_now) len) [start..<start + len] poly)
         (map (\<lambda>b. b * lenx2) [0..<N div lenx2]) poly)"

definition ntt :: "nat \<Rightarrow> poly \<Rightarrow> poly" where
  "ntt LOG2N poly = fold (ntt_layer LOG2N) (rev [0..<LOG2N]) poly"

definition intt_butterfly :: "ff_t \<Rightarrow> nat \<Rightarrow> nat \<Rightarrow> poly \<Rightarrow> poly" where
  "intt_butterfly neg_z len i poly =
     (let tmp = poly ! i;
          poly = poly[i := ff_add_assign (poly ! i) (poly ! (i + len))];
          poly = poly[i + len := ff_sub tmp (poly ! (i + len))]
      in poly[i + len := ff_mul_assign (poly ! (i + len)) neg_z])"

definition intt_layer :: "nat \<Rightarrow> nat \<Rightarrow> poly \<Rightarrow> poly" where
  "intt_layer LOG2N l poly =
     (let N = push_bit LOG2N 1; len = push_bit l 1; lenx2 = push_bit 1 len; k_beg = drop_bit l N - 1
      in fold (\<lambda>start poly.
           let k_now = k_beg - drop_bit (l + 1) start
           in fold (intt_butterfly (neg_zeta_exp LOG2N k_now) len) [start..<start + len] poly)
         (map (\<lambda>b. b * lenx2) [0..<N div lenx2]) poly)"

definition intt :: "nat \<Rightarrow> poly \<Rightarrow> poly" where
  "intt LOG2N poly = map (\<lambda>c. ff_mul_assign c (inv_n LOG2N)) (fold (intt_layer LOG2N) [0..<LOG2N] poly)"

section \<open>Coefficient-wise operations\<close>

definition poly_add_to :: "poly \<Rightarrow> poly \<Rightarrow> poly" where
  "poly_add_to polya polyb = map2 ff_add_assign polya polyb"

definition poly_neg :: "poly \<Rightarrow> poly" where
  "poly_neg p = map ff_neg p"

definition poly_mul :: "poly \<Rightarrow> poly \<Rightarrow> poly" where
  "poly_mul polya polyb = map2 ff_mul polya polyb"

definition poly_div :: "poly \<Rightarrow> poly \<Rightarrow> poly" where
  "poly_div polya polyb = map2 ff_div polya polyb"

section \<open>Bit reversal\<close>

definition brv :: "nat \<Rightarrow> nat \<Rightarrow> nat" where
  "brv L k = horner_sum of_bool 2 (map (bit k) (rev [0..<L]))"

lemma bit_rev_fold:
  assumes "m \<le> L" "L \<le> 64"
  shows "bit (fold (\<lambda>i v_rev. v_rev XOR push_bit (L - 1 - i) (drop_bit i v AND 1)) [0..<m] (0 :: u64)) j
    \<longleftrightarrow> L - m \<le> j \<and> j < L \<and> bit v (L - 1 - j)"
  using assms(1)
proof (induction m)
  case (Suc m)
  have "bit (push_bit (L - 1 - m) (drop_bit m v AND 1)) j \<longleftrightarrow> j = L - 1 - m \<and> bit v m"
    using Suc.prems assms(2) by (auto simp: bit_simps bit_push_bit_iff bit_1_iff)
  then show ?case using Suc by (cases "j = L - 1 - m") (auto simp: bit_xor_iff Suc_diff_Suc)
qed simp

lemma unat_bit_rev:
  assumes "L \<le> 64"
  shows "unat (bit_rev L v) = brv L (unat v)"
proof (rule bit_eqI)
  fix n
  have "bit (bit_rev L v) n \<longleftrightarrow> n < L \<and> bit v (L - 1 - n)"
    using bit_rev_fold [OF order_refl assms, of v n] by (simp add: bit_rev_def)
  then show "bit (unat (bit_rev L v)) n \<longleftrightarrow> bit (brv L (unat v)) n"
    by (auto simp: brv_def bit_unsigned_iff bit_horner_sum_bit_iff rev_nth)
qed

lemma brv_Suc_high: "brv (Suc L) k = of_bool (bit k L) + 2 * brv L k"
  by (simp add: brv_def)

lemma brv_Suc_low: "brv (Suc L) (2 * k + of_bool c) = brv L k + 2 ^ L * of_bool c"
proof -
  have "rev [0..<Suc L] = map Suc (rev [0..<L]) @ [0]"
    by (simp add: map_Suc_upt rev_map [symmetric] upt_conv_Cons del: upt_Suc)
  then show ?thesis by (simp add: brv_def horner_sum_append comp_def bit_Suc bit_0 del: upt_Suc)
qed

lemma brv_double: "k < 2 ^ L \<Longrightarrow> brv (Suc L) k = 2 * brv L k"
  by (simp add: brv_Suc_high bit_iff_odd)

lemma brv_complement:
  "\<lbrakk>d < L; b < 2 ^ d\<rbrakk> \<Longrightarrow> brv L (2 ^ d + b) + brv L (2 ^ Suc d - 1 - b) = 2 ^ L"
proof (induction L arbitrary: d b)
  case (Suc L)
  show ?case
  proof (cases d)
    case 0
    have "brv L 0 = 0" by (induction L) (simp_all add: brv_Suc_high brv_def [of 0])
    then show ?thesis using 0 Suc.prems brv_Suc_low [of L 0 True] by simp
  next
    case (Suc e)
    define c where "c = odd b"
    have b: "b = 2 * (b div 2) + of_bool c" by (simp add: c_def)
    have lt: "b div 2 < 2 ^ e" using Suc.prems Suc by simp
    have k: "2 ^ d + b = 2 * (2 ^ e + b div 2) + of_bool c" using b Suc by simp
    have k': "2 ^ Suc d - 1 - b = 2 * (2 ^ Suc e - 1 - b div 2) + of_bool (\<not> c)"
      using lt b Suc by (cases c) simp_all
    have "brv L (2 ^ e + b div 2) + brv L (2 ^ Suc e - 1 - b div 2) = 2 ^ L"
      using Suc.IH [of e "b div 2"] Suc.prems Suc lt by simp
    then show ?thesis unfolding k k' brv_Suc_low by (cases c) simp_all
  qed
qed simp

section \<open>In-place loops\<close>

text \<open>A step that replaces two entries \<open>len\<close> apart by a function of both; both butterflies are of this form.\<close>

definition pair_step :: "('a \<Rightarrow> 'a \<Rightarrow> 'a \<times> 'a) \<Rightarrow> nat \<Rightarrow> nat \<Rightarrow> 'a list \<Rightarrow> 'a list" where
  "pair_step F len i p = (let (u, v) = F (p ! i) (p ! (i + len)) in p[i := u, i + len := v])"

lemma length_pair_step [simp]: "length (pair_step F len i p) = length p"
  by (simp add: pair_step_def split: prod.splits)

lemma length_fold_invariant: "(\<And>x p. length (f x p) = length p) \<Longrightarrow> length (fold f xs p) = length p"
  by (induction xs arbitrary: p) simp_all

lemma pair_step_nth:
  "\<lbrakk>0 < len; i + len < length p; j < length p\<rbrakk> \<Longrightarrow> pair_step F len i p ! j =
     (if j = i then fst (F (p ! i) (p ! (i + len)))
      else if j = i + len then snd (F (p ! i) (p ! (i + len))) else p ! j)"
  by (auto simp: pair_step_def nth_list_update split: prod.splits)

lemma pair_block_nth:
  assumes "0 < len" "start + 2 * len \<le> length p" "m \<le> len" "j < length p"
  shows "fold (pair_step F len) [start..<start + m] p ! j =
     (if start \<le> j \<and> j < start + m then fst (F (p ! j) (p ! (j + len)))
      else if start + len \<le> j \<and> j < start + len + m then snd (F (p ! (j - len)) (p ! j)) else p ! j)"
  using assms(3,4)
proof (induction m arbitrary: j)
  case (Suc m)
  let ?q = "fold (pair_step F len) [start..<start + m] p"
  have l: "length ?q = length p" by (rule length_fold_invariant) simp
  have eq: "fold (pair_step F len) [start..<start + Suc m] p = pair_step F len (start + m) ?q" by simp
  have "?q ! (start + m) = p ! (start + m)" "?q ! (start + m + len) = p ! (start + m + len)"
    using Suc.prems assms(1,2) by (simp_all add: Suc.IH)
  then show ?case unfolding eq
    using Suc.prems assms(1,2) l Suc.IH [of j] by (subst pair_step_nth) auto
qed auto

definition pair_layer :: "(nat \<Rightarrow> 'a \<Rightarrow> 'a \<Rightarrow> 'a \<times> 'a) \<Rightarrow> nat \<Rightarrow> nat \<Rightarrow> 'a list \<Rightarrow> 'a list" where
  "pair_layer F len n p = fold (\<lambda>b. fold (pair_step (F b) len) [b * (2 * len)..<b * (2 * len) + len]) [0..<n] p"

lemma length_pair_layer [simp]: "length (pair_layer F len n p) = length p"
  unfolding pair_layer_def by (intro length_fold_invariant) simp

lemma pair_layer_Suc: "pair_layer F len (Suc n) p =
    fold (pair_step (F n) len) [n * (2 * len)..<n * (2 * len) + len] (pair_layer F len n p)"
  by (simp add: pair_layer_def)

lemma pair_layer_above:
  "\<lbrakk>0 < len; n * (2 * len) \<le> length p; n * (2 * len) \<le> j; j < length p\<rbrakk> \<Longrightarrow> pair_layer F len n p ! j = p ! j"
proof (induction n)
  case (Suc n)
  then show ?case by (simp add: pair_layer_Suc pair_block_nth)
qed (simp add: pair_layer_def)

lemma block_below: "\<lbrakk>b < n; r < 2 * len\<rbrakk> \<Longrightarrow> b * (2 * len) + r < n * (2 * (len :: nat))"
proof -
  assume "b < n" "r < 2 * len"
  then have "b * (2 * len) + r < Suc b * (2 * len)" by simp
  also have "\<dots> \<le> n * (2 * len)" using \<open>b < n\<close> by (intro mult_le_mono1) simp
  finally show ?thesis .
qed

lemma pair_layer_block:
  assumes "n * (2 * len) \<le> length p" "b < n" "r < len"
  shows "pair_layer F len n p ! (b * (2 * len) + r)
      = fst (F b (p ! (b * (2 * len) + r)) (p ! (b * (2 * len) + r + len)))
    \<and> pair_layer F len n p ! (b * (2 * len) + r + len)
      = snd (F b (p ! (b * (2 * len) + r)) (p ! (b * (2 * len) + r + len)))"
  using assms(1,2)
proof (induction n)
  case (Suc n)
  let ?i = "b * (2 * len) + r"
  have lt: "?i + len < length p" "?i < length p"
    using block_below [of b "Suc n" "r + len" len] Suc.prems assms(3) by simp_all
  note blk = pair_block_nth [of len "n * (2 * len)" "pair_layer F len n p" len _ "F n"]
  show ?case
  proof (cases "b = n")
    case True
    then show ?thesis using Suc.prems assms(3) lt by (simp add: pair_layer_Suc blk pair_layer_above)
  next
    case False
    then have "?i + len < n * (2 * len)" using block_below [of b n "r + len" len] Suc.prems assms(3) by simp
    then show ?thesis using Suc False assms(3) lt by (simp add: pair_layer_Suc blk)
  qed
qed simp_all

lemma block_index:
  fixes j n len :: nat
  assumes "j < n * (2 * len)"
  obtains b r where "b < n" "r < len" "j = b * (2 * len) + r"
  | b r where "b < n" "r < len" "j = b * (2 * len) + r + len"
proof -
  have len: "0 < len" using assms by (cases len) simp_all
  define b where "b = j div (2 * len)"
  define r where "r = j mod (2 * len)"
  have j: "j = b * (2 * len) + r" by (simp only: b_def r_def div_mult_mod_eq)
  have b: "b < n" unfolding b_def using assms by (simp add: less_mult_imp_div_less)
  have r: "r < 2 * len" using len by (simp add: r_def)
  show thesis
  proof (cases "r < len")
    case True
    then show thesis using that(1) b j by blast
  next
    case False
    then have "j = b * (2 * len) + (r - len) + len" "r - len < len" using r j by simp_all
    then show thesis using that(2) b by blast
  qed
qed

definition ct_pair :: "ff_t \<Rightarrow> ff_t \<Rightarrow> ff_t \<Rightarrow> ff_t \<times> ff_t" where
  "ct_pair z a c = (ff_add_assign a (ff_mul z c), ff_sub a (ff_mul z c))"

definition gs_pair :: "ff_t \<Rightarrow> ff_t \<Rightarrow> ff_t \<Rightarrow> ff_t \<times> ff_t" where
  "gs_pair nz a c = (ff_add_assign a c, ff_mul_assign (ff_sub a c) nz)"

lemma ntt_butterfly_pair: "0 < len \<Longrightarrow> ntt_butterfly z len = pair_step (ct_pair z) len"
  by (intro ext) (simp add: ntt_butterfly_def pair_step_def ct_pair_def Let_def list_update_swap)

lemma intt_butterfly_pair: "0 < len \<Longrightarrow> intt_butterfly nz len = pair_step (gs_pair nz) len"
proof (intro ext)
  fix i and p :: poly
  assume "0 < len"
  then show "intt_butterfly nz len i p = pair_step (gs_pair nz) len i p"
    by (cases "i + len < length p")
      (simp_all add: intt_butterfly_def pair_step_def gs_pair_def Let_def list_update_beyond)
qed

lemma layer_sizes:
  assumes "l < (L :: nat)"
  shows "push_bit 1 (push_bit l 1) = 2 * (2 :: nat) ^ l"
    and "push_bit L 1 div (2 * 2 ^ l) = (2 :: nat) ^ (L - l - 1)"
    and "drop_bit (l + 1) (push_bit L (1 :: nat)) = 2 ^ (L - l - 1)"
    and "drop_bit l (push_bit L (1 :: nat)) - 1 = 2 ^ Suc (L - l - 1) - 1"
    and "drop_bit (l + 1) (b * (2 * 2 ^ l)) = (b :: nat)"
    and "2 ^ (L - l - 1) * (2 * 2 ^ l) = (2 :: nat) ^ L"
proof -
  obtain d where d: "L = Suc l + d" using assms by (metis add_Suc less_imp_Suc_add)
  show "push_bit 1 (push_bit l 1) = 2 * (2 :: nat) ^ l" by (simp add: push_bit_eq_mult)
  show "push_bit L 1 div (2 * 2 ^ l) = (2 :: nat) ^ (L - l - 1)"
    and "drop_bit (l + 1) (push_bit L (1 :: nat)) = 2 ^ (L - l - 1)"
    and "drop_bit l (push_bit L (1 :: nat)) - 1 = 2 ^ Suc (L - l - 1) - 1"
    and "drop_bit (l + 1) (b * (2 * 2 ^ l)) = (b :: nat)"
    and "2 ^ (L - l - 1) * (2 * 2 ^ l) = (2 :: nat) ^ L"
    by (simp_all add: d push_bit_eq_mult drop_bit_eq_div power_add)
qed

lemma fold_blocks: "fold f (map g xs) = fold (\<lambda>x. f (g x)) xs"
  by (simp add: fold_map comp_def)

lemma ntt_layer_pair:
  "l < L \<Longrightarrow> ntt_layer L l p = pair_layer (\<lambda>b. ct_pair (zeta_exp L (2 ^ (L - l - 1) + b))) (2 ^ l) (2 ^ (L - l - 1)) p"
  unfolding ntt_layer_def pair_layer_def Let_def layer_sizes fold_blocks
  by (simp add: ntt_butterfly_pair push_bit_eq_mult)

lemma intt_layer_pair:
  "l < L \<Longrightarrow> intt_layer L l p =
     pair_layer (\<lambda>b. gs_pair (neg_zeta_exp L (2 ^ Suc (L - l - 1) - 1 - b))) (2 ^ l) (2 ^ (L - l - 1)) p"
  unfolding intt_layer_def pair_layer_def Let_def layer_sizes fold_blocks
  by (simp add: intt_butterfly_pair push_bit_eq_mult)

section \<open>What the transforms compute\<close>

definition is_poly :: "nat \<Rightarrow> poly \<Rightarrow> bool" where
  "is_poly LOG2N p \<longleftrightarrow> length p = 2 ^ LOG2N \<and> list_all canonical p"

definition coeff :: "poly \<Rightarrow> nat \<Rightarrow> zq" where
  "coeff p i = zq_of (p ! i)"

definition poly_eval :: "poly \<Rightarrow> zq \<Rightarrow> zq" where
  "poly_eval p x = (\<Sum>i<length p. coeff p i * x ^ i)"

lemma is_poly_nth: "\<lbrakk>is_poly L p; i < 2 ^ L\<rbrakk> \<Longrightarrow> canonical (p ! i)"
  by (simp add: is_poly_def list_all_length)

lemma is_poly_eqI:
  assumes "is_poly L p" "is_poly L q" "\<And>i. i < 2 ^ L \<Longrightarrow> coeff p i = coeff q i"
  shows "p = q"
  using assms by (intro nth_equalityI) (auto simp: is_poly_def list_all_length coeff_def intro: zq_of_inj)

lemma ct_pair:
  assumes "canonical z" "canonical a" "canonical c"
  shows "zq_of (fst (ct_pair z a c)) = zq_of a + zq_of z * zq_of c" "canonical (fst (ct_pair z a c))"
    and "zq_of (snd (ct_pair z a c)) = zq_of a - zq_of z * zq_of c" "canonical (snd (ct_pair z a c))"
  using assms by (simp_all add: ct_pair_def falcon_field_simps)

lemma gs_pair:
  assumes "canonical nz" "canonical a" "canonical c"
  shows "zq_of (fst (gs_pair nz a c)) = zq_of a + zq_of c" "canonical (fst (gs_pair nz a c))"
    and "zq_of (snd (gs_pair nz a c)) = (zq_of a - zq_of c) * zq_of nz" "canonical (snd (gs_pair nz a c))"
  using assms by (simp_all add: gs_pair_def falcon_field_simps)

text \<open>A layer over polynomials, given what its butterfly does to two coefficients.\<close>

lemma pair_layer_poly:
  fixes F :: "nat \<Rightarrow> ff_t \<Rightarrow> ff_t \<Rightarrow> ff_t \<times> ff_t"
  assumes "is_poly L p" "n * (2 * len) = 2 ^ L"
    and F: "\<And>b a c. \<lbrakk>b < n; canonical a; canonical c\<rbrakk> \<Longrightarrow> canonical (fst (F b a c)) \<and> canonical (snd (F b a c))
      \<and> zq_of (fst (F b a c)) = f b (zq_of a) (zq_of c) \<and> zq_of (snd (F b a c)) = g b (zq_of a) (zq_of c)"
  shows "is_poly L (pair_layer F len n p)"
    and "\<lbrakk>b < n; r < len\<rbrakk> \<Longrightarrow> coeff (pair_layer F len n p) (b * (2 * len) + r)
      = f b (coeff p (b * (2 * len) + r)) (coeff p (b * (2 * len) + r + len))"
    and "\<lbrakk>b < n; r < len\<rbrakk> \<Longrightarrow> coeff (pair_layer F len n p) (b * (2 * len) + r + len)
      = g b (coeff p (b * (2 * len) + r)) (coeff p (b * (2 * len) + r + len))"
proof -
  have len: "n * (2 * len) \<le> length p" using assms by (simp add: is_poly_def)
  have can: "canonical (p ! (b * (2 * len) + r))" "canonical (p ! (b * (2 * len) + r + len))"
    if "b < n" "r < len" for b r
    using that assms(1,2) block_below [of b n r len] block_below [of b n "r + len" len]
    by (auto intro!: is_poly_nth simp: add.assoc)
  have "canonical (pair_layer F len n p ! j)" if "j < 2 ^ L" for j
    using that unfolding assms(2) [symmetric]
    by (cases rule: block_index) (auto simp: pair_layer_block [OF len] F can)
  then show "is_poly L (pair_layer F len n p)" using assms(1) by (simp add: is_poly_def list_all_length)
  show "coeff (pair_layer F len n p) (b * (2 * len) + r)
      = f b (coeff p (b * (2 * len) + r)) (coeff p (b * (2 * len) + r + len))"
    and "coeff (pair_layer F len n p) (b * (2 * len) + r + len)
      = g b (coeff p (b * (2 * len) + r)) (coeff p (b * (2 * len) + r + len))" if "b < n" "r < len"
    using that by (simp_all add: coeff_def pair_layer_block [OF len] F can)
qed

text \<open>The product modulo \<open>X ^ N + 1\<close>: a power above \<open>N\<close> comes back with its sign changed.\<close>

definition negacyclic :: "nat \<Rightarrow> poly \<Rightarrow> poly \<Rightarrow> nat \<Rightarrow> zq" where
  "negacyclic N a b k = (\<Sum>i<N. coeff a i * (if i \<le> k then coeff b (k - i) else - coeff b (N + k - i)))"

lemma sum_split: "(\<Sum>i<m + (n :: nat). f i) = (\<Sum>i<m. f i) + (\<Sum>i<n. f (m + i) :: 'a::comm_monoid_add)"
  by (induction n) (simp_all add: add.assoc)

lemma rotate_eval:
  fixes x :: zq
  assumes "i < N" "x ^ N = - 1"
  shows "(\<Sum>k<N. (if i \<le> k then b (k - i) else - b (N + k - i)) * x ^ k) = x ^ i * (\<Sum>j<N. b j * x ^ j)"
proof -
  have N: "N = i + (N - i)" "N = (N - i) + i" using assms(1) by simp_all
  have "(\<Sum>k<N. (if i \<le> k then b (k - i) else - b (N + k - i)) * x ^ k)
      = (\<Sum>k<i. - b (N - i + k) * x ^ k) + (\<Sum>k<N - i. b k * x ^ (i + k))"
    by (subst N(1), subst sum_split) (use assms(1) in simp)
  moreover have "x ^ i * (\<Sum>j<N. b j * x ^ j)
      = (\<Sum>k<N - i. b k * x ^ (i + k)) + (\<Sum>k<i. b (N - i + k) * x ^ (N + k))"
  proof -
    have "x ^ i * (\<Sum>j<N. b j * x ^ j) = (\<Sum>j<(N - i) + i. b j * x ^ (i + j))"
      using assms(1) by (simp add: sum_distrib_left power_add mult.left_commute)
    also have "\<dots> = (\<Sum>k<N - i. b k * x ^ (i + k)) + (\<Sum>k<i. b (N - i + k) * x ^ (i + (N - i + k)))"
      by (rule sum_split)
    finally show ?thesis using assms(1) by (simp add: add.assoc [symmetric])
  qed
  ultimately show ?thesis by (simp add: power_add assms(2) sum_negf)
qed

lemma negacyclic_eval:
  assumes "x ^ N = - 1" "length a = N" "length b = N"
  shows "(\<Sum>k<N. negacyclic N a b k * x ^ k) = poly_eval a x * poly_eval b x"
proof -
  have "(\<Sum>k<N. negacyclic N a b k * x ^ k)
      = (\<Sum>i<N. coeff a i * (\<Sum>k<N. (if i \<le> k then coeff b (k - i) else - coeff b (N + k - i)) * x ^ k))"
    by (simp only: negacyclic_def sum_distrib_right sum_distrib_left mult.assoc) (rule sum.swap)
  also have "\<dots> = (\<Sum>i<N. coeff a i * (x ^ i * poly_eval b x))"
    by (rule sum.cong) (use assms in \<open>simp_all only: rotate_eval poly_eval_def lessThan_iff\<close>)
  finally show ?thesis by (simp only: poly_eval_def assms(2) sum_distrib_right mult.assoc)
qed

lemma zq_surj: "\<exists>a. canonical a \<and> zq_of a = v"
proof (cases v rule: bit1_cases)
  case (of_int z)
  then have z: "0 \<le> z" "z < 12289" by simp_all
  have "unat (of_nat (nat z) :: u16) = nat z" unfolding unat_of_nat using z by simp
  then have "canonical (of_nat (nat z))" "zq_of (of_nat (nat z)) = of_nat (nat z)"
    using z by (simp_all add: canonical_unat zq_of_def del: of_nat_unat)
  then show ?thesis using of_int z by (metis of_nat_nat of_int_of_nat_eq)
qed

lemma poly_exists: "\<exists>p. is_poly L p \<and> (\<forall>k<2 ^ L. coeff p k = f k)"
proof -
  have *: "canonical (SOME a. canonical a \<and> zq_of a = v) \<and> zq_of (SOME a. canonical a \<and> zq_of a = v) = v" for v
    by (rule someI_ex [OF zq_surj])
  show ?thesis
    by (rule exI [of _ "map (\<lambda>k. SOME a. canonical a \<and> zq_of a = f k) [0..<2 ^ L]"])
      (simp add: is_poly_def coeff_def list_all_length *)
qed

definition scaled :: "nat \<Rightarrow> zq \<Rightarrow> poly \<Rightarrow> poly \<Rightarrow> bool" where
  "scaled L c p q \<longleftrightarrow> is_poly L p \<and> is_poly L q \<and> (\<forall>j<2 ^ L. coeff q j = c * coeff p j)"

lemma scaled_blockI:
  assumes "is_poly L p" "is_poly L q" "l < L"
    and "\<And>b r. \<lbrakk>b < 2 ^ (L - l - 1); r < 2 ^ l\<rbrakk> \<Longrightarrow> coeff q (b * (2 * 2 ^ l) + r) = c * coeff p (b * (2 * 2 ^ l) + r)"
    and "\<And>b r. \<lbrakk>b < 2 ^ (L - l - 1); r < 2 ^ l\<rbrakk> \<Longrightarrow>
      coeff q (b * (2 * 2 ^ l) + r + 2 ^ l) = c * coeff p (b * (2 * 2 ^ l) + r + 2 ^ l)"
  shows "scaled L c p q"
proof -
  have "coeff q j = c * coeff p j" if "j < 2 ^ L" for j
    using that unfolding layer_sizes(6) [OF assms(3), symmetric]
    by (cases rule: block_index) (simp_all add: assms(4,5))
  then show ?thesis using assms(1,2) by (simp add: scaled_def)
qed

lemma scaled_block:
  assumes "scaled L c p q" "l < L" "b < 2 ^ (L - l - 1)" "r < 2 ^ l"
  shows "coeff q (b * (2 * 2 ^ l) + r) = c * coeff p (b * (2 * 2 ^ l) + r)"
    and "coeff q (b * (2 * 2 ^ l) + r + 2 ^ l) = c * coeff p (b * (2 * 2 ^ l) + r + 2 ^ l)"
  using assms(1,4) block_below [OF assms(3), of r "2 ^ l"] block_below [OF assms(3), of "r + 2 ^ l" "2 ^ l"]
  unfolding layer_sizes(6) [OF assms(2)] by (simp_all add: scaled_def add.assoc)

lemma scaled_trans: "\<lbrakk>scaled L c p q; scaled L d q r\<rbrakk> \<Longrightarrow> scaled L (c * d) p r"
  by (simp add: scaled_def mult.assoc mult.left_commute)

lemma scaled_eq: "scaled L 1 p q \<Longrightarrow> q = p"
  by (auto simp: scaled_def intro: is_poly_eqI)

locale ntt_tables =
  fixes LOG2N :: nat and root :: zq
  assumes root: "root ^ 2 ^ LOG2N = - 1"
    and zeta: "k < 2 ^ LOG2N \<Longrightarrow> zq_of (zeta_exp LOG2N k) = root ^ brv LOG2N k"
    and canonical_zeta: "k < 2 ^ LOG2N \<Longrightarrow> canonical (zeta_exp LOG2N k)"
    and neg_zeta: "k < 2 ^ LOG2N \<Longrightarrow> zq_of (neg_zeta_exp LOG2N k) = - (root ^ brv LOG2N k)"
    and canonical_neg_zeta: "k < 2 ^ LOG2N \<Longrightarrow> canonical (neg_zeta_exp LOG2N k)"
    and inv_n: "zq_of (inv_n LOG2N) * 2 ^ LOG2N = 1" "canonical (inv_n LOG2N)"
begin

text \<open>The node \<open>k\<close> of the tree of remainders holds the remainder modulo \<open>X ^ len - twist k\<close>.\<close>

abbreviation twist :: "nat \<Rightarrow> zq" where
  "twist k \<equiv> root ^ brv (Suc LOG2N) k"

lemma twist_left: "twist (2 * k) = root ^ brv LOG2N k"
  using brv_Suc_low [of LOG2N k False] by simp

lemma twist_right: "twist (2 * k + 1) = - (root ^ brv LOG2N k)"
  using brv_Suc_low [of LOG2N k True] by (simp add: power_add root)

lemma twist_square: "k < 2 ^ LOG2N \<Longrightarrow> root ^ brv LOG2N k * root ^ brv LOG2N k = twist k"
  by (simp add: brv_double power_add [symmetric] mult_2)

lemma twist_1: "twist 1 = - 1"
proof -
  have "brv LOG2N 0 = 0" by (induction LOG2N) (simp_all add: brv_Suc_high brv_def [of 0])
  then show ?thesis using twist_right [of 0] by simp
qed

lemma node_below: "\<lbrakk>l < LOG2N; b < 2 ^ (LOG2N - l - 1)\<rbrakk> \<Longrightarrow> 2 ^ (LOG2N - l - 1) + b < (2 :: nat) ^ LOG2N"
proof -
  assume "l < LOG2N" "b < 2 ^ (LOG2N - l - 1)"
  then have "2 ^ (LOG2N - l - 1) + b < 2 ^ Suc (LOG2N - l - 1)" by simp
  also have "\<dots> \<le> (2 :: nat) ^ LOG2N" using \<open>l < LOG2N\<close> by (intro power_increasing) simp_all
  finally show ?thesis .
qed

lemma neg_node_below: "\<lbrakk>l < LOG2N; b < 2 ^ (LOG2N - l - 1)\<rbrakk> \<Longrightarrow> 2 ^ Suc (LOG2N - l - 1) - 1 - b < (2 :: nat) ^ LOG2N"
proof -
  assume "l < LOG2N"
  then have "(2 :: nat) ^ Suc (LOG2N - l - 1) \<le> 2 ^ LOG2N" by (intro power_increasing) simp_all
  moreover have "0 < (2 :: nat) ^ Suc (LOG2N - l - 1)" by simp
  ultimately show ?thesis by linarith
qed

lemma ntt_layer_poly:
  assumes "is_poly LOG2N p" "l < LOG2N"
  shows "is_poly LOG2N (ntt_layer LOG2N l p)"
    and "\<lbrakk>b < 2 ^ (LOG2N - l - 1); r < 2 ^ l\<rbrakk> \<Longrightarrow> coeff (ntt_layer LOG2N l p) (b * (2 * 2 ^ l) + r)
      = coeff p (b * (2 * 2 ^ l) + r) + root ^ brv LOG2N (2 ^ (LOG2N - l - 1) + b) * coeff p (b * (2 * 2 ^ l) + r + 2 ^ l)"
    and "\<lbrakk>b < 2 ^ (LOG2N - l - 1); r < 2 ^ l\<rbrakk> \<Longrightarrow> coeff (ntt_layer LOG2N l p) (b * (2 * 2 ^ l) + r + 2 ^ l)
      = coeff p (b * (2 * 2 ^ l) + r) - root ^ brv LOG2N (2 ^ (LOG2N - l - 1) + b) * coeff p (b * (2 * 2 ^ l) + r + 2 ^ l)"
proof -
  have F: "canonical (fst (ct_pair (zeta_exp LOG2N (2 ^ (LOG2N - l - 1) + b)) a c))
      \<and> canonical (snd (ct_pair (zeta_exp LOG2N (2 ^ (LOG2N - l - 1) + b)) a c))
      \<and> zq_of (fst (ct_pair (zeta_exp LOG2N (2 ^ (LOG2N - l - 1) + b)) a c))
        = zq_of a + root ^ brv LOG2N (2 ^ (LOG2N - l - 1) + b) * zq_of c
      \<and> zq_of (snd (ct_pair (zeta_exp LOG2N (2 ^ (LOG2N - l - 1) + b)) a c))
        = zq_of a - root ^ brv LOG2N (2 ^ (LOG2N - l - 1) + b) * zq_of c"
    if "b < 2 ^ (LOG2N - l - 1)" "canonical a" "canonical c" for a b c
    using that by (simp only: ct_pair zeta canonical_zeta node_below [OF assms(2)] simp_thms)
  note P = pair_layer_poly [where F = "\<lambda>b. ct_pair (zeta_exp LOG2N (2 ^ (LOG2N - l - 1) + b))"
      and f = "\<lambda>b a c. a + root ^ brv LOG2N (2 ^ (LOG2N - l - 1) + b) * c"
      and g = "\<lambda>b a c. a - root ^ brv LOG2N (2 ^ (LOG2N - l - 1) + b) * c",
      OF assms(1) layer_sizes(6) [OF assms(2)] F, folded ntt_layer_pair [OF assms(2)]]
  show "is_poly LOG2N (ntt_layer LOG2N l p)" by (rule P(1); assumption)
  show "coeff (ntt_layer LOG2N l p) (b * (2 * 2 ^ l) + r) = coeff p (b * (2 * 2 ^ l) + r)
        + root ^ brv LOG2N (2 ^ (LOG2N - l - 1) + b) * coeff p (b * (2 * 2 ^ l) + r + 2 ^ l)"
    and "coeff (ntt_layer LOG2N l p) (b * (2 * 2 ^ l) + r + 2 ^ l) = coeff p (b * (2 * 2 ^ l) + r)
        - root ^ brv LOG2N (2 ^ (LOG2N - l - 1) + b) * coeff p (b * (2 * 2 ^ l) + r + 2 ^ l)"
    if "b < 2 ^ (LOG2N - l - 1)" "r < 2 ^ l"
    using that by - ((rule P(2); assumption), (rule P(3); assumption))
qed

lemma intt_layer_poly:
  assumes "is_poly LOG2N p" "l < LOG2N"
  shows "is_poly LOG2N (intt_layer LOG2N l p)"
    and "\<lbrakk>b < 2 ^ (LOG2N - l - 1); r < 2 ^ l\<rbrakk> \<Longrightarrow> coeff (intt_layer LOG2N l p) (b * (2 * 2 ^ l) + r)
      = coeff p (b * (2 * 2 ^ l) + r) + coeff p (b * (2 * 2 ^ l) + r + 2 ^ l)"
    and "\<lbrakk>b < 2 ^ (LOG2N - l - 1); r < 2 ^ l\<rbrakk> \<Longrightarrow> coeff (intt_layer LOG2N l p) (b * (2 * 2 ^ l) + r + 2 ^ l)
      = (coeff p (b * (2 * 2 ^ l) + r) - coeff p (b * (2 * 2 ^ l) + r + 2 ^ l))
        * - (root ^ brv LOG2N (2 ^ Suc (LOG2N - l - 1) - 1 - b))"
proof -
  have F: "canonical (fst (gs_pair (neg_zeta_exp LOG2N (2 ^ Suc (LOG2N - l - 1) - 1 - b)) a c))
      \<and> canonical (snd (gs_pair (neg_zeta_exp LOG2N (2 ^ Suc (LOG2N - l - 1) - 1 - b)) a c))
      \<and> zq_of (fst (gs_pair (neg_zeta_exp LOG2N (2 ^ Suc (LOG2N - l - 1) - 1 - b)) a c)) = zq_of a + zq_of c
      \<and> zq_of (snd (gs_pair (neg_zeta_exp LOG2N (2 ^ Suc (LOG2N - l - 1) - 1 - b)) a c))
        = (zq_of a - zq_of c) * - (root ^ brv LOG2N (2 ^ Suc (LOG2N - l - 1) - 1 - b))"
    if "b < 2 ^ (LOG2N - l - 1)" "canonical a" "canonical c" for a b c
    using that by (simp only: gs_pair neg_zeta canonical_neg_zeta neg_node_below [OF assms(2)] simp_thms)
  note P = pair_layer_poly [where F = "\<lambda>b. gs_pair (neg_zeta_exp LOG2N (2 ^ Suc (LOG2N - l - 1) - 1 - b))"
      and f = "\<lambda>b a c. a + c"
      and g = "\<lambda>b a c. (a - c) * - (root ^ brv LOG2N (2 ^ Suc (LOG2N - l - 1) - 1 - b))",
      OF assms(1) layer_sizes(6) [OF assms(2)] F, folded intt_layer_pair [OF assms(2)]]
  show "is_poly LOG2N (intt_layer LOG2N l p)" by (rule P(1); assumption)
  show "coeff (intt_layer LOG2N l p) (b * (2 * 2 ^ l) + r)
        = coeff p (b * (2 * 2 ^ l) + r) + coeff p (b * (2 * 2 ^ l) + r + 2 ^ l)"
    and "coeff (intt_layer LOG2N l p) (b * (2 * 2 ^ l) + r + 2 ^ l)
        = (coeff p (b * (2 * 2 ^ l) + r) - coeff p (b * (2 * 2 ^ l) + r + 2 ^ l))
          * - (root ^ brv LOG2N (2 ^ Suc (LOG2N - l - 1) - 1 - b))"
    if "b < 2 ^ (LOG2N - l - 1)" "r < 2 ^ l"
    using that by - ((rule P(2); assumption), (rule P(3); assumption))
qed

lemma zeta_inverse:
  assumes "l < LOG2N" "b < 2 ^ (LOG2N - l - 1)"
  shows "root ^ brv LOG2N (2 ^ (LOG2N - l - 1) + b) * - (root ^ brv LOG2N (2 ^ Suc (LOG2N - l - 1) - 1 - b)) = 1"
  using brv_complement [of "LOG2N - l - 1" LOG2N b] assms root by (simp add: power_add [symmetric])

lemma layers_inverse:
  assumes "is_poly LOG2N p" "l < LOG2N"
  shows "scaled LOG2N 2 p (intt_layer LOG2N l (ntt_layer LOG2N l p))"
    and "scaled LOG2N 2 p (ntt_layer LOG2N l (intt_layer LOG2N l p))"
proof -
  note n = ntt_layer_poly [OF _ assms(2)] and i = intt_layer_poly [OF _ assms(2)]
  have z: "(c + zz * a - (c - zz * a)) * - z' = 2 * a" "zz * ((a - c) * - z') = a - c"
    if "zz * - z' = 1" for a c zz z' :: zq
  proof -
    have "(c + zz * a - (c - zz * a)) * - z' = 2 * a * (zz * - z')" by (simp add: algebra_simps)
    then show "(c + zz * a - (c - zz * a)) * - z' = 2 * a" by (simp only: that mult_1_right)
    have "zz * ((a - c) * - z') = (a - c) * (zz * - z')" by (simp add: algebra_simps)
    then show "zz * ((a - c) * - z') = a - c" by (simp only: that mult_1_right)
  qed
  show "scaled LOG2N 2 p (intt_layer LOG2N l (ntt_layer LOG2N l p))"
  proof (rule scaled_blockI [OF assms(1) i(1) [OF n(1) [OF assms(1)]] assms(2)])
    fix b r :: nat assume b: "b < 2 ^ (LOG2N - l - 1)" "r < 2 ^ l"
    show "coeff (intt_layer LOG2N l (ntt_layer LOG2N l p)) (b * (2 * 2 ^ l) + r) = 2 * coeff p (b * (2 * 2 ^ l) + r)"
      unfolding i(2) [OF n(1) [OF assms(1)] b] n(2,3) [OF assms(1) b] by (simp add: algebra_simps)
    show "coeff (intt_layer LOG2N l (ntt_layer LOG2N l p)) (b * (2 * 2 ^ l) + r + 2 ^ l)
        = 2 * coeff p (b * (2 * 2 ^ l) + r + 2 ^ l)"
      unfolding i(3) [OF n(1) [OF assms(1)] b] n(2,3) [OF assms(1) b]
      by (rule z(1) [OF zeta_inverse [OF assms(2) b(1)]])
  qed
  show "scaled LOG2N 2 p (ntt_layer LOG2N l (intt_layer LOG2N l p))"
  proof (rule scaled_blockI [OF assms(1) n(1) [OF i(1) [OF assms(1)]] assms(2)])
    fix b r :: nat assume b: "b < 2 ^ (LOG2N - l - 1)" "r < 2 ^ l"
    show "coeff (ntt_layer LOG2N l (intt_layer LOG2N l p)) (b * (2 * 2 ^ l) + r) = 2 * coeff p (b * (2 * 2 ^ l) + r)"
      and "coeff (ntt_layer LOG2N l (intt_layer LOG2N l p)) (b * (2 * 2 ^ l) + r + 2 ^ l)
        = 2 * coeff p (b * (2 * 2 ^ l) + r + 2 ^ l)"
      unfolding n(2,3) [OF i(1) [OF assms(1)] b] i(2,3) [OF assms(1) b] z(2) [OF zeta_inverse [OF assms(2) b(1)]]
      by simp_all
  qed
qed

lemma layers_scaled:
  assumes "scaled LOG2N c p q" "l < LOG2N"
  shows "scaled LOG2N c (ntt_layer LOG2N l p) (ntt_layer LOG2N l q)"
    and "scaled LOG2N c (intt_layer LOG2N l p) (intt_layer LOG2N l q)"
proof -
  have P: "is_poly LOG2N p" "is_poly LOG2N q" using assms(1) by (simp_all add: scaled_def)
  note s = scaled_block [OF assms]
  note n = ntt_layer_poly [OF _ assms(2)] and i = intt_layer_poly [OF _ assms(2)]
  show "scaled LOG2N c (ntt_layer LOG2N l p) (ntt_layer LOG2N l q)"
    by (rule scaled_blockI [OF n(1) [OF P(1)] n(1) [OF P(2)] assms(2)])
      (simp_all only: n(2,3) [OF P(1)] n(2,3) [OF P(2)] s, simp_all only: algebra_simps)
  show "scaled LOG2N c (intt_layer LOG2N l p) (intt_layer LOG2N l q)"
    by (rule scaled_blockI [OF i(1) [OF P(1)] i(1) [OF P(2)] assms(2)])
      (simp_all only: i(2,3) [OF P(1)] i(2,3) [OF P(2)] s, simp_all only: algebra_simps)
qed

lemma fold_layers_scaled:
  assumes "scaled LOG2N c p q" "m \<le> LOG2N"
  shows "scaled LOG2N c (fold (ntt_layer LOG2N) (rev [0..<m]) p) (fold (ntt_layer LOG2N) (rev [0..<m]) q)"
  using assms by (induction m arbitrary: p q) (simp_all add: layers_scaled)

lemma fold_layers_poly:
  assumes "is_poly LOG2N p" "m \<le> LOG2N"
  shows "is_poly LOG2N (fold (ntt_layer LOG2N) (rev [0..<m]) p)" "is_poly LOG2N (fold (intt_layer LOG2N) [0..<m] p)"
  using assms by (induction m arbitrary: p) (simp_all add: ntt_layer_poly intt_layer_poly)

lemma fold_layers_inverse:
  assumes "is_poly LOG2N p" "m \<le> LOG2N"
  shows "scaled LOG2N (2 ^ m) p (fold (intt_layer LOG2N) [0..<m] (fold (ntt_layer LOG2N) (rev [0..<m]) p))"
    and "scaled LOG2N (2 ^ m) p (fold (ntt_layer LOG2N) (rev [0..<m]) (fold (intt_layer LOG2N) [0..<m] p))"
proof -
  show "scaled LOG2N (2 ^ m) p (fold (intt_layer LOG2N) [0..<m] (fold (ntt_layer LOG2N) (rev [0..<m]) p))"
    using assms
  proof (induction m arbitrary: p)
    case (Suc m)
    let ?q = "ntt_layer LOG2N m p"
    have "scaled LOG2N (2 ^ m) ?q (fold (intt_layer LOG2N) [0..<m] (fold (ntt_layer LOG2N) (rev [0..<m]) ?q))"
      using Suc by (simp add: ntt_layer_poly)
    then have "scaled LOG2N (2 ^ m) (intt_layer LOG2N m ?q)
        (intt_layer LOG2N m (fold (intt_layer LOG2N) [0..<m] (fold (ntt_layer LOG2N) (rev [0..<m]) ?q)))"
      using Suc.prems by (simp add: layers_scaled)
    with layers_inverse(1) [of p m] Suc.prems show ?case by (auto dest: scaled_trans)
  qed (simp add: scaled_def)
  show "scaled LOG2N (2 ^ m) p (fold (ntt_layer LOG2N) (rev [0..<m]) (fold (intt_layer LOG2N) [0..<m] p))"
    using assms
  proof (induction m arbitrary: p)
    case (Suc m)
    let ?q = "fold (intt_layer LOG2N) [0..<m] p"
    have "scaled LOG2N 2 ?q (ntt_layer LOG2N m (intt_layer LOG2N m ?q))"
      using Suc.prems by (simp add: layers_inverse fold_layers_poly)
    then have "scaled LOG2N 2 (fold (ntt_layer LOG2N) (rev [0..<m]) ?q)
        (fold (ntt_layer LOG2N) (rev [0..<m]) (ntt_layer LOG2N m (intt_layer LOG2N m ?q)))"
      using Suc.prems by (simp add: fold_layers_scaled)
    moreover have "scaled LOG2N (2 ^ m) p (fold (ntt_layer LOG2N) (rev [0..<m]) ?q)" using Suc by simp
    ultimately show ?case using scaled_trans by (fastforce simp: mult.commute)
  qed (simp add: scaled_def)
qed

lemma scaled_inv_n:
  assumes "is_poly LOG2N p"
  shows "scaled LOG2N (zq_of (inv_n LOG2N)) p (map (\<lambda>c. ff_mul_assign c (inv_n LOG2N)) p)"
  using assms by (auto simp: scaled_def is_poly_def coeff_def list_all_length falcon_field_simps inv_n(2))

lemma intt_ntt: "is_poly LOG2N p \<Longrightarrow> intt LOG2N (ntt LOG2N p) = p"
  unfolding intt_def ntt_def
  using scaled_trans [OF fold_layers_inverse(1) scaled_inv_n, of p LOG2N]
  by (intro scaled_eq) (simp add: fold_layers_poly inv_n mult.commute)

lemma ntt_intt: "is_poly LOG2N p \<Longrightarrow> ntt LOG2N (intt LOG2N p) = p"
proof (rule scaled_eq)
  assume p: "is_poly LOG2N p"
  let ?q = "fold (intt_layer LOG2N) [0..<LOG2N] p"
  have "is_poly LOG2N ?q" using p by (simp add: fold_layers_poly)
  from fold_layers_scaled [OF scaled_inv_n [OF this]]
  have "scaled LOG2N (zq_of (inv_n LOG2N)) (ntt LOG2N ?q) (ntt LOG2N (intt LOG2N p))"
    by (simp add: ntt_def intt_def)
  with fold_layers_inverse(2) [OF p order_refl] have "scaled LOG2N (2 ^ LOG2N * zq_of (inv_n LOG2N)) p (ntt LOG2N (intt LOG2N p))"
    unfolding ntt_def by (rule scaled_trans)
  then show "scaled LOG2N 1 p (ntt LOG2N (intt LOG2N p))" by (simp add: inv_n mult.commute)
qed

lemma ntt_poly: "is_poly LOG2N p \<Longrightarrow> is_poly LOG2N (ntt LOG2N p)"
  by (simp add: ntt_def fold_layers_poly)

lemma intt_poly: "is_poly LOG2N p \<Longrightarrow> is_poly LOG2N (intt LOG2N p)"
  using scaled_inv_n [of "fold (intt_layer LOG2N) [0..<LOG2N] p"]
  by (simp add: intt_def fold_layers_poly scaled_def)

text \<open>
  After the layers down to \<open>l\<close>, block \<open>b\<close> is the remainder modulo \<open>X ^ 2 ^ l - twist (2 ^ (LOG2N - l) + b)\<close>:
  it has the values of the polynomial at the roots of that modulus.
\<close>

lemma remainder_step:
  assumes q: "is_poly LOG2N q" and l: "l < LOG2N" and b: "b < 2 ^ (LOG2N - l - 1)"
    and x: "x ^ 2 ^ l = twist (2 * (2 ^ (LOG2N - l - 1) + b) + of_bool c)"
  shows "x ^ 2 ^ Suc l = twist (2 ^ (LOG2N - l - 1) + b)"
    and "(\<Sum>i<2 ^ l. coeff (ntt_layer LOG2N l q) ((2 * b + of_bool c) * 2 ^ l + i) * x ^ i)
      = (\<Sum>i<2 ^ Suc l. coeff q (b * 2 ^ Suc l + i) * x ^ i)"
proof -
  define z where "z = root ^ brv LOG2N (2 ^ (LOG2N - l - 1) + b)"
  have xz: "x ^ 2 ^ l = (if c then - z else z)"
    using x by (cases c) (simp_all only: z_def if_True if_False of_bool_eq twist_left twist_right add_0_right)
  have "x ^ 2 ^ Suc l = x ^ 2 ^ l * x ^ 2 ^ l" by (simp add: power_add [symmetric] mult_2)
  also have "\<dots> = z * z" unfolding xz by simp
  also have "\<dots> = twist (2 ^ (LOG2N - l - 1) + b)" unfolding z_def by (rule twist_square [OF node_below [OF l b]])
  finally show "x ^ 2 ^ Suc l = twist (2 ^ (LOG2N - l - 1) + b)" .
  have layer: "coeff (ntt_layer LOG2N l q) ((2 * b + of_bool c) * 2 ^ l + i)
      = coeff q (b * 2 ^ Suc l + i) + x ^ 2 ^ l * coeff q (b * 2 ^ Suc l + (2 ^ l + i))" if "i < 2 ^ l" for i
  proof -
    have "(2 * b + of_bool c) * 2 ^ l + i = (if c then b * (2 * 2 ^ l) + i + 2 ^ l else b * (2 * 2 ^ l) + i)"
      by (simp add: algebra_simps)
    then show ?thesis using ntt_layer_poly(2,3) [OF q l b that] unfolding xz z_def by (simp add: ac_simps)
  qed
  have "(\<Sum>i<2 ^ Suc l. coeff q (b * 2 ^ Suc l + i) * x ^ i)
      = (\<Sum>i<2 ^ l + 2 ^ l. coeff q (b * 2 ^ Suc l + i) * x ^ i)" by (simp add: mult_2)
  also have "\<dots> = (\<Sum>i<2 ^ l. coeff q (b * 2 ^ Suc l + i) * x ^ i
        + coeff q (b * 2 ^ Suc l + (2 ^ l + i)) * x ^ (2 ^ l + i))"
    by (simp only: sum_split sum.distrib)
  also have "\<dots> = (\<Sum>i<2 ^ l. coeff (ntt_layer LOG2N l q) ((2 * b + of_bool c) * 2 ^ l + i) * x ^ i)"
    by (rule sum.cong) (simp_all only: layer lessThan_iff power_add, simp_all only: distrib_left distrib_right ac_simps)
  finally show "(\<Sum>i<2 ^ l. coeff (ntt_layer LOG2N l q) ((2 * b + of_bool c) * 2 ^ l + i) * x ^ i)
      = (\<Sum>i<2 ^ Suc l. coeff q (b * 2 ^ Suc l + i) * x ^ i)" by (rule sym)
qed

lemma remainders:
  assumes "is_poly LOG2N p" "m \<le> LOG2N" "b < 2 ^ m" "x ^ 2 ^ (LOG2N - m) = twist (2 ^ m + b)"
  shows "(\<Sum>i<2 ^ (LOG2N - m). coeff (fold (ntt_layer LOG2N) (rev [LOG2N - m..<LOG2N]) p) (b * 2 ^ (LOG2N - m) + i) * x ^ i)
    = poly_eval p x"
  using assms(2-4)
proof (induction m arbitrary: b x)
  case 0
  then show ?case using assms(1) by (simp add: poly_eval_def is_poly_def)
next
  case (Suc m)
  define l where "l = LOG2N - Suc m"
  have l: "l < LOG2N" "LOG2N - m = Suc l" "LOG2N - l - 1 = m" using Suc.prems(1) by (simp_all add: l_def)
  let ?q = "fold (ntt_layer LOG2N) (rev [Suc l..<LOG2N]) p"
  have q: "is_poly LOG2N ?q"
  proof -
    have "is_poly LOG2N (fold (ntt_layer LOG2N) xs p)" if "\<forall>y\<in>set xs. y < LOG2N" for xs
      using that assms(1) by (induction xs arbitrary: p) (simp_all add: ntt_layer_poly)
    then show ?thesis by simp
  qed
  have eq: "fold (ntt_layer LOG2N) (rev [l..<LOG2N]) p = ntt_layer LOG2N l ?q"
    using l(1) by (simp add: upt_conv_Cons)
  have bb: "b = 2 * (b div 2) + of_bool (odd b)" by simp
  have lt: "b div 2 < 2 ^ m" using Suc.prems(2) by simp
  have tw: "x ^ 2 ^ l = twist (2 * (2 ^ m + b div 2) + of_bool (odd b))"
  proof -
    have "2 ^ Suc m + b = 2 * (2 ^ m + b div 2) + of_bool (odd b)" by simp
    with Suc.prems(3) show ?thesis by (simp only: l_def)
  qed
  note step = remainder_step [OF q l(1), unfolded l(3), OF lt tw]
  show ?case
    unfolding l_def [symmetric] eq
    using step(2) Suc.IH [OF _ lt, of x] step(1) Suc.prems(1) by (simp add: l(2) bb [symmetric])
qed

lemma brv_odd: "b < 2 ^ L \<Longrightarrow> brv (Suc L) (2 ^ L + b) = 2 * brv L b + 1"
proof -
  assume b: "b < 2 ^ L"
  have "brv L (2 ^ L + b) = brv L b"
    unfolding brv_def by (intro arg_cong [of _ _ "horner_sum _ _"] map_cong refl)
      (auto simp: bit_iff_odd div_plus_div_distrib_dvd_left le_imp_power_dvd power_diff [symmetric])
  moreover have "(2 ^ L + b) div 2 ^ L = 1" using b by (simp add: div_add_self1)
  ultimately show ?thesis by (simp add: brv_Suc_high bit_iff_odd)
qed

lemma ntt_eval:
  assumes "is_poly LOG2N p" "b < 2 ^ LOG2N"
  shows "coeff (ntt LOG2N p) b = poly_eval p (root ^ (2 * brv LOG2N b + 1))"
  using remainders [OF assms(1) order_refl assms(2), of "twist (2 ^ LOG2N + b)"] assms(2)
  by (simp add: ntt_def brv_odd)

lemma root_power: "(root ^ (2 * k + 1)) ^ 2 ^ LOG2N = - 1"
proof -
  have "(root ^ (2 * k + 1)) ^ 2 ^ LOG2N = (root ^ 2 ^ LOG2N) ^ (2 * k + 1)"
    by (simp only: power_mult [symmetric] mult.commute)
  then show ?thesis by (simp add: root)
qed

lemma poly_mul_poly: "\<lbrakk>is_poly L a; is_poly L b\<rbrakk> \<Longrightarrow> is_poly L (poly_mul a b)"
  by (simp add: is_poly_def poly_mul_def list_all_length canonical_ff_mul)

lemma coeff_poly_mul: "\<lbrakk>is_poly L a; is_poly L b; j < 2 ^ L\<rbrakk> \<Longrightarrow> coeff (poly_mul a b) j = coeff a j * coeff b j"
  by (simp add: is_poly_def poly_mul_def coeff_def list_all_length ff_mul)

lemma ntt_eqI:
  assumes "is_poly LOG2N p" "is_poly LOG2N q"
    and "\<And>x. x ^ 2 ^ LOG2N = - 1 \<Longrightarrow> (\<Sum>k<2 ^ LOG2N. f k * x ^ k) = h x"
    and "\<And>k. k < 2 ^ LOG2N \<Longrightarrow> coeff p k = f k"
    and "\<And>j. j < 2 ^ LOG2N \<Longrightarrow> coeff q j = h (root ^ (2 * brv LOG2N j + 1))"
  shows "ntt LOG2N p = q"
proof (rule is_poly_eqI [OF ntt_poly [OF assms(1)] assms(2)])
  fix j :: nat assume j: "j < 2 ^ LOG2N"
  have "coeff (ntt LOG2N p) j = (\<Sum>k<2 ^ LOG2N. f k * (root ^ (2 * brv LOG2N j + 1)) ^ k)"
    unfolding ntt_eval [OF assms(1) j] poly_eval_def
    by (rule sum.cong) (use assms(1) in \<open>simp_all add: is_poly_def assms(4)\<close>)
  also have "\<dots> = coeff q j" by (simp only: assms(3) [OF root_power] assms(5) [OF j])
  finally show "coeff (ntt LOG2N p) j = coeff q j" .
qed

lemma convolution:
  assumes "is_poly LOG2N a" "is_poly LOG2N b" "k < 2 ^ LOG2N"
  shows "coeff (intt LOG2N (poly_mul (ntt LOG2N a) (ntt LOG2N b))) k = negacyclic (2 ^ LOG2N) a b k"
proof -
  obtain c where c: "is_poly LOG2N c" "\<And>k. k < 2 ^ LOG2N \<Longrightarrow> coeff c k = negacyclic (2 ^ LOG2N) a b k"
    using poly_exists by blast
  note P = ntt_poly [OF assms(1)] ntt_poly [OF assms(2)]
  have "ntt LOG2N c = poly_mul (ntt LOG2N a) (ntt LOG2N b)"
  proof (rule ntt_eqI [OF c(1) poly_mul_poly [OF P] _ c(2)])
    show "(\<Sum>k<2 ^ LOG2N. negacyclic (2 ^ LOG2N) a b k * x ^ k) = poly_eval a x * poly_eval b x"
      if "x ^ 2 ^ LOG2N = - 1" for x
      using negacyclic_eval [OF that] assms(1,2) by (simp add: is_poly_def)
  qed (simp_all add: coeff_poly_mul [OF P] ntt_eval assms(1,2))
  then have "intt LOG2N (poly_mul (ntt LOG2N a) (ntt LOG2N b)) = c" using intt_ntt [OF c(1)] by simp
  then show ?thesis by (simp add: c(2) assms(3))
qed

end

section \<open>The two tables\<close>

lemma falcon_sizes: "FALCON512_N = 512" "FALCON1024_N = 1024" "FALCON512_LOG2N = 9" "FALCON1024_LOG2N = 10"
  by (simp_all add: FALCON512_N_def FALCON1024_N_def FALCON512_LOG2N_def FALCON1024_LOG2N_def push_bit_eq_mult)

lemma canonical_roots: "canonical FALCON512_zeta" "canonical FALCON1024_zeta"
  by (simp_all add: FALCON512_zeta_def FALCON1024_zeta_def canonical_ff_make)

lemma zq_roots: "zq_of FALCON512_zeta = 49" "zq_of FALCON1024_zeta = 7"
  by (simp_all add: FALCON512_zeta_def FALCON1024_zeta_def ff_make)

lemma nat_below_64: "k < 1024 \<Longrightarrow> unat (of_nat k :: u64) = k"
  unfolding unat_of_nat by simp

lemma table_512:
  assumes "k < 2 ^ 9"
  shows "zq_of (zeta_exp 9 k) = 49 ^ brv 9 k" "canonical (zeta_exp 9 k)"
    and "zq_of (neg_zeta_exp 9 k) = - (49 ^ brv 9 k)" "canonical (neg_zeta_exp 9 k)"
proof -
  have z: "zeta_exp 9 k = ff_pow FALCON512_zeta (bit_rev 9 (of_nat k))"
    and nz: "neg_zeta_exp 9 k = ff_neg (zeta_exp 9 k)"
    using assms by (simp_all add: zeta_exp_def neg_zeta_exp_def POWERS_OF_zeta_512_def NEG_POWERS_OF_zeta_512_def
        compute_powers_of_zeta_def compute_neg_powers_of_zeta_def falcon_sizes)
  show zeta: "zq_of (zeta_exp 9 k) = 49 ^ brv 9 k" "canonical (zeta_exp 9 k)"
    unfolding z using assms by (simp_all add: ff_pow canonical_ff_pow canonical_roots zq_roots unat_bit_rev nat_below_64)
  then show "zq_of (neg_zeta_exp 9 k) = - (49 ^ brv 9 k)" "canonical (neg_zeta_exp 9 k)"
    unfolding nz by (simp_all add: ff_neg canonical_ff_neg)
qed

lemma table_1024:
  assumes "k < 2 ^ 10"
  shows "zq_of (zeta_exp 10 k) = 7 ^ brv 10 k" "canonical (zeta_exp 10 k)"
    and "zq_of (neg_zeta_exp 10 k) = - (7 ^ brv 10 k)" "canonical (neg_zeta_exp 10 k)"
proof -
  have z: "zeta_exp 10 k = ff_pow FALCON1024_zeta (bit_rev 10 (of_nat k))"
    and nz: "neg_zeta_exp 10 k = ff_neg (zeta_exp 10 k)"
    using assms by (simp_all add: zeta_exp_def neg_zeta_exp_def POWERS_OF_zeta_1024_def NEG_POWERS_OF_zeta_1024_def
        compute_powers_of_zeta_def compute_neg_powers_of_zeta_def falcon_sizes)
  show zeta: "zq_of (zeta_exp 10 k) = 7 ^ brv 10 k" "canonical (zeta_exp 10 k)"
    unfolding z using assms by (simp_all add: ff_pow canonical_ff_pow canonical_roots zq_roots unat_bit_rev nat_below_64)
  then show "zq_of (neg_zeta_exp 10 k) = - (7 ^ brv 10 k)" "canonical (neg_zeta_exp 10 k)"
    unfolding nz by (simp_all add: ff_neg canonical_ff_neg)
qed

lemma zq_square: "\<lbrakk>(x :: zq) ^ k = of_nat m; k + k = k2; m * m mod 12289 = n\<rbrakk> \<Longrightarrow> x ^ k2 = of_nat n"
  by (metis power_add of_nat_mult of_nat_zq_mod)

lemma root_orders: "(49 :: zq) ^ 2 ^ 9 = - 1" "(7 :: zq) ^ 2 ^ 10 = - 1"
proof -
  have p0: "(7 :: zq) ^ 1 = of_nat 7" by simp
  have p1: "(7 :: zq) ^ 2 = of_nat 49" by (rule zq_square [OF p0]) simp_all
  have p2: "(7 :: zq) ^ 4 = of_nat 2401" by (rule zq_square [OF p1]) simp_all
  have p3: "(7 :: zq) ^ 8 = of_nat 1260" by (rule zq_square [OF p2]) simp_all
  have p4: "(7 :: zq) ^ 16 = of_nat 2319" by (rule zq_square [OF p3]) simp_all
  have p5: "(7 :: zq) ^ 32 = of_nat 7468" by (rule zq_square [OF p4]) simp_all
  have p6: "(7 :: zq) ^ 64 = of_nat 3542" by (rule zq_square [OF p5]) simp_all
  have p7: "(7 :: zq) ^ 128 = of_nat 10984" by (rule zq_square [OF p6]) simp_all
  have p8: "(7 :: zq) ^ 256 = of_nat 7143" by (rule zq_square [OF p7]) simp_all
  have p9: "(7 :: zq) ^ 512 = of_nat 10810" by (rule zq_square [OF p8]) simp_all
  have p10: "(7 :: zq) ^ 1024 = of_nat 12288" by (rule zq_square [OF p9]) simp_all
  have "(of_nat 12288 :: zq) + of_nat 1 = of_nat (12288 + 1)" by (rule of_nat_add [symmetric])
  also have "12288 + 1 = (12289 :: nat)" by simp
  also have "(of_nat 12289 :: zq) = 0" by (simp only: of_nat_numeral zq_modulus)
  finally have m: "(of_nat 12288 :: zq) = - 1" by (simp only: of_nat_1 eq_neg_iff_add_eq_0)
  have e: "(2 :: nat) ^ 10 = 1024" "(2 :: nat) ^ 9 = 512" "(2 :: nat) * 512 = 1024" "(7 :: zq) ^ 2 = 49" by simp_all
  show r: "(7 :: zq) ^ 2 ^ 10 = - 1" unfolding e using p10 by (rule trans) (rule m)
  have "(7 :: zq) ^ (2 * 512) = (7 ^ 2) ^ 512" by (rule power_mult)
  then show "(49 :: zq) ^ 2 ^ 9 = - 1" using r unfolding e by (rule trans [OF sym])
qed

lemma inverse_sizes: "zq_of (inv_n 9) * 2 ^ 9 = 1" "zq_of (inv_n 10) * 2 ^ 10 = 1"
  and canonical_inv_n: "canonical (inv_n L)"
proof -
  have nz: "ff_make 512 \<noteq> 0" "ff_make 1024 \<noteq> 0" by (simp_all add: ff_make_def ff_Q_eq)
  show "zq_of (inv_n 9) * 2 ^ 9 = 1" "zq_of (inv_n 10) * 2 ^ 10 = 1"
    using ff_inv_mult [OF canonical_ff_make nz(1)] ff_inv_mult [OF canonical_ff_make nz(2)]
    by (simp_all add: inv_n_def INV_FALCON512_N_def INV_FALCON1024_N_def falcon_sizes ff_make)
  show "canonical (inv_n L)"
    by (simp add: inv_n_def INV_FALCON512_N_def INV_FALCON1024_N_def canonical_ff_inv)
qed

interpretation n512: ntt_tables 9 49
  by unfold_locales (simp_all only: table_512 root_orders inverse_sizes canonical_inv_n)

interpretation n1024: ntt_tables 10 7
  by unfold_locales (simp_all only: table_1024 root_orders inverse_sizes canonical_inv_n)

section \<open>Properties\<close>

lemma check_log2n_cases: "check_log2n L \<longleftrightarrow> L = 9 \<or> L = 10"
  by (simp add: check_log2n_def falcon_sizes)

lemma transforms_poly: "\<lbrakk>check_log2n L; is_poly L p\<rbrakk> \<Longrightarrow> is_poly L (ntt L p) \<and> is_poly L (intt L p)"
  using n512.ntt_poly n512.intt_poly n1024.ntt_poly n1024.intt_poly by (auto simp: check_log2n_cases)

lemma transforms_inverse: "\<lbrakk>check_log2n L; is_poly L p\<rbrakk> \<Longrightarrow> intt L (ntt L p) = p \<and> ntt L (intt L p) = p"
  using n512.intt_ntt n512.ntt_intt n1024.intt_ntt n1024.ntt_intt by (auto simp: check_log2n_cases)

lemma transforms_convolution:
  "\<lbrakk>check_log2n L; is_poly L a; is_poly L b; k < 2 ^ L\<rbrakk> \<Longrightarrow>
     coeff (intt L (poly_mul (ntt L a) (ntt L b))) k = negacyclic (2 ^ L) a b k"
  using n512.convolution n1024.convolution by (auto simp: check_log2n_cases)

lemma is_poly_replicate: "canonical c \<Longrightarrow> is_poly L (replicate (2 ^ L) c)"
  by (simp add: is_poly_def list_all_length)

text \<open>
  C13: For both sizes the in-place transform and its inverse, with the factor \<open>1 / N\<close>, undo each other in
  either order on every polynomial with canonical coefficients.
\<close>

theorem ntt_roundtrip:
  assumes "check_log2n LOG2N" "is_poly LOG2N p"
  shows "is_poly LOG2N (ntt LOG2N p) \<and> intt LOG2N (ntt LOG2N p) = p \<and> ntt LOG2N (intt LOG2N p) = p"
  using transforms_poly [OF assms] transforms_inverse [OF assms] by simp

lemma ntt_roundtrip_witness:
  "check_log2n 9 \<and> is_poly 9 (replicate (2 ^ 9) 5) \<and> intt 9 (ntt 9 (replicate (2 ^ 9) 5)) = replicate (2 ^ 9) 5"
proof -
  have c: "check_log2n 9" "is_poly 9 (replicate (2 ^ 9) 5)"
    by (simp only: check_log2n_cases simp_thms) (rule is_poly_replicate, simp add: canonical_def ff_Q_eq)
  then show ?thesis using ntt_roundtrip [OF c] by blast
qed

text \<open>
  The transform evaluates: entry \<open>j\<close> of the result is the value of the polynomial at the odd power
  \<open>2 * bit_rev j + 1\<close> of the root of unity of the table, so the values stand in bit-reversed order.
\<close>

theorem ntt_evaluates:
  assumes "check_log2n LOG2N" "is_poly LOG2N p" "j < 2 ^ LOG2N"
  shows "coeff (ntt LOG2N p) j = poly_eval p
    (zq_of (if LOG2N = FALCON512_LOG2N then FALCON512_zeta else FALCON1024_zeta)
      ^ (2 * unat (bit_rev LOG2N (of_nat j)) + 1))"
proof -
  from assms(1) consider "LOG2N = 9" | "LOG2N = 10" by (auto simp: check_log2n_cases)
  then show ?thesis
  proof cases
    case 1
    then have "unat (bit_rev LOG2N (of_nat j)) = brv 9 j" using assms(3) by (simp add: unat_bit_rev nat_below_64)
    then show ?thesis using n512.ntt_eval [of p j] assms 1 by (simp add: falcon_sizes zq_roots)
  next
    case 2
    then have "unat (bit_rev LOG2N (of_nat j)) = brv 10 j" using assms(3) by (simp add: unat_bit_rev nat_below_64)
    then show ?thesis using n1024.ntt_eval [of p j] assms 2 by (simp add: falcon_sizes zq_roots)
  qed
qed

lemma ntt_evaluates_witness:
  "check_log2n 10 \<and> is_poly 10 (replicate (2 ^ 10) 5) \<and> (0 :: nat) < 2 ^ 10
   \<and> coeff (ntt 10 (replicate (2 ^ 10) 5)) 0 = poly_eval (replicate (2 ^ 10) 5)
      (zq_of (if 10 = FALCON512_LOG2N then FALCON512_zeta else FALCON1024_zeta) ^ (2 * unat (bit_rev 10 (of_nat 0)) + 1))"
proof -
  have c: "check_log2n 10" "is_poly 10 (replicate (2 ^ 10) 5)" "(0 :: nat) < 2 ^ 10"
    by (simp only: check_log2n_cases simp_thms) (rule is_poly_replicate, simp_all add: canonical_def ff_Q_eq)
  then show ?thesis using ntt_evaluates [OF c] by blast
qed

text \<open>
  C5: Multiplying two polynomials entry by entry in transformed form and transforming back is their product
  modulo \<open>X ^ N + 1\<close>, computed by the schoolbook formula.
\<close>

theorem ntt_convolution:
  assumes "check_log2n LOG2N" "is_poly LOG2N a" "is_poly LOG2N b" "k < 2 ^ LOG2N"
  shows "coeff (intt LOG2N (poly_mul (ntt LOG2N a) (ntt LOG2N b))) k = negacyclic (2 ^ LOG2N) a b k"
  using assms by (rule transforms_convolution)

lemma ntt_convolution_witness:
  "check_log2n 9 \<and> is_poly 9 (replicate (2 ^ 9) 5) \<and> is_poly 9 (replicate (2 ^ 9) 3) \<and> (7 :: nat) < 2 ^ 9
   \<and> coeff (intt 9 (poly_mul (ntt 9 (replicate (2 ^ 9) 5)) (ntt 9 (replicate (2 ^ 9) 3)))) 7
     = negacyclic (2 ^ 9) (replicate (2 ^ 9) 5) (replicate (2 ^ 9) 3) 7"
proof -
  have c: "check_log2n 9" "is_poly 9 (replicate (2 ^ 9) 5)" "is_poly 9 (replicate (2 ^ 9) 3)" "(7 :: nat) < 2 ^ 9"
    by (simp only: check_log2n_cases simp_thms, (rule is_poly_replicate, simp add: canonical_def ff_Q_eq)+, simp)
  then show ?thesis using ntt_convolution [OF c] by blast
qed

end
