(* ===== verification/Falcon_Keys.thy ===== *)
theory Falcon_Keys
  imports Falcon_NTT
begin

text \<open>
  Byte encodings of Falcon keys (\<^verbatim>\<open>src/include/crypto/falcon/encoding.hpp\<close>, \<^verbatim>\<open>decoding.hpp\<close>,
  \<^verbatim>\<open>utils.hpp\<close>, \<^verbatim>\<open>common.hpp\<close>): fourteen-bit coefficients of the public key, five-, six- and eight-bit
  coefficients of the secret polynomials.  A loop over groups of coefficients is a recursion over the list.
  Coefficients of type \<^verbatim>\<open>int32_t\<close> are integers.
\<close>

unbundle bit_operations_syntax

section \<open>Sizes\<close>

definition bit_width :: "'a::len word \<Rightarrow> nat" where
  "bit_width w = LENGTH('a) - countl_zero w"

definition log2 :: "nat \<Rightarrow> nat" where
  "log2 N = bit_width (of_nat N :: u64) - 1"

definition compute_pkey_len :: "nat \<Rightarrow> nat" where
  "compute_pkey_len N = 1 + N * bit_width ff_Q div 8"

definition compute_skey_len :: "nat \<Rightarrow> nat" where
  "compute_skey_len N = (let br = [5, 6] ! of_bool (N = 512) in 1 + N * br div 8 + N * br div 8 + N)"

definition compute_sig_len :: "nat \<Rightarrow> nat" where
  "compute_sig_len N = (if N = 512 then 666 else 1280)"

section \<open>Public keys\<close>

definition encode_pkey_group :: "ff_t \<Rightarrow> ff_t \<Rightarrow> ff_t \<Rightarrow> ff_t \<Rightarrow> byte list" where
  "encode_pkey_group h0 h1 h2 h3 =
     [ucast h0,
      push_bit 6 (ucast (h1 AND 0x03)) OR ucast (drop_bit 8 h0),
      ucast (drop_bit 2 h1),
      push_bit 4 (ucast (h2 AND 0x0f)) OR ucast (drop_bit 10 h1),
      ucast (drop_bit 4 h2),
      push_bit 2 (ucast (h3 AND 0x3f)) OR ucast (drop_bit 12 h2),
      ucast (drop_bit 6 h3)]"

fun encode_pkey_loop :: "ff_t list \<Rightarrow> byte list" where
  "encode_pkey_loop (h0 # h1 # h2 # h3 # h) = encode_pkey_group h0 h1 h2 h3 @ encode_pkey_loop h"
| "encode_pkey_loop _ = []"

definition encode_pkey :: "nat \<Rightarrow> ff_t list \<Rightarrow> byte list" where
  "encode_pkey N h = of_nat (log2 N) # encode_pkey_loop h"

definition decode_pkey_group :: "byte \<Rightarrow> byte \<Rightarrow> byte \<Rightarrow> byte \<Rightarrow> byte \<Rightarrow> byte \<Rightarrow> byte \<Rightarrow> ff_t list" where
  "decode_pkey_group b0 b1 b2 b3 b4 b5 b6 =
     [push_bit 8 (ucast (b1 AND 0x3f)) OR ucast b0,
      push_bit 10 (ucast (b3 AND 0x0f)) OR push_bit 2 (ucast b2) OR ucast (drop_bit 6 b1),
      push_bit 12 (ucast (b5 AND 0x03)) OR push_bit 4 (ucast b4) OR ucast (drop_bit 4 b3),
      push_bit 6 (ucast b6) OR ucast (drop_bit 2 b5)]"

fun decode_pkey_loop :: "byte list \<Rightarrow> ff_t list" where
  "decode_pkey_loop (b0 # b1 # b2 # b3 # b4 # b5 # b6 # bs) = decode_pkey_group b0 b1 b2 b3 b4 b5 b6 @ decode_pkey_loop bs"
| "decode_pkey_loop _ = []"

definition decode_pkey :: "nat \<Rightarrow> byte list \<Rightarrow> bool \<times> ff_t list" where
  "decode_pkey N pkey =
     (if hd pkey \<noteq> of_nat (log2 N) then (False, replicate N 0)
      else (True, decode_pkey_loop (take (compute_pkey_len N - 1) (drop 1 pkey))))"

section \<open>Secret keys\<close>

definition wrap_byte :: "int \<Rightarrow> int \<Rightarrow> byte" where
  "wrap_byte wrap_at c = word_of_int (of_bool (c < 0) * wrap_at + c)"

definition unwrap_byte :: "int \<Rightarrow> byte \<Rightarrow> int" where
  "unwrap_byte wrap_at b = uint b - of_bool (uint b > wrap_at div 2 - 1) * wrap_at"

definition encode_group6 :: "byte \<Rightarrow> byte \<Rightarrow> byte \<Rightarrow> byte \<Rightarrow> byte list" where
  "encode_group6 f0 f1 f2 f3 =
     [push_bit 6 f1 OR f0, push_bit 4 f2 OR drop_bit 2 f1, push_bit 2 f3 OR drop_bit 4 f2]"

fun encode_loop6 :: "int list \<Rightarrow> byte list" where
  "encode_loop6 (f0 # f1 # f2 # f3 # f) =
     encode_group6 (wrap_byte 64 f0) (wrap_byte 64 f1) (wrap_byte 64 f2) (wrap_byte 64 f3) @ encode_loop6 f"
| "encode_loop6 _ = []"

definition encode_group5 :: "byte \<Rightarrow> byte \<Rightarrow> byte \<Rightarrow> byte \<Rightarrow> byte \<Rightarrow> byte \<Rightarrow> byte \<Rightarrow> byte \<Rightarrow> byte list" where
  "encode_group5 f0 f1 f2 f3 f4 f5 f6 f7 =
     [push_bit 5 f1 OR f0,
      push_bit 7 f3 OR push_bit 2 f2 OR drop_bit 3 f1,
      push_bit 4 f4 OR drop_bit 1 f3,
      push_bit 6 f6 OR push_bit 1 f5 OR drop_bit 4 f4,
      push_bit 3 f7 OR drop_bit 2 f6]"

fun encode_loop5 :: "int list \<Rightarrow> byte list" where
  "encode_loop5 (f0 # f1 # f2 # f3 # f4 # f5 # f6 # f7 # f) =
     encode_group5 (wrap_byte 32 f0) (wrap_byte 32 f1) (wrap_byte 32 f2) (wrap_byte 32 f3)
       (wrap_byte 32 f4) (wrap_byte 32 f5) (wrap_byte 32 f6) (wrap_byte 32 f7) @ encode_loop5 f"
| "encode_loop5 _ = []"

definition encode_skey :: "nat \<Rightarrow> int list \<Rightarrow> int list \<Rightarrow> int list \<Rightarrow> byte list" where
  "encode_skey N f g F =
     (0x50 OR of_nat (log2 N))
     # (if N = 512 then encode_loop6 f @ encode_loop6 g else encode_loop5 f @ encode_loop5 g)
     @ map word_of_int F"

fun decode_loop6 :: "byte list \<Rightarrow> int list" where
  "decode_loop6 (s0 # s1 # s2 # s) =
     [unwrap_byte 64 (s0 AND 0x3f),
      unwrap_byte 64 (push_bit 2 (s1 AND 0x0f) OR drop_bit 6 s0),
      unwrap_byte 64 (push_bit 4 (s2 AND 0x03) OR drop_bit 4 s1),
      unwrap_byte 64 (drop_bit 2 s2)] @ decode_loop6 s"
| "decode_loop6 _ = []"

fun decode_loop5 :: "byte list \<Rightarrow> int list" where
  "decode_loop5 (s0 # s1 # s2 # s3 # s4 # s) =
     [unwrap_byte 32 (s0 AND 0x1f),
      unwrap_byte 32 (push_bit 3 (s1 AND 0x03) OR drop_bit 5 s0),
      unwrap_byte 32 (drop_bit 2 s1 AND 0x1f),
      unwrap_byte 32 (push_bit 1 (s2 AND 0x0f) OR drop_bit 7 s1),
      unwrap_byte 32 (push_bit 4 (s3 AND 0x01) OR drop_bit 4 s2),
      unwrap_byte 32 (drop_bit 1 s3 AND 0x1f),
      unwrap_byte 32 (push_bit 2 (s4 AND 0x07) OR drop_bit 6 s3),
      unwrap_byte 32 (drop_bit 3 s4)] @ decode_loop5 s"
| "decode_loop5 _ = []"

definition decode_skey :: "nat \<Rightarrow> byte list \<Rightarrow> bool \<times> int list \<times> int list \<times> int list" where
  "decode_skey N skey =
     (if hd skey \<noteq> 0x50 OR of_nat (log2 N) then (False, replicate N 0, replicate N 0, replicate N 0)
      else
        let w = (if N = 512 then N div 4 * 3 else N div 8 * 5);
            loop = (if N = 512 then decode_loop6 else decode_loop5);
            body = drop 1 skey
        in (True, loop (take w body), loop (take w (drop w body)),
            map (unwrap_byte 256) (take N (drop (2 * w) body))))"

section \<open>Public key of a secret key\<close>

definition to_field :: "int \<Rightarrow> ff_t" where
  "to_field c = word_of_int (of_bool (c < 0) * uint ff_Q + c)"

definition is_poly_invertible :: "nat \<Rightarrow> int list \<Rightarrow> bool" where
  "is_poly_invertible LOG2N p = list_all (\<lambda>v. v \<noteq> 0) (ntt LOG2N (map to_field p))"

definition compute_public_key :: "nat \<Rightarrow> int list \<Rightarrow> int list \<Rightarrow> poly" where
  "compute_public_key N f g =
     (let f' = ntt (log2 N) (map to_field f); g' = ntt (log2 N) (map to_field g)
      in intt (log2 N) (poly_div g' f'))"

section \<open>Lemmas\<close>

lemma bit_below: "\<lbrakk>unat w < 2 ^ k; bit (w :: 'a::len word) n\<rbrakk> \<Longrightarrow> n < k"
proof -
  assume w: "unat w < 2 ^ k" "bit w n"
  then have "n < LENGTH('a)" "bit (unat w) n" by (simp_all add: bit_imp_le_length bit_unsigned_iff)
  then have "bit (take_bit k (unat w)) n" using w(1) by (simp add: take_bit_nat_eq_self)
  then show ?thesis by (simp add: bit_take_bit_iff)
qed

lemma high_bits_clear: "\<lbrakk>unat w < 2 ^ k; k \<le> n\<rbrakk> \<Longrightarrow> \<not> bit (w :: 'a::len word) n"
  using bit_below [of w k n] by auto

lemma masks: "0x01 = (mask 1 :: 'a::len word)" "0x03 = (mask 2 :: 'a word)" "0x07 = (mask 3 :: 'a word)"
  "0x0f = (mask 4 :: 'a word)" "0x1f = (mask 5 :: 'a word)" "0x3f = (mask 6 :: 'a word)"
  by (simp_all add: mask_eq_exp_minus_1)

lemma byte_eqI:
  fixes v w :: byte
  assumes "bit v 0 = bit w 0" "bit v 1 = bit w 1" "bit v 2 = bit w 2" "bit v 3 = bit w 3" "bit v 4 = bit w 4" "bit v 5 = bit w 5" "bit v 6 = bit w 6" "bit v 7 = bit w 7"
  shows "v = w"
proof (rule bit_word_eqI)
  fix n :: nat assume "n < LENGTH(8)"
  then have "n \<in> {0, 1, 2, 3, 4, 5, 6, 7}" by simp presburger
  then show "bit v n = bit w n" using assms by (elim insertE emptyE) (simp_all only:)
qed

lemma u16_eqI:
  fixes v w :: u16
  assumes "bit v 0 = bit w 0" "bit v 1 = bit w 1" "bit v 2 = bit w 2" "bit v 3 = bit w 3" "bit v 4 = bit w 4" "bit v 5 = bit w 5" "bit v 6 = bit w 6" "bit v 7 = bit w 7" "bit v 8 = bit w 8" "bit v 9 = bit w 9" "bit v 10 = bit w 10" "bit v 11 = bit w 11" "bit v 12 = bit w 12" "bit v 13 = bit w 13" "bit v 14 = bit w 14" "bit v 15 = bit w 15"
  shows "v = w"
proof (rule bit_word_eqI)
  fix n :: nat assume "n < LENGTH(16)"
  then have "n \<in> {0, 1, 2, 3, 4, 5, 6, 7, 8, 9, 10, 11, 12, 13, 14, 15}" by simp presburger
  then show "bit v n = bit w n" using assms by (elim insertE emptyE) (simp_all only:)
qed

lemmas word_bits = bit_or_iff bit_and_iff bit_push_bit_iff bit_drop_bit_eq bit_unsigned_iff bit_mask_iff
  possible_bit_word comp_def
lemma decode_encode_pkey_group:
  assumes "unat h0 < 2 ^ 14" "unat h1 < 2 ^ 14" "unat h2 < 2 ^ 14" "unat h3 < 2 ^ 14"
  shows "decode_pkey_loop (encode_pkey_group h0 h1 h2 h3 @ bs) = [h0, h1, h2, h3] @ decode_pkey_loop bs"
proof -
  note h = assms [THEN high_bits_clear]
  show ?thesis
    unfolding encode_pkey_group_def append_Cons append_Nil decode_pkey_loop.simps decode_pkey_group_def masks(2-6) list.inject
    by (intro conjI u16_eqI byte_eqI refl) (simp_all only: word_bits, simp_all add: h)
qed

lemma encode_decode_pkey_group:
  "encode_pkey_loop (decode_pkey_group b0 b1 b2 b3 b4 b5 b6 @ h) = [b0, b1, b2, b3, b4, b5, b6] @ encode_pkey_loop h"
    unfolding decode_pkey_group_def append_Cons append_Nil encode_pkey_loop.simps encode_pkey_group_def masks(2-6) list.inject
    by (intro conjI u16_eqI byte_eqI refl) (simp_all only: word_bits, simp_all add: byte_high)

lemma encode_group6:
  assumes "unat f0 < 2 ^ 6" "unat f1 < 2 ^ 6" "unat f2 < 2 ^ 6" "unat f3 < 2 ^ 6"
  shows "decode_loop6 (encode_group6 f0 f1 f2 f3 @ bs) = map (unwrap_byte 64) [f0, f1, f2, f3] @ decode_loop6 bs"
proof -
  note f = assms [THEN high_bits_clear]
  show ?thesis
    unfolding encode_group6_def append_Cons append_Nil decode_loop6.simps masks(2-6) list.inject list.map
    by (intro conjI u16_eqI byte_eqI refl arg_cong [of _ _ "unwrap_byte 64"]) (simp_all only: word_bits, simp_all add: f eval_nat_numeral)
qed

lemma encode_group5:
  assumes "unat f0 < 2 ^ 5" "unat f1 < 2 ^ 5" "unat f2 < 2 ^ 5" "unat f3 < 2 ^ 5"
    and "unat f4 < 2 ^ 5" "unat f5 < 2 ^ 5" "unat f6 < 2 ^ 5" "unat f7 < 2 ^ 5"
  shows "decode_loop5 (encode_group5 f0 f1 f2 f3 f4 f5 f6 f7 @ bs)
    = map (unwrap_byte 32) [f0, f1, f2, f3, f4, f5, f6, f7] @ decode_loop5 bs"
proof -
  note f = assms [THEN high_bits_clear]
  show ?thesis
    unfolding encode_group5_def append_Cons append_Nil decode_loop5.simps masks list.inject list.map
    by (intro conjI u16_eqI byte_eqI refl arg_cong [of _ _ "unwrap_byte 32"]) (simp_all only: word_bits, simp_all add: f eval_nat_numeral)
qed

lemma pkey_loop_roundtrip:
  "\<lbrakk>length h = 4 * k; list_all (\<lambda>c. unat c < 2 ^ 14) h\<rbrakk> \<Longrightarrow>
     decode_pkey_loop (encode_pkey_loop h) = h \<and> length (encode_pkey_loop h) = 7 * k"
proof (induction h arbitrary: k rule: encode_pkey_loop.induct)
  case (1 h0 h1 h2 h3 h)
  then obtain j where j: "k = Suc j" by (cases k) simp_all
  with 1 have "decode_pkey_loop (encode_pkey_loop h) = h" "length (encode_pkey_loop h) = 7 * j" by simp_all
  then show ?case
    using 1(3) j by (simp add: decode_encode_pkey_group) (simp add: encode_pkey_group_def)
qed (simp_all, presburger+)

lemma below_14_bits: "(\<And>n. bit c n \<Longrightarrow> n < 14) \<Longrightarrow> unat (c :: u16) < 2 ^ 14"
proof -
  assume "\<And>n. bit c n \<Longrightarrow> n < 14"
  then have "take_bit 14 c = c" by (intro bit_eqI) (auto simp: bit_take_bit_iff)
  then show ?thesis by (metis take_bit_nat_less_exp unsigned_take_bit_eq)
qed

lemma bit_low_masks:
  "bit (0x3f :: 'a::ring_bit_operations) n \<Longrightarrow> n < 6" "bit (0x0f :: 'a) n \<Longrightarrow> n < 4" "bit (0x03 :: 'a) n \<Longrightarrow> n < 2"
  using bit_mask_iff [where 'a = 'a, of 6 n] bit_mask_iff [where 'a = 'a, of 4 n] bit_mask_iff [where 'a = 'a, of 2 n]
  by (simp_all add: mask_eq_exp_minus_1)

lemma decode_pkey_group_bound: "list_all (\<lambda>c. unat c < 2 ^ 14) (decode_pkey_group b0 b1 b2 b3 b4 b5 b6)"
  unfolding decode_pkey_group_def list.pred_inject
  by (intro conjI TrueI below_14_bits)
    (auto simp: bit_or_iff bit_and_iff bit_push_bit_iff bit_unsigned_iff bit_drop_bit_eq
      dest!: bit_low_masks dest: bit_imp_le_length)

lemma pkey_loop_inverse:
  "length bs = 7 * k \<Longrightarrow> encode_pkey_loop (decode_pkey_loop bs) = bs \<and> length (decode_pkey_loop bs) = 4 * k
    \<and> list_all (\<lambda>c. unat c < 2 ^ 14) (decode_pkey_loop bs)"
proof (induction bs arbitrary: k rule: decode_pkey_loop.induct)
  case (1 b0 b1 b2 b3 b4 b5 b6 bs)
  then obtain j where j: "k = Suc j" by (cases k) simp_all
  with 1 have IH: "encode_pkey_loop (decode_pkey_loop bs) = bs" "length (decode_pkey_loop bs) = 4 * j"
    "list_all (\<lambda>c. unat c < 2 ^ 14) (decode_pkey_loop bs)" by simp_all
  moreover have "length (decode_pkey_group b0 b1 b2 b3 b4 b5 b6) = 4" by (simp add: decode_pkey_group_def)
  ultimately show ?case using j decode_pkey_group_bound [of b0 b1 b2 b3 b4 b5 b6]
    by (simp add: encode_decode_pkey_group)
qed (simp_all, presburger+)

lemma uint_wrap_byte:
  assumes "- w \<le> c" "c < w" "0 < w" "w \<le> 128"
  shows "uint (wrap_byte (2 * w) c) = of_bool (c < 0) * (2 * w) + c"
proof -
  have "0 \<le> of_bool (c < 0) * (2 * w) + c" "of_bool (c < 0) * (2 * w) + c < 256"
    using assms by auto
  then show ?thesis unfolding wrap_byte_def unsigned_of_int by (simp add: take_bit_int_eq_self del: of_bool_eq)
qed

lemma unwrap_wrap_byte: "\<lbrakk>- w \<le> c; c < w; 0 < w; w \<le> 128\<rbrakk> \<Longrightarrow> unwrap_byte (2 * w) (wrap_byte (2 * w) c) = c"
  by (auto simp: unwrap_byte_def uint_wrap_byte)

lemma wrap_byte_below: "\<lbrakk>- w \<le> c; c < w; 0 < w; w \<le> 128\<rbrakk> \<Longrightarrow> unat (wrap_byte (2 * w) c) < nat (2 * w)"
  using uint_wrap_byte [of w c] by (auto simp: unat_eq_nat_uint nat_less_eq_zless)

lemma skey_loop6:
  "\<lbrakk>length f = 4 * k; list_all (\<lambda>c. - 32 \<le> c \<and> c < 32) f\<rbrakk> \<Longrightarrow>
     decode_loop6 (encode_loop6 f) = f \<and> length (encode_loop6 f) = 3 * k"
proof (induction f arbitrary: k rule: encode_loop6.induct)
  case (1 f0 f1 f2 f3 f)
  then obtain j where j: "k = Suc j" by (cases k) simp_all
  with 1 have "decode_loop6 (encode_loop6 f) = f" "length (encode_loop6 f) = 3 * j" by simp_all
  then show ?case using 1(3) j unwrap_wrap_byte [of 32] wrap_byte_below [of 32]
    by (simp add: encode_group6) (simp add: encode_group6_def)
qed (simp_all, presburger+)

lemma skey_loop5:
  "\<lbrakk>length f = 8 * k; list_all (\<lambda>c. - 16 \<le> c \<and> c < 16) f\<rbrakk> \<Longrightarrow>
     decode_loop5 (encode_loop5 f) = f \<and> length (encode_loop5 f) = 5 * k"
proof (induction f arbitrary: k rule: encode_loop5.induct)
  case (1 f0 f1 f2 f3 f4 f5 f6 f7 f)
  then obtain j where j: "k = Suc j" by (cases k) simp_all
  with 1 have "decode_loop5 (encode_loop5 f) = f" "length (encode_loop5 f) = 5 * j" by simp_all
  then show ?case using 1(3) j unwrap_wrap_byte [of 16] wrap_byte_below [of 16]
    by (simp add: encode_group5) (simp add: encode_group5_def)
qed (simp_all, presburger+)

lemma skey_bytes: "list_all (\<lambda>c. - 128 \<le> c \<and> c < 128) F \<Longrightarrow> map (unwrap_byte 256) (map word_of_int F) = F"
proof (induction F)
  case (Cons c F)
  have "word_of_int c = wrap_byte (2 * 128) c"
    by (simp add: wrap_byte_def of_bool_def word_of_int_eq_iff take_bit_eq_mod)
  then show ?case using Cons unwrap_wrap_byte [of 128 c] by simp
qed simp

lemma key_sizes: "log2 512 = 9" "log2 1024 = 10" "bit_width ff_Q = 14"
  by code_simp+

lemma to_field:
  assumes "\<bar>c\<bar> < 12289"
  shows "canonical (to_field c)" "zq_of (to_field c) = of_int c"
proof -
  define v where "v = of_bool (c < 0) * 12289 + c"
  have v: "0 \<le> v" "v < 12289" using assms by (auto simp: v_def)
  have "to_field c = word_of_int v" by (simp add: to_field_def v_def ff_Q_eq)
  then have u: "unat (to_field c) = nat v"
    using v by (simp only: unat_eq_nat_uint unsigned_of_int) (simp add: take_bit_int_eq_self)
  then show "canonical (to_field c)" using v by (simp add: canonical_unat)
  have "zq_of (to_field c) = of_nat (nat v)" using u by (rule zq_of_eqI)
  also have "\<dots> = of_int v" using v by simp
  also have "\<dots> = of_int (of_bool (c < 0) * 12289) + of_int c" by (simp only: v_def of_int_add)
  also have "\<dots> = of_int c" by (simp only: of_int_zq_multiple add_0_left)
  finally show "zq_of (to_field c) = of_int c" .
qed

lemma is_poly_to_field:
  "\<lbrakk>length f = 2 ^ L; list_all (\<lambda>c. \<bar>c\<bar> < 12289) f\<rbrakk> \<Longrightarrow> is_poly L (map to_field f)"
  by (simp add: is_poly_def list_all_length to_field)

lemma coeff_to_field:
  "\<lbrakk>length f = 2 ^ L; list_all (\<lambda>c. \<bar>c\<bar> < 12289) f; k < 2 ^ L\<rbrakk> \<Longrightarrow> coeff (map to_field f) k = of_int (f ! k)"
  by (simp add: coeff_def list_all_length to_field)

lemma poly_div_poly: "\<lbrakk>is_poly L a; is_poly L b\<rbrakk> \<Longrightarrow> is_poly L (poly_div a b)"
  by (simp add: is_poly_def poly_div_def list_all_length ff_div_def canonical_ff_mul)

lemma poly_div_mul:
  assumes "is_poly L a" "is_poly L b" "list_all (\<lambda>v. v \<noteq> 0) b"
  shows "poly_mul (poly_div a b) b = a"
  using assms by (intro nth_equalityI) (simp_all add: poly_mul_def poly_div_def is_poly_def list_all_length ff_div_mul)

section \<open>Properties\<close>

lemma pkey_codec:
  assumes "N = 512 \<or> N = 1024"
  shows "length p = compute_pkey_len N \<and> decode_pkey N p = (True, h)
    \<longleftrightarrow> p = encode_pkey N h \<and> length h = N \<and> list_all (\<lambda>c. unat c < 2 ^ 14) h"
proof -
  obtain j where j: "N = 4 * j" using assms that [of 128] that [of 256] by auto
  have len: "compute_pkey_len N = Suc (7 * j)" using assms j by (auto simp: compute_pkey_len_def key_sizes)
  show ?thesis
  proof
    assume "p = encode_pkey N h \<and> length h = N \<and> list_all (\<lambda>c. unat c < 2 ^ 14) h"
    then show "length p = compute_pkey_len N \<and> decode_pkey N p = (True, h)"
      using pkey_loop_roundtrip [of h j] len by (simp add: decode_pkey_def encode_pkey_def j)
  next
    assume p: "length p = compute_pkey_len N \<and> decode_pkey N p = (True, h)"
    then obtain b bs where b: "p = b # bs" "length bs = 7 * j" by (cases p) (simp_all add: len)
    with p have "b = of_nat (log2 N)" "h = decode_pkey_loop bs" by (simp_all add: decode_pkey_def len split: if_splits)
    then show "p = encode_pkey N h \<and> length h = N \<and> list_all (\<lambda>c. unat c < 2 ^ 14) h"
      using pkey_loop_inverse [OF b(2)] by (simp add: encode_pkey_def b(1) j)
  qed
qed

text \<open>
  C30: Public keys: a byte string of the right length decodes to a polynomial exactly when it is the encoding of that
  polynomial, which then has all its coefficients below 2 ^ 14: encoding and decoding are inverse to each other.
\<close>

theorem pkey_roundtrip:
  assumes "N = 512 \<or> N = 1024"
  shows "length p = compute_pkey_len N \<and> decode_pkey N p = (True, h)
    \<longleftrightarrow> p = encode_pkey N h \<and> length h = N \<and> list_all (\<lambda>c. unat c < 2 ^ 14) h"
  using assms by (rule pkey_codec)

lemma pkey_roundtrip_witness:
  "length (encode_pkey 512 (replicate 512 12288)) = compute_pkey_len 512
   \<and> decode_pkey 512 (encode_pkey 512 (replicate 512 12288)) = (True, replicate 512 12288)"
  using pkey_roundtrip [of 512 "encode_pkey 512 (replicate 512 12288)" "replicate 512 12288"]
  by (simp add: list_all_length)

lemma decode_pkey_not_canonical:
  "decode_pkey 512 (encode_pkey 512 (replicate 512 0x3fff)) = (True, replicate 512 0x3fff)" "\<not> canonical 0x3fff"
proof -
  have "decode_pkey_loop (encode_pkey_loop (replicate 512 0x3fff)) = replicate 512 0x3fff
      \<and> length (encode_pkey_loop (replicate 512 (0x3fff :: ff_t))) = 7 * 128"
    by (rule pkey_loop_roundtrip) (simp_all add: list_all_iff)
  then show "decode_pkey 512 (encode_pkey 512 (replicate 512 0x3fff)) = (True, replicate 512 0x3fff)"
    by (simp add: decode_pkey_def encode_pkey_def compute_pkey_len_def key_sizes)
  show "\<not> canonical 0x3fff" by (simp add: canonical_def ff_Q_eq)
qed

text \<open>
  C15: Secret keys: the three polynomials come back from their encoding when the coefficients of \<open>f\<close> and \<open>g\<close> fit
  in six (Falcon-512) or five (Falcon-1024) bits and those of \<open>F\<close> in eight, as two's complement numbers.
\<close>

theorem skey_roundtrip:
  assumes "N = 512 \<or> N = 1024" "length f = N" "length g = N" "length F = N"
    and "list_all (\<lambda>c. (if N = 512 then - 32 else - 16) \<le> c \<and> c < (if N = 512 then 32 else 16)) (f @ g)"
    and "list_all (\<lambda>c. - 128 \<le> c \<and> c < 128) F"
  shows "decode_skey N (encode_skey N f g F) = (True, f, g, F) \<and> length (encode_skey N f g F) = compute_skey_len N"
proof (cases "N = 512")
  case True
  with assms skey_loop6 [of f 128] skey_loop6 [of g 128] skey_bytes [of F] show ?thesis
    by (simp add: decode_skey_def encode_skey_def Let_def compute_skey_len_def)
next
  case False
  with assms skey_loop5 [of f 128] skey_loop5 [of g 128] skey_bytes [of F] show ?thesis
    by (simp add: decode_skey_def encode_skey_def Let_def compute_skey_len_def)
qed

lemma skey_roundtrip_witness:
  "decode_skey 1024 (encode_skey 1024 (replicate 1024 (- 16)) (replicate 1024 15) (replicate 1024 (- 128)))
   = (True, replicate 1024 (- 16), replicate 1024 15, replicate 1024 (- 128))"
  by (rule skey_roundtrip [THEN conjunct1]) (simp_all add: list_all_iff)

text \<open>
  C29: The public key of a secret key: when \<open>f\<close> passes the invertibility test, the polynomial \<open>h\<close> that is
  computed is the quotient of \<open>g\<close> by \<open>f\<close>: its product with \<open>f\<close> modulo \<open>X ^ N + 1\<close> and 12289 is \<open>g\<close>.
\<close>

theorem public_key_correct:
  assumes "N = 512 \<or> N = 1024" "length f = N" "length g = N"
    and "list_all (\<lambda>c. \<bar>c\<bar> < 12289) f" "list_all (\<lambda>c. \<bar>c\<bar> < 12289) g"
    and "is_poly_invertible (log2 N) f" "k < N"
  shows "negacyclic N (compute_public_key N f g) (map to_field f) k = of_int (g ! k)"
proof -
  define L where "L = log2 N"
  have L: "check_log2n L" "N = 2 ^ L" using assms(1) by (auto simp: L_def key_sizes check_log2n_cases)
  let ?f = "map to_field f" and ?g = "map to_field g"
  have P: "is_poly L ?f" "is_poly L ?g" using assms(2-5) L(2) by (simp_all add: is_poly_to_field)
  note N = transforms_poly [OF L(1) P(1), THEN conjunct1] transforms_poly [OF L(1) P(2), THEN conjunct1]
  let ?h = "compute_public_key N f g"
  have h: "is_poly L ?h" "ntt L ?h = poly_div (ntt L ?g) (ntt L ?f)"
    using transforms_poly [OF L(1) poly_div_poly [OF N(2,1)]] transforms_inverse [OF L(1) poly_div_poly [OF N(2,1)]]
    by (simp_all add: compute_public_key_def Let_def L_def [symmetric])
  have "negacyclic N ?h ?f k = coeff (intt L (poly_mul (ntt L ?h) (ntt L ?f))) k"
    using transforms_convolution [OF L(1) h(1) P(1), of k] assms(7) by (simp add: L(2))
  also have "poly_mul (ntt L ?h) (ntt L ?f) = ntt L ?g"
    unfolding h(2) using assms(6) by (intro poly_div_mul [OF N(2,1)]) (simp add: is_poly_invertible_def L_def [symmetric])
  also have "intt L (ntt L ?g) = ?g" using transforms_inverse [OF L(1) P(2)] by simp
  also have "coeff ?g k = of_int (g ! k)" using assms(3,5,7) L(2) by (simp add: coeff_to_field)
  finally show ?thesis .
qed

lemma poly_eval_constant: "zq_of z = 0 \<Longrightarrow> poly_eval (c # replicate m z) x = zq_of c"
  by (simp add: poly_eval_def sum.lessThan_Suc_shift coeff_def del: sum.lessThan_Suc)

lemma invertible_one: "is_poly_invertible 9 (1 # replicate 511 0)"
proof -
  let ?p = "map to_field (1 # replicate 511 0)"
  have P: "is_poly 9 ?p" by (rule is_poly_to_field) (simp_all add: list_all_iff)
  have "poly_eval ?p x = 1" for x
    using poly_eval_constant [of "to_field 0" "to_field 1" 511 x] to_field(2) [of 0] to_field(2) [of 1] by simp
  then have c: "coeff (ntt 9 ?p) j = 1" if "j < 2 ^ 9" for j using n512.ntt_eval [OF P that] by simp
  have "ntt 9 ?p ! j \<noteq> 0" if "j < 2 ^ 9" for j
  proof
    assume "ntt 9 ?p ! j = 0"
    then have "coeff (ntt 9 ?p) j = 0" by (simp add: coeff_def zq_of_def)
    then show False using c [OF that] by simp
  qed
  moreover have "length (ntt 9 ?p) = 2 ^ 9" using n512.ntt_poly [OF P] by (simp add: is_poly_def)
  ultimately show ?thesis by (simp add: is_poly_invertible_def list_all_length)
qed

lemma public_key_correct_witness:
  "is_poly_invertible (log2 512) (1 # replicate 511 0)
   \<and> negacyclic 512 (compute_public_key 512 (1 # replicate 511 0) (replicate 512 (- 3)))
      (map to_field (1 # replicate 511 0)) 5 = of_int (- 3)"
proof -
  have i: "is_poly_invertible (log2 512) (1 # replicate 511 0)" by (simp only: key_sizes invertible_one)
  have "negacyclic 512 (compute_public_key 512 (1 # replicate 511 0) (replicate 512 (- 3)))
      (map to_field (1 # replicate 511 0)) 5 = of_int (replicate 512 (- 3) ! 5)"
    by (rule public_key_correct [OF _ _ _ _ _ i]) (simp_all add: list_all_iff)
  then show ?thesis using i by simp
qed

end
