(* ===== verification/Falcon_Signature.thy ===== *)
theory Falcon_Signature
  imports Falcon_Keys
begin

text \<open>
  Compression of Falcon signatures (\<^verbatim>\<open>compress_sig\<close> of \<^verbatim>\<open>src/include/crypto/falcon/encoding.hpp\<close>,
  \<^verbatim>\<open>decompress_sig\<close> and \<^verbatim>\<open>decode_sig\<close> of \<^verbatim>\<open>decoding.hpp\<close>).  A write outside the buffer of
  \<^verbatim>\<open>compress_sig\<close> is undefined behaviour, the result \<open>None\<close>.  \<^verbatim>\<open>decompress_sig\<close> looks at up to two bytes
  after the signature; what is there is the argument \<open>beyond\<close>.
\<close>

unbundle bit_operations_syntax

section \<open>Compression\<close>

definition put_bit :: "nat \<Rightarrow> bool \<Rightarrow> byte list \<Rightarrow> byte list option" where
  "put_bit i b buf =
     (let byte_idx = drop_bit 3 i; from_bit = i AND 7
      in if byte_idx < length buf
         then Some (buf[byte_idx := buf ! byte_idx OR push_bit (7 - from_bit) (of_bool b)])
         else None)"

definition put_low7 :: "nat \<Rightarrow> int \<Rightarrow> byte list \<Rightarrow> byte list option" where
  "put_low7 bit_idx cf buf =
     fold (\<lambda>i r. Option.bind r (put_bit i (bit cf (6 - (i - bit_idx))))) [bit_idx..<bit_idx + 7] (Some buf)"

definition put_unary :: "nat \<Rightarrow> nat \<Rightarrow> byte list \<Rightarrow> byte list option" where
  "put_unary bit_idx k buf =
     Option.bind (fold (\<lambda>i r. Option.bind r (put_bit i False)) [bit_idx..<bit_idx + k] (Some buf))
       (put_bit (bit_idx + k) True)"

fun compress_loop :: "int list \<Rightarrow> nat \<Rightarrow> byte list \<Rightarrow> (byte list \<times> nat) option" where
  "compress_loop [] bit_idx buf = Some (buf, bit_idx)"
| "compress_loop (s # poly_s) bit_idx buf =
     (let k = nat (drop_bit 7 \<bar>s\<bar>)
      in Option.bind (put_bit bit_idx (s < 0) buf) (\<lambda>buf.
         Option.bind (put_low7 (bit_idx + 1) \<bar>s\<bar> buf) (\<lambda>buf.
         Option.bind (put_unary (bit_idx + 8) k buf) (\<lambda>buf.
         compress_loop poly_s (bit_idx + 8 + k + 1) buf))))"

definition max_sbytelen :: "nat \<Rightarrow> nat" where
  "max_sbytelen N = bit_width ff_Q * N div 8"

definition compress_sig :: "nat \<Rightarrow> nat \<Rightarrow> int list \<Rightarrow> byte list \<Rightarrow> (bool \<times> byte list) option" where
  "compress_sig N sbytelen poly_s sig =
     (let slen = 8 * sbytelen - (8 + 320)
      in Option.bind (compress_loop poly_s 0 (replicate (max_sbytelen N) 0)) (\<lambda>(sig_buf, bit_idx).
         let sig_buf = (if bit_idx \<ge> slen then replicate (max_sbytelen N) 0 else sig_buf)
         in Some (bit_idx < slen, take (1 + 40) sig @ take (sbytelen - (1 + 40)) sig_buf)))"

section \<open>Decompression\<close>

definition sig_byte :: "(nat \<Rightarrow> byte) \<Rightarrow> byte list \<Rightarrow> nat \<Rightarrow> byte" where
  "sig_byte beyond sig i = (if i < length sig then sig ! i else beyond i)"

definition extract_8_contiguous_bits :: "(nat \<Rightarrow> byte) \<Rightarrow> nat \<Rightarrow> byte" where
  "extract_8_contiguous_bits bytes bitoff =
     (let byte_at = drop_bit 3 bitoff; bit_at = bitoff AND 7;
          word = push_bit 8 (ucast (bytes byte_at)) OR (ucast (bytes (byte_at + 1)) :: u16)
      in ucast (drop_bit (8 - bit_at) word))"

definition extract_rem_contiguous_bits_in_byte :: "(nat \<Rightarrow> byte) \<Rightarrow> nat \<Rightarrow> byte" where
  "extract_rem_contiguous_bits_in_byte bytes bitoff =
     (let byte_at = drop_bit 3 bitoff; bit_at = bitoff AND 7 in push_bit bit_at (bytes byte_at))"

definition zeros_at :: "(nat \<Rightarrow> byte) \<Rightarrow> nat \<Rightarrow> nat \<Rightarrow> nat" where
  "zeros_at bytes ebits bit_idx =
     countl_zero (if ebits < 8 then extract_rem_contiguous_bits_in_byte bytes bit_idx
                  else extract_8_contiguous_bits bytes bit_idx)"

text \<open>The loop over a long unary code.  It moves on by whole windows and leaves the coefficient alone.\<close>

function skip_unary :: "(nat \<Rightarrow> byte) \<Rightarrow> nat \<Rightarrow> nat \<Rightarrow> nat" where
  "skip_unary bytes slen bit_idx =
     (if bit_idx < slen then
        let ebits = min 8 (slen - bit_idx); v = zeros_at bytes ebits bit_idx
        in if v < ebits then bit_idx + ebits else skip_unary bytes slen (bit_idx + ebits)
      else bit_idx)"
  by pat_completeness auto
termination by (relation "measure (\<lambda>(bytes, slen, bit_idx). slen - bit_idx)") (auto simp: Let_def)

fun decompress_loop :: "(nat \<Rightarrow> byte) \<Rightarrow> nat \<Rightarrow> nat \<Rightarrow> nat \<Rightarrow> int list \<Rightarrow> bool \<times> nat \<times> int list" where
  "decompress_loop bytes slen 0 bit_idx poly_s = (False, bit_idx, poly_s)"
| "decompress_loop bytes slen (Suc n) bit_idx poly_s =
     (if bit_idx < slen then
        let res = extract_8_contiguous_bits bytes bit_idx;
            sign_bit = drop_bit 7 res;
            cf = uint (res AND 0x7f);
            bit_idx = bit_idx + 8;
            k = countl_zero (extract_8_contiguous_bits bytes bit_idx);
            (cf, bit_idx) =
              (if k < 8 then (cf + push_bit 7 1 * int k, bit_idx + k)
               else (cf, skip_unary bytes slen (bit_idx + k)));
            cf = (if sign_bit = 1 then - cf else cf);
            failed = (cf = 0 \<and> sign_bit = 1)
        in if failed then (True, bit_idx, poly_s)
           else decompress_loop bytes slen n (bit_idx + 1) (poly_s @ [cf])
      else (False, bit_idx, poly_s))"

function trailing_zero :: "(nat \<Rightarrow> byte) \<Rightarrow> nat \<Rightarrow> nat \<Rightarrow> bool" where
  "trailing_zero bytes slen bit_idx =
     (if bit_idx < slen then
        let ebits = min 8 (slen - bit_idx); v = zeros_at bytes ebits bit_idx
        in trailing_zero bytes slen (bit_idx + ebits) \<and> \<not> v < ebits
      else True)"
  by pat_completeness auto
termination by (relation "measure (\<lambda>(bytes, slen, bit_idx). slen - bit_idx)") (auto simp: Let_def)

declare skip_unary.simps [simp del] trailing_zero.simps [simp del]

definition decompress_sig :: "(nat \<Rightarrow> byte) \<Rightarrow> nat \<Rightarrow> nat \<Rightarrow> byte list \<Rightarrow> bool \<times> int list" where
  "decompress_sig beyond N sbytelen sig =
     (let bytes = sig_byte beyond sig; slen = 8 * sbytelen;
          (failed, bit_idx, poly_s) = decompress_loop bytes slen N (8 + 320) [];
          failed = (failed \<or> bit_idx \<ge> slen \<or> length poly_s < N);
          failed = (if \<not> failed then \<not> trailing_zero bytes slen bit_idx else failed)
      in (\<not> failed, if failed then replicate N 0 else poly_s))"

definition decode_sig :: "(nat \<Rightarrow> byte) \<Rightarrow> nat \<Rightarrow> byte list \<Rightarrow> (byte list \<times> int list) option" where
  "decode_sig beyond N sig =
     (let slen = [666, 1280] ! of_bool (N = 1024)
      in if sig ! 0 \<noteq> 0x30 OR of_nat (log2 N) then None
         else
           let (decompressed, s2) = decompress_sig beyond N slen sig
           in if \<not> decompressed then None else Some (take 40 (drop 1 sig), s2))"

section \<open>Bits of a byte string\<close>

text \<open>Bit \<open>i\<close> of a byte string, the most significant bit of each byte first.\<close>

definition bit_at :: "(nat \<Rightarrow> byte) \<Rightarrow> nat \<Rightarrow> bool" where
  "bit_at bytes i = bit (bytes (i div 8)) (7 - i mod 8)"

lemma index_split: "drop_bit 3 i = i div 8" "i AND 7 = i mod (8 :: nat)"
  using take_bit_eq_mask [of 3 i] by (simp_all add: drop_bit_eq_div mask_eq_exp_minus_1 take_bit_eq_mod)

lemma add_div_mod: "r < 8 \<Longrightarrow> (8 * q + r) div 8 = (q :: nat)" "r < 8 \<Longrightarrow> (8 * q + r) mod 8 = (r :: nat)"
  by simp_all

lemma bit_extract_8: "j < 8 \<Longrightarrow> bit (extract_8_contiguous_bits bytes off) j = bit_at bytes (off + 7 - j)"
proof -
  assume j: "j < 8"
  define q r where "q = off div 8" and "r = off mod 8"
  have off: "off = 8 * q + r" "r < 8" by (simp_all add: q_def r_def)
  have b: "bit (extract_8_contiguous_bits bytes off) j =
      (if r \<le> j then bit (bytes q) (j - r) else bit (bytes (q + 1)) (8 - r + j))"
    unfolding extract_8_contiguous_bits_def Let_def index_split q_def [symmetric] r_def [symmetric]
    using j off(2) by (auto simp: word_bits byte_high)
  show ?thesis
  proof (cases "r \<le> j")
    case True
    then have "off + 7 - j = 8 * q + (7 + r - j)" "7 + r - j < 8" "7 - (7 + r - j) = j - r" using off j by simp_all
    then show ?thesis using True by (simp only: b bit_at_def add_div_mod if_True)
  next
    case False
    then have "off + 7 - j = 8 * (q + 1) + (r - j - 1)" "r - j - 1 < 8" "7 - (r - j - 1) = 8 - r + j" using off j by simp_all
    then show ?thesis using False by (simp only: b bit_at_def add_div_mod if_False)
  qed
qed

lemma bit_extract_rem:
  "j < 8 \<Longrightarrow> bit (extract_rem_contiguous_bits_in_byte bytes off) j \<longleftrightarrow> off mod 8 \<le> j \<and> bit_at bytes (off + 7 - j)"
proof -
  assume j: "j < 8"
  define q r where "q = off div 8" and "r = off mod 8"
  have off: "off = 8 * q + r" "r < 8" by (simp_all add: q_def r_def)
  have b: "bit (extract_rem_contiguous_bits_in_byte bytes off) j \<longleftrightarrow> r \<le> j \<and> bit (bytes q) (j - r)"
    unfolding extract_rem_contiguous_bits_in_byte_def Let_def index_split q_def [symmetric] r_def [symmetric]
    using j by (auto simp: word_bits)
  show ?thesis
  proof (cases "r \<le> j")
    case True
    then have "off + 7 - j = 8 * q + (7 + r - j)" "7 + r - j < 8" "7 - (7 + r - j) = j - r" using off j by simp_all
    then show ?thesis using True by (simp only: b bit_at_def add_div_mod r_def [symmetric])
  qed (simp add: b r_def [symmetric])
qed

lemma length_takeWhile_eq:
  assumes "k < length xs" "\<And>j. j < k \<Longrightarrow> P (xs ! j)" "\<not> P (xs ! k)"
  shows "length (takeWhile P xs) = k"
proof (rule linorder_cases [of "length (takeWhile P xs)" k])
  assume l: "length (takeWhile P xs) < k"
  then have "\<not> P (xs ! length (takeWhile P xs))" using assms(1) by (intro nth_length_takeWhile) simp
  with assms(2) [OF l] show ?thesis by simp
next
  assume "k < length (takeWhile P xs)"
  with assms(3) show ?thesis by (auto dest: takeWhile_prefix)
qed

lemma countl_zero_byte:
  fixes w :: byte
  assumes "k < 8" "\<And>j. j < k \<Longrightarrow> \<not> bit w (7 - j)" "bit w (7 - k)"
  shows "countl_zero w = k"
  unfolding countl_zero_def by (rule length_takeWhile_eq) (use assms in \<open>simp_all add: rev_nth\<close>)

lemma countl_zero_byte_ge:
  fixes w :: byte
  assumes "k \<le> 8" "\<And>j. j < k \<Longrightarrow> \<not> bit w (7 - j)"
  shows "k \<le> countl_zero w"
proof (rule ccontr)
  let ?l = "length (takeWhile (\<lambda>i. \<not> bit w i) (rev [0..<8]))"
  assume "\<not> k \<le> countl_zero w"
  then have l: "?l < k" by (simp add: countl_zero_def)
  then have "\<not> \<not> bit w (rev [0..<8] ! ?l)" using assms(1) by (intro nth_length_takeWhile) simp
  then show False using assms l by (simp add: rev_nth)
qed

lemma zeros_window:
  assumes "k < 8" "\<And>j. j < k \<Longrightarrow> \<not> bit_at bytes (off + j)" "bit_at bytes (off + k)"
  shows "countl_zero (extract_8_contiguous_bits bytes off) = k"
  by (rule countl_zero_byte) (use assms in \<open>simp_all add: bit_extract_8\<close>)

lemma zeros_at_ge:
  assumes "ebits \<le> 8" "ebits < 8 \<Longrightarrow> (off + ebits) mod 8 = 0" "\<And>j. j < ebits \<Longrightarrow> \<not> bit_at bytes (off + j)"
  shows "ebits \<le> zeros_at bytes ebits off"
proof (cases "ebits < 8")
  case True
  have "\<not> bit (extract_rem_contiguous_bits_in_byte bytes off) (7 - j)" if "j < ebits" for j
    using that True assms(3) by (simp add: bit_extract_rem)
  then show ?thesis using True by (simp add: zeros_at_def countl_zero_byte_ge)
next
  case False
  then have "ebits = 8" using assms(1) by simp
  then show ?thesis using assms(3) by (simp add: zeros_at_def countl_zero_byte_ge bit_extract_8)
qed

lemma trailing_zero_bits:
  "\<lbrakk>8 dvd slen; \<And>j. \<lbrakk>i \<le> j; j < slen\<rbrakk> \<Longrightarrow> \<not> bit_at bytes j\<rbrakk> \<Longrightarrow> trailing_zero bytes slen i"
proof (induction bytes slen i rule: trailing_zero.induct)
  case (1 bytes slen i)
  show ?case
  proof (cases "i < slen")
    case True
    let ?e = "min 8 (slen - i)"
    have "?e \<le> zeros_at bytes ?e i"
    proof (rule zeros_at_ge)
      show "\<not> bit_at bytes (i + j)" if "j < ?e" for j using that by (intro 1(3)) auto
    qed (use 1(2) True in \<open>auto simp: min_def\<close>)
    moreover have "trailing_zero bytes slen (i + ?e)"
      by (rule 1(1) [OF True refl refl]) (use 1(2,3) in auto)
    ultimately show ?thesis by (subst trailing_zero.simps) (simp add: Let_def not_less)
  qed (simp add: trailing_zero.simps)
qed

section \<open>Compression writes the code of each coefficient\<close>

definition code_bits :: "int \<Rightarrow> bool list" where
  "code_bits s = (s < 0) # map (\<lambda>j. bit \<bar>s\<bar> (6 - j)) [0..<7] @ replicate (nat (drop_bit 7 \<bar>s\<bar>)) False @ [True]"

lemma length_code_bits: "length (code_bits s) = 9 + nat (drop_bit 7 \<bar>s\<bar>)"
  by (simp add: code_bits_def)

primrec put_bits :: "nat \<Rightarrow> bool list \<Rightarrow> byte list \<Rightarrow> byte list option" where
  "put_bits i [] buf = Some buf"
| "put_bits i (b # bs) buf = Option.bind (put_bit i b buf) (put_bits (Suc i) bs)"

lemma put_bits_single: "put_bits i [b] = put_bit i b"
proof
  show "put_bits i [b] buf = put_bit i b buf" for buf by (cases "put_bit i b buf") simp_all
qed

lemma put_bits_append: "put_bits i (as @ bs) buf = Option.bind (put_bits i as buf) (put_bits (i + length as) bs)"
proof (induction as arbitrary: i buf)
  case (Cons a as)
  then show ?case by (cases "put_bit i a buf") simp_all
qed simp

lemma fold_None: "fold (\<lambda>i r. Option.bind r (f i)) xs None = None"
  by (induction xs) simp_all

lemma fold_put_bit:
  "fold (\<lambda>i r. Option.bind r (put_bit i (f i))) [a..<a + n] (Some buf) = put_bits a (map f [a..<a + n]) buf"
proof (induction n arbitrary: a buf)
  case (Suc n)
  have "[a..<a + Suc n] = a # [Suc a..<Suc a + n]" by (simp add: upt_conv_Cons)
  then show ?case using Suc [of "Suc a"] by (cases "put_bit a (f a) buf") (simp_all add: fold_None)
qed simp

lemma map_offset: "map f [a..<a + n] = map (\<lambda>j. f (a + j)) [0..<n]"
  by (intro nth_equalityI) simp_all

lemma compress_loop_bits:
  "compress_loop poly_s i buf =
     map_option (\<lambda>buf. (buf, i + length (concat (map code_bits poly_s)))) (put_bits i (concat (map code_bits poly_s)) buf)"
proof (induction poly_s arbitrary: i buf)
  case (Cons s poly_s)
  let ?k = "nat (drop_bit 7 \<bar>s\<bar>)"
  let ?m = "map (\<lambda>j. bit \<bar>s\<bar> (6 - j)) [0..<7]" and ?u = "replicate ?k False @ [True]"
  have low: "put_low7 (i + 1) \<bar>s\<bar> = put_bits (Suc i) ?m"
    unfolding put_low7_def fold_put_bit map_offset by simp
  have un: "put_unary (i + 8) ?k = put_bits (i + 8) ?u"
    by (intro ext)
      (simp only: put_unary_def fold_put_bit put_bits_append map_replicate_const length_replicate length_upt
        diff_add_inverse put_bits_single)
  have len: "Suc i + length ?m = i + 8" by simp
  have "put_bits i (code_bits s) buf = Option.bind (put_bit i (s < 0) buf) (\<lambda>buf.
      Option.bind (put_low7 (i + 1) \<bar>s\<bar> buf) (put_unary (i + 8) ?k))"
    unfolding code_bits_def put_bits.simps low un put_bits_append [of "Suc i" ?m, abs_def] len ..
  then have "compress_loop (s # poly_s) i buf =
      Option.bind (put_bits i (code_bits s) buf) (compress_loop poly_s (i + length (code_bits s)))"
    by (simp add: bind_assoc length_code_bits Let_def ac_simps)
  then show ?case
    by (cases "put_bits i (code_bits s) buf") (simp_all add: put_bits_append Cons.IH add.assoc)
qed simp

lemma put_bit:
  assumes "i < 8 * length buf"
  obtains buf' where "put_bit i b buf = Some buf'" "length buf' = length buf"
    "\<And>j. bit_at ((!) buf') j = (bit_at ((!) buf) j \<or> j = i \<and> b)"
proof
  define q r where "q = i div 8" and "r = i mod 8"
  have i: "i = 8 * q + r" "r < 8" "q < length buf" using assms by (auto simp: q_def r_def less_mult_imp_div_less mult.commute)
  let ?buf = "buf[q := buf ! q OR push_bit (7 - r) (of_bool b)]"
  show "put_bit i b buf = Some ?buf"
    unfolding put_bit_def Let_def index_split q_def [symmetric] r_def [symmetric] using i(3) by simp
  show "bit_at ((!) ?buf) j = (bit_at ((!) buf) j \<or> j = i \<and> b)" for j
  proof (cases "j div 8 = q")
    case True
    have "bit (push_bit (7 - r) (of_bool b) :: byte) (7 - j mod 8) \<longleftrightarrow> j mod 8 = r \<and> b"
      using i(2) by (cases b) (auto simp: word_bits bit_1_iff bit_exp_iff)
    moreover have "j = i \<longleftrightarrow> j mod 8 = r" using mult_div_mod_eq [of 8 j] True i(1) by linarith
    ultimately show ?thesis using True i(3) by (simp add: bit_at_def bit_or_iff)
  next
    case False
    then show ?thesis by (auto simp: bit_at_def q_def)
  qed
qed simp

lemma put_bits:
  assumes "i + length bs \<le> 8 * length buf"
  shows "\<exists>buf'. put_bits i bs buf = Some buf' \<and> length buf' = length buf
    \<and> (\<forall>j. bit_at ((!) buf') j = (bit_at ((!) buf) j \<or> i \<le> j \<and> j < i + length bs \<and> bs ! (j - i)))"
  using assms
proof (induction bs arbitrary: i buf)
  case (Cons b bs)
  then have "i < 8 * length buf" by simp
  then obtain b1 where b1: "put_bit i b buf = Some b1" "length b1 = length buf"
    "\<And>j. bit_at ((!) b1) j = (bit_at ((!) buf) j \<or> j = i \<and> b)" using put_bit [of i buf b] by blast
  with Cons.prems Cons.IH [of "Suc i" b1] obtain b2 where b2: "put_bits (Suc i) bs b1 = Some b2" "length b2 = length buf"
    "\<And>j. bit_at ((!) b2) j = (bit_at ((!) b1) j \<or> Suc i \<le> j \<and> j < Suc i + length bs \<and> bs ! (j - Suc i))" by auto
  have "bit_at ((!) b2) j = (bit_at ((!) buf) j \<or> i \<le> j \<and> j < i + length (b # bs) \<and> (b # bs) ! (j - i))" for j
    unfolding b2(3) b1(3) by (cases "j = i") (auto simp: nth_Cons')
  then show ?case using b1 b2 by auto
qed auto

lemma put_bits_overflow: "\<lbrakk>8 * length buf < i + length bs; i \<le> 8 * length buf\<rbrakk> \<Longrightarrow> put_bits i bs buf = None"
proof (induction bs arbitrary: i buf)
  case (Cons b bs)
  show ?case
  proof (cases "i < 8 * length buf")
    case True
    then obtain b1 where "put_bit i b buf = Some b1" "length b1 = length buf" using put_bit [of i buf b] by blast
    then show ?thesis using Cons True by simp
  next
    case False
    then show ?thesis using Cons.prems by (simp add: put_bit_def index_split)
  qed
qed simp

section \<open>Decompression reads it back\<close>

lemma nth_code_bits:
  "code_bits s ! 0 = (s < 0)" "j < 7 \<Longrightarrow> code_bits s ! Suc j = bit \<bar>s\<bar> (6 - j)"
  "j < nat (drop_bit 7 \<bar>s\<bar>) \<Longrightarrow> code_bits s ! (8 + j) = False"
  "code_bits s ! (8 + nat (drop_bit 7 \<bar>s\<bar>)) = True"
  by (simp_all add: code_bits_def nth_append del: upt_conv_Cons upt_rec_numeral)

lemma sign_bit: "drop_bit 7 (b :: byte) = 1 \<longleftrightarrow> bit b 7"
proof
  assume "drop_bit 7 b = 1"
  then have "bit (drop_bit 7 b) 0" by simp
  then show "bit b 7" by (simp add: bit_drop_bit_eq)
next
  assume "bit b 7"
  then show "drop_bit 7 b = 1" by (intro byte_eqI) (simp_all add: bit_drop_bit_eq byte_high)
qed

lemma low_bits:
  fixes c :: int
  assumes "\<And>j. j < 7 \<Longrightarrow> bit b j = bit c j"
  shows "uint (b AND 0x7f :: byte) = c mod 128"
proof -
  have m: "(0x7f :: byte) = mask 7" by (simp add: mask_eq_exp_minus_1)
  have "b AND 0x7f = word_of_int (take_bit 7 c)"
    unfolding m using assms by (intro bit_word_eqI) (auto simp: bit_and_iff bit_mask_iff bit_take_bit_iff bit_word_of_int_iff)
  moreover have "0 \<le> c mod 128" "c mod 128 < 128" by simp_all
  ultimately show ?thesis by (simp only: unsigned_of_int) (simp add: take_bit_eq_mod)
qed

lemma decode_coefficient:
  assumes "\<And>j. j < length (code_bits s) \<Longrightarrow> bit_at bytes (i + j) = code_bits s ! j" "\<bar>s\<bar> < 1024"
  shows "drop_bit 7 (extract_8_contiguous_bits bytes i) = 1 \<longleftrightarrow> s < 0"
    and "uint (extract_8_contiguous_bits bytes i AND 0x7f) = \<bar>s\<bar> mod 128"
    and "countl_zero (extract_8_contiguous_bits bytes (i + 8)) = nat (\<bar>s\<bar> div 128)" "nat (\<bar>s\<bar> div 128) < 8"
proof -
  let ?k = "nat (drop_bit 7 \<bar>s\<bar>)"
  have k: "?k = nat (\<bar>s\<bar> div 128)" by (simp add: drop_bit_eq_div)
  show k8: "nat (\<bar>s\<bar> div 128) < 8" using assms(2) by simp
  have at: "bit_at bytes (i + j) = code_bits s ! j" if "j < 9 + ?k" for j
    using that assms(1) by (simp only: length_code_bits)
  show "drop_bit 7 (extract_8_contiguous_bits bytes i) = 1 \<longleftrightarrow> s < 0"
    using at [of 0] by (simp add: sign_bit bit_extract_8 nth_code_bits)
  show "uint (extract_8_contiguous_bits bytes i AND 0x7f) = \<bar>s\<bar> mod 128"
  proof (rule low_bits)
    fix j :: nat assume j: "j < 7"
    have "i + 7 - j = i + Suc (6 - j)" using j by simp
    then have "bit (extract_8_contiguous_bits bytes i) j = code_bits s ! Suc (6 - j)"
      using j at [of "Suc (6 - j)"] by (simp add: bit_extract_8)
    then show "bit (extract_8_contiguous_bits bytes i) j = bit \<bar>s\<bar> j" using j by (simp add: nth_code_bits(2))
  qed
  show "countl_zero (extract_8_contiguous_bits bytes (i + 8)) = nat (\<bar>s\<bar> div 128)"
    unfolding k [symmetric]
  proof (rule zeros_window)
    show "?k < 8" using k8 k by simp
    show "\<not> bit_at bytes (i + 8 + j)" if "j < ?k" for j
      using at [of "8 + j"] that nth_code_bits(3) [of j s] by (simp add: add.assoc)
    show "bit_at bytes (i + 8 + ?k)" using at [of "8 + ?k"] nth_code_bits(4) [of s] by (simp add: add.assoc)
  qed
qed

lemma decompress_step:
  assumes "i < slen" "drop_bit 7 (extract_8_contiguous_bits bytes i) = 1 \<longleftrightarrow> s < 0"
    and "uint (extract_8_contiguous_bits bytes i AND 0x7f) = a"
    and "countl_zero (extract_8_contiguous_bits bytes (i + 8)) = k" "k < 8" "a + 128 * int k = \<bar>s\<bar>"
  shows "decompress_loop bytes slen (Suc n) i acc = decompress_loop bytes slen n (i + (9 + k)) (acc @ [s])"
proof -
  have "push_bit 7 1 = (128 :: int)" by (simp add: push_bit_eq_mult)
  moreover have "i + 8 + k + 1 = i + (9 + k)" by simp
  ultimately show ?thesis using assms(1,5) by (cases "s < 0") (simp_all add: Let_def assms(2-4,6) add.left_commute [of i 9 k])
qed

lemma decompress_loop_code:
  assumes "\<And>j. j < length (concat (map code_bits ss)) \<Longrightarrow> bit_at bytes (i + j) = concat (map code_bits ss) ! j"
    and "i + length (concat (map code_bits ss)) \<le> slen" "list_all (\<lambda>s. \<bar>s\<bar> < 1024) ss"
  shows "decompress_loop bytes slen (length ss) i acc = (False, i + length (concat (map code_bits ss)), acc @ ss)"
  using assms
proof (induction ss arbitrary: i acc)
  case (Cons s ss)
  let ?r = "concat (map code_bits ss)"
  have at: "bit_at bytes (i + j) = code_bits s ! j" if "j < length (code_bits s)" for j
    using that Cons.prems(1) [of j] by (simp add: nth_append)
  have s: "\<bar>s\<bar> < 1024" using Cons.prems(3) by simp
  note d = decode_coefficient [OF at s]
  have len: "length (code_bits s) = 9 + nat (\<bar>s\<bar> div 128)" by (simp add: length_code_bits drop_bit_eq_div)
  have "decompress_loop bytes slen (length ss) (i + length (code_bits s)) (acc @ [s])
      = (False, i + length (code_bits s) + length ?r, (acc @ [s]) @ ss)"
  proof (rule Cons.IH)
    show "bit_at bytes (i + length (code_bits s) + j) = ?r ! j" if "j < length ?r" for j
      using that Cons.prems(1) [of "length (code_bits s) + j"] by (simp add: nth_append add.assoc)
  qed (use Cons.prems in \<open>simp_all add: add.assoc\<close>)
  moreover have "i < slen" using Cons.prems(2) len by simp
  moreover have "0 \<le> \<bar>s\<bar> div 128" by (simp add: pos_imp_zdiv_nonneg_iff)
  then have "\<bar>s\<bar> mod 128 + 128 * int (nat (\<bar>s\<bar> div 128)) = \<bar>s\<bar>" by simp
  ultimately show ?case
    using decompress_step [OF _ d] by (simp add: len add.assoc)
qed simp

lemma uint_low7: "uint (b AND 0x7f :: byte) < 128"
  using low_bits [of b "uint b"] by (simp add: bit_uint_iff)

lemma decompress_loop_bound:
  "\<lbrakk>decompress_loop bytes slen n i acc = (failed, j, out); list_all (\<lambda>c. \<bar>c\<bar> < 1024) acc\<rbrakk>
    \<Longrightarrow> list_all (\<lambda>c. \<bar>c\<bar> < 1024) out"
proof (induction n arbitrary: i acc)
  case (Suc n)
  let ?k = "countl_zero (extract_8_contiguous_bits bytes (i + 8))"
  have a: "0 \<le> uint (extract_8_contiguous_bits bytes i AND 0x7f)" "uint (extract_8_contiguous_bits bytes i AND 0x7f) < 128"
    by (simp_all add: uint_low7)
  show ?case
  proof (cases "?k < 8")
    case True
    define v where "v = uint (extract_8_contiguous_bits bytes i AND 0x7f) + 128 * int ?k"
    have "\<bar>v\<bar> < 1024" using a True by (simp add: v_def)
    with Suc True show ?thesis by (auto simp: Let_def push_bit_eq_mult v_def [symmetric] split: if_splits)
  next
    case False
    have "\<bar>uint (extract_8_contiguous_bits bytes i AND 0x7f)\<bar> < 1024" using a by simp
    with Suc False show ?thesis by (auto simp: Let_def split: if_splits)
  qed
qed simp

definition falcon_sizes_ok :: "nat \<Rightarrow> nat \<Rightarrow> bool" where
  "falcon_sizes_ok N sbytelen \<longleftrightarrow> N = 512 \<and> sbytelen = 666 \<or> N = 1024 \<and> sbytelen = 1280"

definition compressed_bits :: "int list \<Rightarrow> nat" where
  "compressed_bits s = 9 * length s + sum_list (map (\<lambda>c. nat (\<bar>c\<bar> div 128)) s)"

lemma length_codes: "length (concat (map code_bits s)) = compressed_bits s"
  by (induction s) (simp_all add: compressed_bits_def length_code_bits drop_bit_eq_div)

lemma falcon_buffer: "falcon_sizes_ok N sbytelen \<Longrightarrow> sbytelen - 41 < max_sbytelen N \<and> 41 < sbytelen"
  by (auto simp: falcon_sizes_ok_def max_sbytelen_def key_sizes)

lemma compress_sig_cases:
  assumes "falcon_sizes_ok N sbytelen"
  shows "8 * max_sbytelen N < compressed_bits s \<Longrightarrow> compress_sig N sbytelen s sig = None"
    and "compressed_bits s \<le> 8 * max_sbytelen N \<Longrightarrow>
      \<exists>buf. compress_sig N sbytelen s sig = Some (compressed_bits s < 8 * sbytelen - 328, take 41 sig @ take (sbytelen - 41) buf)
        \<and> length buf = max_sbytelen N
        \<and> (compressed_bits s < 8 * sbytelen - 328 \<longrightarrow>
            (\<forall>j<8 * max_sbytelen N. bit_at ((!) buf) j = (j < compressed_bits s \<and> concat (map code_bits s) ! j)))"
proof -
  let ?z = "replicate (max_sbytelen N) (0 :: byte)"
  have z: "\<not> bit_at ((!) ?z) j" if "j < 8 * max_sbytelen N" for j
    using that by (simp add: bit_at_def less_mult_imp_div_less mult.commute)
  show "8 * max_sbytelen N < compressed_bits s \<Longrightarrow> compress_sig N sbytelen s sig = None"
    using put_bits_overflow [of ?z 0 "concat (map code_bits s)"]
    by (simp add: compress_sig_def compress_loop_bits length_codes)
  assume "compressed_bits s \<le> 8 * max_sbytelen N"
  then obtain buf where buf: "put_bits 0 (concat (map code_bits s)) ?z = Some buf" "length buf = max_sbytelen N"
    "\<And>j. bit_at ((!) buf) j = (bit_at ((!) ?z) j \<or> j < compressed_bits s \<and> concat (map code_bits s) ! j)"
    using put_bits [of 0 "concat (map code_bits s)" ?z] by (auto simp: length_codes)
  define out where "out = (if 8 * sbytelen - 328 \<le> compressed_bits s then ?z else buf)"
  have "compress_sig N sbytelen s sig = Some (compressed_bits s < 8 * sbytelen - 328, take 41 sig @ take (sbytelen - 41) out)"
    by (simp add: compress_sig_def compress_loop_bits buf(1) length_codes out_def Let_def)
  then show "\<exists>buf. compress_sig N sbytelen s sig = Some (compressed_bits s < 8 * sbytelen - 328, take 41 sig @ take (sbytelen - 41) buf)
        \<and> length buf = max_sbytelen N
        \<and> (compressed_bits s < 8 * sbytelen - 328 \<longrightarrow>
            (\<forall>j<8 * max_sbytelen N. bit_at ((!) buf) j = (j < compressed_bits s \<and> concat (map code_bits s) ! j)))"
    using buf z by (intro exI [of _ out]) (auto simp: out_def)
qed

lemma decompress_compressed:
  assumes "falcon_sizes_ok N sbytelen" "length s = N" "length sig = sbytelen"
    and "compress_sig N sbytelen s sig = Some (True, out)" "list_all (\<lambda>c. \<bar>c\<bar> < 1024) s"
  shows "decompress_sig beyond N sbytelen out = (True, s)"
proof -
  have fits: "compressed_bits s \<le> 8 * max_sbytelen N"
    using compress_sig_cases(1) [OF assms(1), of s sig] assms(4) by (simp add: not_less [symmetric]) blast
  from compress_sig_cases(2) [OF assms(1) this, of sig] assms(4) obtain buf where
    buf: "out = take 41 sig @ take (sbytelen - 41) buf" "length buf = max_sbytelen N" "compressed_bits s < 8 * sbytelen - 328"
    "\<And>j. j < 8 * max_sbytelen N \<Longrightarrow> bit_at ((!) buf) j = (j < compressed_bits s \<and> concat (map code_bits s) ! j)" by auto
  note sizes = falcon_buffer [OF assms(1)]
  let ?m = "sig_byte beyond out"
  have at: "bit_at ?m (328 + j) = (j < compressed_bits s \<and> concat (map code_bits s) ! j)" if "j < 8 * sbytelen - 328" for j
  proof -
    have "j div 8 < sbytelen - 41" using that by (simp add: less_mult_imp_div_less)
    moreover have "(328 + j) div 8 = 41 + j div 8" "(328 + j) mod 8 = j mod 8" by presburger+
    moreover from calculation(1) have "41 + j div 8 < sbytelen" by linarith
    ultimately have "bit_at ?m (328 + j) = bit_at ((!) buf) j"
      using assms(3) sizes buf(2) by (simp add: bit_at_def sig_byte_def buf(1) nth_append)
    moreover have "j < 8 * max_sbytelen N" using that sizes by linarith
    ultimately show ?thesis using buf(4) by simp
  qed
  have loop: "decompress_loop ?m (8 * sbytelen) N 328 [] = (False, 328 + compressed_bits s, s)"
    using decompress_loop_code [of s ?m 328 "8 * sbytelen" "[]"] at buf(3) assms(2,5) by (simp add: length_codes)
  have "trailing_zero ?m (8 * sbytelen) (328 + compressed_bits s)"
  proof (rule trailing_zero_bits)
    fix j assume "328 + compressed_bits s \<le> j" "j < 8 * sbytelen"
    then obtain d where "j = 328 + d" "compressed_bits s \<le> d" "d < 8 * sbytelen - 328"
      by (intro that [of "j - 328"]) simp_all
    then show "\<not> bit_at ?m j" using at [of d] by simp
  qed simp
  then show ?thesis using loop buf(3) assms(2) by (simp add: decompress_sig_def Let_def)
qed

lemma decompress_sig_bound:
  "decompress_sig beyond N sbytelen sig = (True, s) \<Longrightarrow> list_all (\<lambda>c. \<bar>c\<bar> < 1024) s"
  by (auto simp: decompress_sig_def Let_def split: prod.splits if_splits dest: decompress_loop_bound)

section \<open>Properties\<close>

text \<open>
  C8: When compression accepts a polynomial, decompression of the signature gives it back, whatever follows it in
  memory, if and only if every coefficient is below 1024 in absolute value: a longer unary code is
  skipped without being added to the coefficient.
\<close>

theorem signature_roundtrip:
  assumes "falcon_sizes_ok N sbytelen" "length s = N" "length sig = sbytelen"
    and "compress_sig N sbytelen s sig = Some (True, out)"
  shows "decompress_sig beyond N sbytelen out = (True, s) \<longleftrightarrow> list_all (\<lambda>c. \<bar>c\<bar> < 1024) s"
  using decompress_compressed [OF assms] decompress_sig_bound by blast

lemma signature_roundtrip_witness:
  "\<exists>out. compress_sig 512 666 (1023 # replicate 511 (- 5)) (replicate 666 0) = Some (True, out)
     \<and> decompress_sig (\<lambda>_. 0) 512 666 out = (True, 1023 # replicate 511 (- 5))"
proof -
  have o: "falcon_sizes_ok 512 666" by (simp add: falcon_sizes_ok_def)
  have b: "compressed_bits (1023 # replicate 511 (- 5)) = 4615" by (simp add: compressed_bits_def)
  moreover have "8 * max_sbytelen 512 = 7168" by (simp add: max_sbytelen_def key_sizes)
  ultimately obtain out where c: "compress_sig 512 666 (1023 # replicate 511 (- 5)) (replicate 666 0) = Some (True, out)"
    using compress_sig_cases(2) [OF o, of "1023 # replicate 511 (- 5)" "replicate 666 0"] by auto
  have "decompress_sig (\<lambda>_. 0) 512 666 out = (True, 1023 # replicate 511 (- 5))
      \<longleftrightarrow> list_all (\<lambda>c. \<bar>c\<bar> < 1024) (1023 # replicate 511 (- 5 :: int))"
    by (rule signature_roundtrip [OF o _ _ c]) simp_all
  then show ?thesis using c by (auto simp: list_all_iff)
qed

text \<open>
  Compression of \<open>N\<close> coefficients writes nine bits for each and one more for every 128 of its absolute value.
  It leaves its buffer exactly when they are more than the buffer has, and reports success exactly when they
  are fewer than the bits of the signature's body.
\<close>

theorem compress_outcome:
  assumes "falcon_sizes_ok N sbytelen"
  shows "(compress_sig N sbytelen s sig = None \<longleftrightarrow> 8 * max_sbytelen N < compressed_bits s)
    \<and> ((\<exists>out. compress_sig N sbytelen s sig = Some (True, out)) \<longleftrightarrow> compressed_bits s < 8 * sbytelen - 328)"
proof -
  have lt: "8 * sbytelen - 328 < 8 * max_sbytelen N" using falcon_buffer [OF assms] by linarith
  show ?thesis using compress_sig_cases [OF assms, of s sig] lt by (cases "8 * max_sbytelen N < compressed_bits s") auto
qed

lemma compress_outcome_witness:
  "falcon_sizes_ok 512 666 \<and> (\<exists>out. compress_sig 512 666 (replicate 512 (- 127)) [] = Some (True, out))
   \<and> compress_sig 512 666 (replicate 512 12288) [] = None"
proof -
  have o: "falcon_sizes_ok 512 666" by (simp add: falcon_sizes_ok_def)
  have "8 * max_sbytelen 512 = 7168" by (simp add: max_sbytelen_def key_sizes)
  moreover have "compressed_bits (replicate 512 (- 127)) = 4608" "compressed_bits (replicate 512 12288) = 53760"
    by (simp_all add: compressed_bits_def sum_list_replicate)
  ultimately show ?thesis using compress_outcome [OF o] o by simp
qed

end
