(* ===== verification/Keccak.thy ===== *)
theory Keccak
  imports QPrelude
begin

text \<open>
  The Keccak-p[1600, 24] permutation under Falcon's hash (\<^verbatim>\<open>src/include/crypto/falcon/keccak.hpp\<close>).  The state is
  the list of its 25 lanes.  The header has two implementations, chosen at compile time: the scalar step
  mappings, and a version on 256-bit registers, whose vector instructions are written out here
  for the four 64-bit lanes of a register.
\<close>

unbundle bit_operations_syntax

section \<open>Tables\<close>

definition LANE_SIZE :: nat where "LANE_SIZE = 64"
definition KECCAK_L :: nat where "KECCAK_L = 6"
definition ROUNDS :: nat where "ROUNDS = 12 + 2 * KECCAK_L"

definition ROT :: "nat list" where
  "ROT = map (\<lambda>r. r mod LANE_SIZE)
     [0, 1, 190, 28, 91, 36, 300, 6, 55, 276, 3, 10, 171, 153, 231, 105, 45, 15, 21, 136, 210, 66, 253, 120, 78]"

definition PERM :: "nat list" where
  "PERM = [0, 6, 12, 18, 24, 3, 9, 10, 16, 22, 1, 7, 13, 19, 20, 4, 5, 11, 17, 23, 2, 8, 14, 15, 21]"

definition rc_step :: "u16 \<Rightarrow> u16" where
  "rc_step r =
     (let b0 = r AND 1;
          r = (r AND 0b011111111) XOR push_bit 8 ((drop_bit 8 r AND 1) XOR b0);
          r = (r AND 0b111101111) XOR push_bit 4 ((drop_bit 4 r AND 1) XOR b0);
          r = (r AND 0b111110111) XOR push_bit 3 ((drop_bit 3 r AND 1) XOR b0);
          r = (r AND 0b111111011) XOR push_bit 2 ((drop_bit 2 r AND 1) XOR b0)
      in drop_bit 1 r)"

definition rc :: "nat \<Rightarrow> bool" where
  "rc t = (if t mod 255 = 0 then True else drop_bit 7 ((rc_step ^^ (t mod 255)) 0b10000000) AND 1 \<noteq> 0)"

definition compute_rc :: "nat \<Rightarrow> u64" where
  "compute_rc r_idx = fold (\<lambda>j tmp. tmp OR push_bit (push_bit j 1 - 1) (of_bool (rc (j + 7 * r_idx)))) [0..<KECCAK_L + 1] 0"

definition RC :: "u64 list" where
  "RC = map compute_rc [0..<ROUNDS]"

section \<open>Step mappings\<close>

type_synonym keccak_state = "u64 list"

definition theta :: "keccak_state \<Rightarrow> keccak_state" where
  "theta state =
     (let c = fold (\<lambda>i c. map (\<lambda>j. c ! j XOR state ! (i + j)) [0..<5]) [0, 5, 10, 15, 20] (replicate 5 0);
          d = map (\<lambda>i. c ! ((i + 4) mod 5) XOR word_rotl 1 (c ! ((i + 1) mod 5))) [0..<5]
      in map (\<lambda>i. state ! i XOR d ! (i mod 5)) [0..<25])"

definition rho :: "keccak_state \<Rightarrow> keccak_state" where
  "rho state = map (\<lambda>i. word_rotl (ROT ! i) (state ! i)) [0..<25]"

definition keccak_pi :: "keccak_state \<Rightarrow> keccak_state" where
  "keccak_pi istate = map (\<lambda>i. istate ! (PERM ! i)) [0..<25]"

definition chi :: "keccak_state \<Rightarrow> keccak_state" where
  "chi istate = concat (map (\<lambda>i.
     let ix5 = i * 5
     in map (\<lambda>j. istate ! (ix5 + j) XOR (NOT (istate ! (ix5 + (j + 1) mod 5)) AND istate ! (ix5 + (j + 2) mod 5))) [0..<5])
     [0..<5])"

definition iota :: "nat \<Rightarrow> keccak_state \<Rightarrow> keccak_state" where
  "iota r_idx state = state[0 := state ! 0 XOR RC ! r_idx]"

definition keccak_round :: "nat \<Rightarrow> keccak_state \<Rightarrow> keccak_state" where
  "keccak_round r_idx state = iota r_idx (chi (keccak_pi (rho (theta state))))"

definition permute :: "keccak_state \<Rightarrow> keccak_state" where
  "permute state = fold keccak_round [0..<ROUNDS] state"

section \<open>Registers of four lanes\<close>

type_synonym m256 = "u64 \<times> u64 \<times> u64 \<times> u64"

definition mm256_load :: "u64 list \<Rightarrow> nat \<Rightarrow> m256" where
  "mm256_load p i = (p ! i, p ! (i + 1), p ! (i + 2), p ! (i + 3))"

definition mm256_store :: "m256 \<Rightarrow> u64 list" where
  "mm256_store v = (case v of (a, b, c, d) \<Rightarrow> [a, b, c, d])"

definition mm256_map2 :: "(u64 \<Rightarrow> u64 \<Rightarrow> u64) \<Rightarrow> m256 \<Rightarrow> m256 \<Rightarrow> m256" where
  "mm256_map2 f v w = (case v of (a0, a1, a2, a3) \<Rightarrow> case w of (b0, b1, b2, b3) \<Rightarrow> (f a0 b0, f a1 b1, f a2 b2, f a3 b3))"

abbreviation mm256_xor :: "m256 \<Rightarrow> m256 \<Rightarrow> m256" where
  "mm256_xor \<equiv> mm256_map2 (XOR)"

abbreviation mm256_andnot :: "m256 \<Rightarrow> m256 \<Rightarrow> m256" where
  "mm256_andnot \<equiv> mm256_map2 (\<lambda>a b. NOT a AND b)"

abbreviation mm256_sub :: "m256 \<Rightarrow> m256 \<Rightarrow> m256" where
  "mm256_sub \<equiv> mm256_map2 (-)"

text \<open>Shifts by the entries of the second register; a count of 64 or more gives zero.\<close>

abbreviation mm256_sllv :: "m256 \<Rightarrow> m256 \<Rightarrow> m256" where
  "mm256_sllv \<equiv> mm256_map2 (\<lambda>a n. push_bit (unat n) a)"

abbreviation mm256_srlv :: "m256 \<Rightarrow> m256 \<Rightarrow> m256" where
  "mm256_srlv \<equiv> mm256_map2 (\<lambda>a n. drop_bit (unat n) a)"

definition mm256_slli :: "m256 \<Rightarrow> nat \<Rightarrow> m256" where
  "mm256_slli v n = mm256_sllv v (of_nat n, of_nat n, of_nat n, of_nat n)"

definition mm256_srli :: "m256 \<Rightarrow> nat \<Rightarrow> m256" where
  "mm256_srli v n = mm256_srlv v (of_nat n, of_nat n, of_nat n, of_nat n)"

text \<open>The blend works on 32-bit halves: bit \<open>2 * i\<close> of the mask for the low half of lane \<open>i\<close>, the next for the high half.\<close>

definition blend_lane :: "bool \<Rightarrow> bool \<Rightarrow> u64 \<Rightarrow> u64 \<Rightarrow> u64" where
  "blend_lane lo hi a b = push_bit 32 (drop_bit 32 (if hi then b else a)) OR take_bit 32 (if lo then b else a)"

definition mm256_blend_epi32 :: "m256 \<Rightarrow> m256 \<Rightarrow> nat \<Rightarrow> m256" where
  "mm256_blend_epi32 v w m = (case v of (a0, a1, a2, a3) \<Rightarrow> case w of (b0, b1, b2, b3) \<Rightarrow>
     (blend_lane (bit m 0) (bit m 1) a0 b0, blend_lane (bit m 2) (bit m 3) a1 b1,
      blend_lane (bit m 4) (bit m 5) a2 b2, blend_lane (bit m 6) (bit m 7) a3 b3))"

definition mm256_permute4x64_epi64 :: "m256 \<Rightarrow> nat \<Rightarrow> m256" where
  "mm256_permute4x64_epi64 v imm = (case v of (a0, a1, a2, a3) \<Rightarrow>
     let pick = (\<lambda>k. [a0, a1, a2, a3] ! (drop_bit (2 * k) imm AND 3)) in (pick 0, pick 1, pick 2, pick 3))"

section \<open>The round on registers\<close>

type_synonym avx_state = "m256 \<times> m256 \<times> m256 \<times> m256 \<times> m256 \<times> m256 \<times> m256"
type_synonym avx_planes =
  "m256 \<times> m256 \<times> m256 \<times> m256 \<times> m256 \<times> m256 \<times> m256 \<times> m256 \<times> m256 \<times> m256"

text \<open>The registers start at the lanes \<open>0, 4, 8, 12, 16, 20, 24\<close>; after \<open>theta\<close> they are the five rows
  without their last lane, and the five last lanes, each in the first lane of a register.\<close>

definition avx_theta :: "avx_state \<Rightarrow> avx_planes" where
  "avx_theta = (\<lambda>(s0, s4, s8, s12, s16, s20, s24).
     (let t0 = mm256_blend_epi32 s4 s8 0b00000011;
          s5 = mm256_permute4x64_epi64 t0 0b00111001;
          t1 = mm256_blend_epi32 s8 s12 0b00001111;
          s10 = mm256_permute4x64_epi64 t1 0b01001110;
          t2 = mm256_blend_epi32 s12 s16 0b00111111;
          s15 = mm256_permute4x64_epi64 t2 0b10010011;
          t3 = mm256_xor s0 s5;
          t4 = mm256_xor t3 s10;
          t5 = mm256_xor t4 s15;
          c0_4 = mm256_xor t5 s20;
          s19 = mm256_permute4x64_epi64 s16 0b10010011;
          s14 = mm256_permute4x64_epi64 s12 0b11010010;
          s9 = mm256_permute4x64_epi64 s8 0b11100001;
          t6 = mm256_xor s4 s9;
          t7 = mm256_xor t6 s14;
          t8 = mm256_xor t7 s19;
          c4 = mm256_xor t8 s24;
          t9 = mm256_slli c0_4 1;
          t10 = mm256_srli c0_4 63;
          c0_4' = mm256_xor t9 t10;
          t11 = mm256_slli c4 1;
          t12 = mm256_srli c4 63;
          c4' = mm256_xor t11 t12;
          t13 = mm256_permute4x64_epi64 c4' 0b11100001;
          t14 = mm256_blend_epi32 c0_4' t13 0b00001100;
          t15 = mm256_permute4x64_epi64 t14 0b00011110;
          d1_5 = mm256_xor c0_4 t15;
          t16 = mm256_permute4x64_epi64 c0_4' 0b00111001;
          d0 = mm256_xor c4 t16;
          t17 = mm256_permute4x64_epi64 d0 0b00111001;
          t18 = mm256_blend_epi32 t17 d1_5 0b00111111;
          d0_4 = mm256_permute4x64_epi64 t18 0b10010011;
          s0' = mm256_xor s0 d0_4;
          s5' = mm256_xor s5 d0_4;
          s10' = mm256_xor s10 d0_4;
          s15' = mm256_xor s15 d0_4;
          s20' = mm256_xor s20 d0_4;
          d4 = mm256_permute4x64_epi64 d1_5 0b10010011;
          s4' = mm256_xor s4 d4;
          s9' = mm256_xor s9 d4;
          s14' = mm256_xor s14 d4;
          s19' = mm256_xor s19 d4;
          s24' = mm256_xor s24 d4
      in (s0', s5', s10', s15', s20', s4', s9', s14', s19', s24')))"

definition avx_rot :: "u64 list" where
  "avx_rot = map of_nat ROT @ [0, 0, 0]"

definition avx_rotate :: "nat \<Rightarrow> m256 \<Rightarrow> m256" where
  "avx_rotate i s =
     (let bw = (64, 64, 64, 64); shl = mm256_load avx_rot i; shr = mm256_sub bw shl
      in mm256_xor (mm256_sllv s shl) (mm256_srlv s shr))"

definition avx_rho :: "avx_planes \<Rightarrow> avx_planes" where
  "avx_rho = (\<lambda>(s0, s5, s10, s15, s20, s4, s9, s14, s19, s24).
     (avx_rotate 0 s0, avx_rotate 5 s5, avx_rotate 10 s10, avx_rotate 15 s15, avx_rotate 20 s20,
      avx_rotate 4 s4, avx_rotate 9 s9, avx_rotate 14 s14, avx_rotate 19 s19, avx_rotate 24 s24))"

definition avx_pi :: "avx_planes \<Rightarrow> avx_planes" where
  "avx_pi = (\<lambda>(s0'', s5'', s10'', s15'', s20'', s4'', s9'', s14'', s19'', s24'').
     (let t39 = mm256_permute4x64_epi64 s4'' 0b11001001;
          t40 = mm256_blend_epi32 s0'' t39 0b00110000;
          t41 = mm256_permute4x64_epi64 t40 0b10011100;
          t42 = mm256_permute4x64_epi64 s9'' 0b00111001;
          t43 = mm256_blend_epi32 s5'' t42 0b11000000;
          t44 = mm256_permute4x64_epi64 t43 0b00101101;
          t45 = mm256_permute4x64_epi64 s10'' 0b01110010;
          t46 = mm256_blend_epi32 s15'' s19'' 0b00000011;
          t47 = mm256_permute4x64_epi64 t46 0b10000111;
          t48 = mm256_permute4x64_epi64 s24'' 0b11100001;
          t49 = mm256_blend_epi32 s20'' t48 0b00001100;
          t50 = mm256_permute4x64_epi64 t49 0b11001001;
          t51 = mm256_permute4x64_epi64 s0'' 0b10101010;
          t52 = mm256_permute4x64_epi64 s5'' 0b11111111;
          t53 = s14'';
          t54 = s15'';
          t55 = mm256_permute4x64_epi64 s20'' 0b01010101
      in (t41, t44, t45, t47, t50, t51, t52, t53, t54, t55)))"

definition avx_chi :: "avx_planes \<Rightarrow> avx_state" where
  "avx_chi = (\<lambda>(t41, t44, t45, t47, t50, t51, t52, t53, t54, t55).
     (let t56 = mm256_andnot t44 t45;
          t57 = mm256_xor t41 t56;
          t58 = mm256_andnot t45 t47;
          t59 = mm256_xor t44 t58;
          t60 = mm256_andnot t47 t50;
          t61 = mm256_xor t45 t60;
          t62 = mm256_andnot t50 t41;
          t63 = mm256_xor t47 t62;
          t64 = mm256_andnot t41 t44;
          t65 = mm256_xor t50 t64;
          t66 = mm256_xor t51 (mm256_andnot t52 t53);
          t67 = mm256_xor t52 (mm256_andnot t53 t54);
          t68 = mm256_xor t53 (mm256_andnot t54 t55);
          t69 = mm256_xor t54 (mm256_andnot t55 t51);
          t70 = mm256_xor t55 (mm256_andnot t51 t52);
          t71 = mm256_permute4x64_epi64 t59 0b10010011;
          t72 = mm256_permute4x64_epi64 t61 0b01001110;
          t73 = mm256_permute4x64_epi64 t63 0b00111001;
          t74 = mm256_blend_epi32 t57 t71 0b11001100;
          t75 = mm256_blend_epi32 t72 t73 0b11001100;
          s0 = mm256_blend_epi32 t74 t75 0b11110000;
          t76 = mm256_blend_epi32 t65 t57 0b11001100;
          t77 = mm256_blend_epi32 t71 t72 0b11001100;
          s4 = mm256_blend_epi32 t76 t77 0b11110000;
          t78 = mm256_blend_epi32 t65 t73 0b00110011;
          s8 = mm256_blend_epi32 t78 t74 0b11110000;
          s12 = mm256_blend_epi32 t75 t76 0b11110000;
          s16 = mm256_blend_epi32 t77 t78 0b11110000;
          t79 = mm256_permute4x64_epi64 t67 0b11100001;
          t80 = mm256_permute4x64_epi64 t68 0b11001001;
          t81 = mm256_permute4x64_epi64 t69 0b00111001;
          t82 = mm256_blend_epi32 t66 t79 0b00001100;
          t83 = mm256_blend_epi32 t82 t80 0b00110000;
          s20 = mm256_blend_epi32 t83 t81 0b11000000;
          s24 = t70
      in (s0, s4, s8, s12, s16, s20, s24)))"

definition avx_iota :: "nat \<Rightarrow> avx_state \<Rightarrow> avx_state" where
  "avx_iota i = (\<lambda>(s0, s4, s8, s12, s16, s20, s24).
     (let t84 = (RC ! i, RC ! i, RC ! i, RC ! i);
          t85 = mm256_xor s0 t84;
          s0 = mm256_blend_epi32 t85 s0 0b11111100
      in (s0, s4, s8, s12, s16, s20, s24)))"

definition avx_round :: "nat \<Rightarrow> avx_state \<Rightarrow> avx_state" where
  "avx_round i s = avx_iota i (avx_chi (avx_pi (avx_rho (avx_theta s))))"

definition avx_load :: "keccak_state \<Rightarrow> avx_state" where
  "avx_load state =
     (let tmp = take 25 state @ [0, 0, 0]
      in (mm256_load tmp 0, mm256_load tmp 4, mm256_load tmp 8, mm256_load tmp 12, mm256_load tmp 16,
          mm256_load tmp 20, mm256_load tmp 24))"

definition avx_store :: "avx_state \<Rightarrow> keccak_state" where
  "avx_store = (\<lambda>(s0, s4, s8, s12, s16, s20, s24).
     take 25 (concat (map mm256_store [s0, s4, s8, s12, s16, s20, s24])))"

definition permute_avx2 :: "keccak_state \<Rightarrow> keccak_state" where
  "permute_avx2 state = avx_store (fold avx_round [0..<ROUNDS] (avx_load state))"

section \<open>The two implementations agree\<close>

lemma blend_lane [simp]: "blend_lane True True a b = b" "blend_lane False False a b = a"
proof -
  have "push_bit 32 (drop_bit 32 w) OR take_bit 32 w = w" for w :: u64
    by (rule bit_word_eqI) (auto simp: bit_or_iff bit_push_bit_iff bit_drop_bit_eq bit_take_bit_iff)
  then show "blend_lane True True a b = b" "blend_lane False False a b = a" by (simp_all add: blend_lane_def)
qed

lemma blend_simps:
  fixes a0 a1 a2 a3 b0 b1 b2 b3 :: u64
  shows "mm256_blend_epi32 (a0, a1, a2, a3) (b0, b1, b2, b3) 0b00000011 = (b0, a1, a2, a3)"
    and "mm256_blend_epi32 (a0, a1, a2, a3) (b0, b1, b2, b3) 0b00001100 = (a0, b1, a2, a3)"
    and "mm256_blend_epi32 (a0, a1, a2, a3) (b0, b1, b2, b3) 0b00001111 = (b0, b1, a2, a3)"
    and "mm256_blend_epi32 (a0, a1, a2, a3) (b0, b1, b2, b3) 0b00110000 = (a0, a1, b2, a3)"
    and "mm256_blend_epi32 (a0, a1, a2, a3) (b0, b1, b2, b3) 0b00110011 = (b0, a1, b2, a3)"
    and "mm256_blend_epi32 (a0, a1, a2, a3) (b0, b1, b2, b3) 0b00111111 = (b0, b1, b2, a3)"
    and "mm256_blend_epi32 (a0, a1, a2, a3) (b0, b1, b2, b3) 0b11000000 = (a0, a1, a2, b3)"
    and "mm256_blend_epi32 (a0, a1, a2, a3) (b0, b1, b2, b3) 0b11001100 = (a0, b1, a2, b3)"
    and "mm256_blend_epi32 (a0, a1, a2, a3) (b0, b1, b2, b3) 0b11110000 = (a0, a1, b2, b3)"
    and "mm256_blend_epi32 (a0, a1, a2, a3) (b0, b1, b2, b3) 0b11111100 = (a0, b1, b2, b3)"
  by (simp_all add: mm256_blend_epi32_def bit_0)

lemma permute_simps:
  fixes a0 a1 a2 a3 :: u64
  shows "mm256_permute4x64_epi64 (a0, a1, a2, a3) 0b00011110 = (a2, a3, a1, a0)"
    and "mm256_permute4x64_epi64 (a0, a1, a2, a3) 0b00101101 = (a1, a3, a2, a0)"
    and "mm256_permute4x64_epi64 (a0, a1, a2, a3) 0b00111001 = (a1, a2, a3, a0)"
    and "mm256_permute4x64_epi64 (a0, a1, a2, a3) 0b01001110 = (a2, a3, a0, a1)"
    and "mm256_permute4x64_epi64 (a0, a1, a2, a3) 0b01010101 = (a1, a1, a1, a1)"
    and "mm256_permute4x64_epi64 (a0, a1, a2, a3) 0b01110010 = (a2, a0, a3, a1)"
    and "mm256_permute4x64_epi64 (a0, a1, a2, a3) 0b10000111 = (a3, a1, a0, a2)"
    and "mm256_permute4x64_epi64 (a0, a1, a2, a3) 0b10010011 = (a3, a0, a1, a2)"
    and "mm256_permute4x64_epi64 (a0, a1, a2, a3) 0b10011100 = (a0, a3, a1, a2)"
    and "mm256_permute4x64_epi64 (a0, a1, a2, a3) 0b10101010 = (a2, a2, a2, a2)"
    and "mm256_permute4x64_epi64 (a0, a1, a2, a3) 0b11001001 = (a1, a2, a0, a3)"
    and "mm256_permute4x64_epi64 (a0, a1, a2, a3) 0b11010010 = (a2, a0, a1, a3)"
    and "mm256_permute4x64_epi64 (a0, a1, a2, a3) 0b11100001 = (a1, a0, a2, a3)"
    and "mm256_permute4x64_epi64 (a0, a1, a2, a3) 0b11111111 = (a3, a3, a3, a3)"
  by (simp_all add: mm256_permute4x64_epi64_def)

lemma map2_simp: "mm256_map2 f (a0, a1, a2, a3) (b0, b1, b2, b3) = (f a0 b0, f a1 b1, f a2 b2, f a3 b3)"
  by (simp add: mm256_map2_def)

definition plane_lanes :: "avx_planes \<Rightarrow> keccak_state" where
  "plane_lanes = (\<lambda>(v0, v5, v10, v15, v20, v4, v9, v14, v19, v24).
     mm256_store v0 @ [fst v4] @ mm256_store v5 @ [fst v9] @ mm256_store v10 @ [fst v14]
     @ mm256_store v15 @ [fst v19] @ mm256_store v20 @ [fst v24])"

definition column_lanes :: "avx_planes \<Rightarrow> keccak_state" where
  "column_lanes = (\<lambda>(c0, c1, c2, c3, c4, v20, v21, v22, v23, v24).
     concat (map (\<lambda>i. map (\<lambda>c. mm256_store c ! i) [c0, c1, c2, c3, c4]) [0..<4])
     @ [fst v20, fst v21, fst v22, fst v23, fst v24])"

lemma rotate_xor:
  fixes w :: u64
  assumes "n < 64"
  shows "push_bit n w XOR drop_bit (64 - n) w = word_rotl n w"
proof (rule bit_word_eqI)
  fix m assume "m < LENGTH(64)"
  then have m: "m < 64" by simp
  show "bit (push_bit n w XOR drop_bit (64 - n) w) m = bit (word_rotl n w) m"
  proof (cases "n \<le> m")
    case True
    then have "(m + (64 - n mod 64)) mod 64 = m - n" using assms m by (simp add: le_mod_geq)
    then show ?thesis using True m assms by (auto simp: bit_xor_iff bit_push_bit_iff bit_drop_bit_eq bit_word_rotl_iff dest: bit_imp_le_length)
  next
    case False
    then have "(m + (64 - n mod 64)) mod 64 = 64 - n + m" using assms m by simp
    then show ?thesis using False m assms by (simp add: bit_xor_iff bit_push_bit_iff bit_drop_bit_eq bit_word_rotl_iff)
  qed
qed

lemma rotate_1: "mm256_xor (mm256_slli (a0, a1, a2, a3) 1) (mm256_srli (a0, a1, a2, a3) 63)
    = (word_rotl 1 a0, word_rotl 1 a1, word_rotl 1 a2, word_rotl 1 a3)"
  using rotate_xor [of 1] by (simp add: mm256_slli_def mm256_srli_def map2_simp del: push_bit_Suc)

lemma upt_lists: "[0..<25] = [0, 1, 2, 3, 4, 5, 6, 7, 8, 9, 10, 11, 12, 13, 14, 15, 16, 17, 18, 19, 20, 21, 22, 23, 24 :: nat]"
  "[0..<5] = [0, 1, 2, 3, 4 :: nat]" "[0..<4] = [0, 1, 2, 3 :: nat]"
  by (simp_all add: upt_rec)

lemma avx_state_cases:
  obtains a0 a1 a2 a3 a4 a5 a6 a7 a8 a9 a10 a11 a12 a13 a14 a15 a16 a17 a18 a19 a20 a21 a22 a23 a24 g1 g2 g3 where
    "s = ((a0, a1, a2, a3), (a4, a5, a6, a7), (a8, a9, a10, a11), (a12, a13, a14, a15), (a16, a17, a18, a19),
      (a20, a21, a22, a23), (a24, g1, g2, g3 :: u64))"
  by (metis prod_cases4 prod_cases7)

lemma avx_theta: "plane_lanes (avx_theta s) = theta (avx_store s)"
  by (cases s rule: avx_state_cases)
    (simp only: avx_theta_def prod.case Let_def blend_simps permute_simps map2_simp rotate_1,
      simp add: plane_lanes_def avx_store_def theta_def mm256_store_def Let_def upt_lists)

lemma avx_planes_cases:
  obtains v0 v5 v10 v15 v20 v4 v9 v14 v19 v24 where "v = (v0, v5, v10, v15, v20, v4, v9, v14, v19, v24 :: m256)"
  by (cases v) auto

lemma ROT_eq: "ROT = [0, 1, 62, 28, 27, 36, 44, 6, 55, 20, 3, 10, 43, 25, 39, 41, 45, 15, 21, 8, 18, 2, 61, 56, 14]"
  by (simp add: ROT_def LANE_SIZE_def)

lemma rotate_lane: "n < 64 \<Longrightarrow> push_bit (unat (of_nat n :: u64)) w XOR drop_bit (unat (64 - of_nat n :: u64)) w = word_rotl n (w :: u64)"
proof -
  assume n: "n < 64"
  have "unat (of_nat n :: u64) = n" unfolding unat_of_nat using n by simp
  moreover from this have "unat (64 - of_nat n :: u64) = 64 - n" using n by (simp add: unat_sub word_le_nat_alt)
  ultimately show ?thesis using rotate_xor [OF n, of w] by simp
qed

lemma mm256_cases: obtains a0 a1 a2 a3 where "v = (a0, a1, a2, a3 :: u64)"
  by (cases v) auto

lemma avx_rotate_lanes:
  assumes "i < 25"
  shows "fst (avx_rotate i v) = word_rotl (ROT ! i) (fst v)"
    and "i + 3 < 25 \<Longrightarrow> mm256_store (avx_rotate i v) = map2 word_rotl (map ((!) ROT) [i, i + 1, i + 2, i + 3]) (mm256_store v)"
proof -
  have len: "length ROT = 25" and "list_all (\<lambda>r. r < 64) ROT" by (simp_all add: ROT_eq)
  then have R: "ROT ! j < 64" if "j < 25" for j using that by (simp add: list_all_length)
  show "fst (avx_rotate i v) = word_rotl (ROT ! i) (fst v)"
    using assms R [of i] len
    by (cases v rule: mm256_cases) (simp add: avx_rotate_def Let_def mm256_load_def map2_simp avx_rot_def nth_append rotate_lane)
  show "mm256_store (avx_rotate i v) = map2 word_rotl (map ((!) ROT) [i, i + 1, i + 2, i + 3]) (mm256_store v)" if "i + 3 < 25"
    using assms R [of i] R [of "i + 1"] R [of "i + 2"] R [of "i + 3"] len that
    by (cases v rule: mm256_cases)
      (simp add: avx_rotate_def Let_def mm256_load_def map2_simp avx_rot_def nth_append mm256_store_def rotate_lane)
qed

lemma avx_rho: "plane_lanes (avx_rho v) = rho (plane_lanes v)"
proof (cases v rule: avx_planes_cases)
  case (1 v0 v5 v10 v15 v20 v4 v9 v14 v19 v24)
  show ?thesis
    unfolding 1 avx_rho_def plane_lanes_def prod.case
    by (cases v0 rule: mm256_cases, cases v5 rule: mm256_cases, cases v10 rule: mm256_cases, cases v15 rule: mm256_cases,
        cases v20 rule: mm256_cases) (simp add: avx_rotate_lanes rho_def mm256_store_def [of "(_, _)"] upt_lists ROT_eq)
qed

lemma avx_pi: "column_lanes (avx_pi v) = keccak_pi (plane_lanes v)"
proof (cases v rule: avx_planes_cases)
  case (1 v0 v5 v10 v15 v20 v4 v9 v14 v19 v24)
  show ?thesis
    unfolding 1
    by (cases v0 rule: mm256_cases, cases v5 rule: mm256_cases, cases v10 rule: mm256_cases, cases v15 rule: mm256_cases,
        cases v20 rule: mm256_cases, cases v4 rule: mm256_cases, cases v9 rule: mm256_cases, cases v14 rule: mm256_cases,
        cases v19 rule: mm256_cases, cases v24 rule: mm256_cases)
      (simp only: avx_pi_def prod.case Let_def blend_simps permute_simps map2_simp,
        simp add: column_lanes_def plane_lanes_def keccak_pi_def PERM_def mm256_store_def upt_lists)
qed

lemma avx_chi: "avx_store (avx_chi v) = chi (column_lanes v)"
proof (cases v rule: avx_planes_cases)
  case (1 v0 v5 v10 v15 v20 v4 v9 v14 v19 v24)
  show ?thesis
    unfolding 1
    by (cases v0 rule: mm256_cases, cases v5 rule: mm256_cases, cases v10 rule: mm256_cases, cases v15 rule: mm256_cases,
        cases v20 rule: mm256_cases, cases v4 rule: mm256_cases, cases v9 rule: mm256_cases, cases v14 rule: mm256_cases,
        cases v19 rule: mm256_cases, cases v24 rule: mm256_cases)
      (simp only: avx_chi_def prod.case Let_def blend_simps permute_simps map2_simp,
        simp add: column_lanes_def avx_store_def chi_def mm256_store_def upt_lists)
qed

lemma avx_iota: "avx_store (avx_iota i s) = iota i (avx_store s)"
  by (cases s rule: avx_state_cases)
    (simp only: avx_iota_def prod.case Let_def blend_simps map2_simp, simp add: avx_store_def iota_def mm256_store_def)

lemma avx_round: "avx_store (avx_round i s) = keccak_round i (avx_store s)"
  by (simp add: avx_round_def keccak_round_def avx_theta avx_rho avx_pi avx_chi avx_iota)

lemma avx_rounds: "avx_store (fold avx_round is s) = fold keccak_round is (avx_store s)"
  by (induction "is" arbitrary: s) (simp_all add: avx_round)

lemma list_25: "length xs = 25 \<Longrightarrow> map ((!) xs) [0..<25] = xs"
  by (metis map_nth)

lemma avx_load: "length state = 25 \<Longrightarrow> avx_store (avx_load state) = state"
  using list_25 [of state]
  by (simp add: avx_store_def avx_load_def Let_def mm256_store_def mm256_load_def nth_append upt_lists numeral_2_eq_2)

lemma length_steps [simp]:
  "length (theta s) = 25" "length (rho s) = 25" "length (keccak_pi s) = 25" "length (chi s) = 25"
  "length (iota i s) = length s"
  by (simp_all add: theta_def rho_def keccak_pi_def chi_def iota_def Let_def upt_lists)

lemma length_keccak_round [simp]: "length (keccak_round i s) = 25"
  by (simp add: keccak_round_def)

lemma length_permute [simp]: "length (permute s) = 25"
proof -
  have "length (fold keccak_round (xs @ [x]) s) = 25" for xs x by simp
  moreover have "[0..<ROUNDS] = [0..<23] @ [23]" using upt_Suc [of 0 23] by (simp add: ROUNDS_def KECCAK_L_def)
  ultimately show ?thesis by (simp only: permute_def)
qed

section \<open>The step mappings of the standard\<close>

text \<open>The lane at \<open>(x, y)\<close> of a state, and the step mappings as FIPS 202 gives them in these coordinates.\<close>

definition lane :: "keccak_state \<Rightarrow> nat \<Rightarrow> nat \<Rightarrow> u64" where
  "lane s x y = s ! (5 * (y mod 5) + x mod 5)"

definition fips_theta :: "(nat \<Rightarrow> nat \<Rightarrow> u64) \<Rightarrow> nat \<Rightarrow> nat \<Rightarrow> u64" where
  "fips_theta A x y =
     (let C = (\<lambda>x. A x 0 XOR A x 1 XOR A x 2 XOR A x 3 XOR A x 4)
      in A x y XOR C ((x + 4) mod 5) XOR word_rotl 1 (C ((x + 1) mod 5)))"

text \<open>The walk that assigns the offset \<open>(t + 1) * (t + 2) / 2\<close> to the lanes other than \<open>(0, 0)\<close>.\<close>

fun fips_offset :: "nat \<Rightarrow> nat \<Rightarrow> nat \<Rightarrow> nat \<Rightarrow> nat \<Rightarrow> nat \<Rightarrow> nat" where
  "fips_offset 0 t x y u v = 0"
| "fips_offset (Suc n) t x y u v =
     (if (x, y) = (u, v) then (t + 1) * (t + 2) div 2 else fips_offset n (t + 1) y ((2 * x + 3 * y) mod 5) u v)"

definition fips_rho :: "(nat \<Rightarrow> nat \<Rightarrow> u64) \<Rightarrow> nat \<Rightarrow> nat \<Rightarrow> u64" where
  "fips_rho A x y = word_rotl (fips_offset 24 0 1 0 x y mod 64) (A x y)"

definition fips_pi :: "(nat \<Rightarrow> nat \<Rightarrow> u64) \<Rightarrow> nat \<Rightarrow> nat \<Rightarrow> u64" where
  "fips_pi A x y = A ((x + 3 * y) mod 5) x"

definition fips_chi :: "(nat \<Rightarrow> nat \<Rightarrow> u64) \<Rightarrow> nat \<Rightarrow> nat \<Rightarrow> u64" where
  "fips_chi A x y = A x y XOR (NOT (A ((x + 1) mod 5) y) AND A ((x + 2) mod 5) y)"

lemma below_5: "x < (5 :: nat) \<longleftrightarrow> x \<in> {0, 1, 2, 3, 4}"
  by auto

lemma lane_index: "\<lbrakk>x < 5; y < 5\<rbrakk> \<Longrightarrow> 5 * y + x < (25 :: nat) \<and> (5 * y + x) mod 5 = x \<and> (5 * y + x) div 5 = y"
  by simp

definition column_parity :: "keccak_state \<Rightarrow> nat \<Rightarrow> u64" where
  "column_parity s x = s ! x XOR s ! (5 + x) XOR s ! (10 + x) XOR s ! (15 + x) XOR s ! (20 + x)"

lemma theta_nth: "i < 25 \<Longrightarrow> theta s ! i =
  s ! i XOR column_parity s ((i + 4) mod 5) XOR word_rotl 1 (column_parity s ((i + 1) mod 5))"
proof -
  assume i: "i < 25"
  define c where "c = fold (\<lambda>i c. map (\<lambda>j. c ! j XOR s ! (i + j)) [0..<5]) [0, 5, 10, 15, 20] (replicate 5 0)"
  have "c ! j = column_parity s j" if "j < 5" for j
    using that by (simp add: c_def column_parity_def xor.assoc del: upt_rec_numeral)
  moreover have "theta s ! i = s ! i XOR c ! ((i mod 5 + 4) mod 5) XOR word_rotl 1 (c ! ((i mod 5 + 1) mod 5))"
    unfolding theta_def c_def [symmetric] Let_def using i by (simp del: upt_rec_numeral)
  ultimately show ?thesis by (simp add: mod_simps)
qed

lemma theta_fips: "\<lbrakk>x < 5; y < 5\<rbrakk> \<Longrightarrow> lane (theta s) x y = fips_theta (lane s) x y"
proof -
  assume xy: "x < 5" "y < 5"
  have p: "lane s z 0 XOR lane s z 1 XOR lane s z 2 XOR lane s z 3 XOR lane s z 4 = column_parity s (z mod 5)" for z
    by (simp add: lane_def column_parity_def)
  have "(5 * y + x + 4) mod 5 = (x + 4) mod 5" "(5 * y + x + 1) mod 5 = (x + 1) mod 5" by presburger+
  then show ?thesis
    unfolding fips_theta_def Let_def p using xy lane_index [OF xy] by (simp add: lane_def [of _ x y] theta_nth)
qed

lemma ROT_fips: "map (\<lambda>i. fips_offset 24 0 1 0 (i mod 5) (i div 5) mod 64) [0..<25] = ROT"
  by code_simp

lemma PERM_fips: "map (\<lambda>i. 5 * (i mod 5) + (i mod 5 + 3 * (i div 5)) mod 5) [0..<25] = PERM"
  by code_simp

lemma rho_fips: "\<lbrakk>x < 5; y < 5\<rbrakk> \<Longrightarrow> lane (rho s) x y = fips_rho (lane s) x y"
proof -
  assume "x < 5" "y < 5"
  note i = lane_index [OF this]
  then have "ROT ! (5 * y + x) = fips_offset 24 0 1 0 x y mod 64"
    unfolding ROT_fips [symmetric] by (simp del: upt_rec_numeral)
  then show ?thesis using \<open>x < 5\<close> \<open>y < 5\<close> i by (simp add: lane_def rho_def fips_rho_def)
qed

lemma pi_fips: "\<lbrakk>x < 5; y < 5\<rbrakk> \<Longrightarrow> lane (keccak_pi s) x y = fips_pi (lane s) x y"
proof -
  assume "x < 5" "y < 5"
  note i = lane_index [OF this]
  then have "PERM ! (5 * y + x) = 5 * x + (x + 3 * y) mod 5"
    unfolding PERM_fips [symmetric] by (simp del: upt_rec_numeral)
  then show ?thesis using \<open>x < 5\<close> \<open>y < 5\<close> i by (simp add: lane_def keccak_pi_def fips_pi_def)
qed

lemma concat_rows: "\<lbrakk>x < 5; y < 5\<rbrakk> \<Longrightarrow> concat (map (\<lambda>i. map (f i) [0..<5]) [0..<5]) ! (5 * y + x) = f y x"
  by (auto simp: less_Suc_eq numeral_eq_Suc upt_rec nth_append)

lemma chi_fips: "\<lbrakk>x < 5; y < 5\<rbrakk> \<Longrightarrow> lane (chi s) x y = fips_chi (lane s) x y"
  unfolding chi_def Let_def by (simp add: lane_def fips_chi_def concat_rows mult.commute [of _ 5])

lemma iota_lane: "\<lbrakk>length s = 25; x < 5; y < 5\<rbrakk> \<Longrightarrow>
    lane (iota i s) x y = (if x = 0 \<and> y = 0 then lane s x y XOR RC ! i else lane s x y)"
  by (auto simp: lane_def iota_def nth_list_update)

lemma keccak_round_lanes:
  assumes "x < 5" "y < 5"
  shows "lane (keccak_round i s) x y =
    fips_chi (fips_pi (fips_rho (fips_theta (lane s)))) x y XOR (if x = 0 \<and> y = 0 then RC ! i else 0)"
proof -
  have r: "lane (rho (theta s)) u v = fips_rho (fips_theta (lane s)) u v" if "u < 5" "v < 5" for u v
    using that by (simp add: rho_fips fips_rho_def theta_fips)
  have p: "lane (keccak_pi (rho (theta s))) u v = fips_pi (fips_rho (fips_theta (lane s))) u v" if "u < 5" "v < 5" for u v
    using that by (simp add: pi_fips fips_pi_def r)
  have "lane (chi (keccak_pi (rho (theta s)))) x y = fips_chi (fips_pi (fips_rho (fips_theta (lane s)))) x y"
    using assms by (simp add: chi_fips fips_chi_def p)
  then show ?thesis using assms by (auto simp: keccak_round_def iota_lane)
qed

section \<open>Properties\<close>

text \<open>
  C11: The version on 256-bit registers computes the same permutation as the scalar one, although it keeps
  unrelated values in the unused lanes of its last register between rounds.
\<close>

theorem avx2_permutation:
  assumes "length state = 25"
  shows "permute_avx2 state = permute state"
  using assms by (simp add: permute_avx2_def permute_def avx_rounds avx_load)

lemma avx2_permutation_witness:
  "length (replicate 25 (0 :: u64)) = 25 \<and> permute_avx2 (replicate 25 0) = permute (replicate 25 0)"
proof -
  have "length (replicate 25 (0 :: u64)) = 25" by simp
  then show ?thesis using avx2_permutation [of "replicate 25 0"] by blast
qed

text \<open>
  A round of the code is the round of FIPS 202: its tables of rotations and of lane positions are the ones that the
  standard's walk and formula define, and the composition of the steps agrees with the
  coordinate-wise definition on every lane.
\<close>

theorem keccak_round_fips:
  assumes "x < 5" "y < 5"
  shows "lane (keccak_round i s) x y =
    fips_chi (fips_pi (fips_rho (fips_theta (lane s)))) x y XOR (if x = 0 \<and> y = 0 then RC ! i else 0)"
  using assms by (rule keccak_round_lanes)

lemma keccak_round_fips_witness:
  "lane (keccak_round 0 (replicate 25 7)) 2 3 = fips_chi (fips_pi (fips_rho (fips_theta (lane (replicate 25 7))))) 2 3 XOR 0"
  using keccak_round_fips [of 2 3 0 "replicate 25 7"] by simp

end
