(* ===== verification/Shake256.thy ===== *)
theory Shake256
  imports Keccak
begin

text \<open>
  The sponge over the permutation (\<^verbatim>\<open>src/include/crypto/falcon/sponge.hpp\<close>) and the SHAKE256 object with its
  one-shot and incremental interfaces (\<^verbatim>\<open>shake256.hpp\<close>).  Lanes and bytes are converted by the explicit
  little-endian formulas of the header.  A new object is value-initialised: its state is zero.
\<close>

unbundle bit_operations_syntax

section \<open>Bytes and lanes\<close>

text \<open>\<^verbatim>\<open>memcpy(dst + off, src, n)\<close>.\<close>

definition copy_at :: "nat \<Rightarrow> 'a list \<Rightarrow> 'a list \<Rightarrow> 'a list" where
  "copy_at off src dst = take off dst @ src @ drop (off + length src) dst"

definition load_lane :: "byte list \<Rightarrow> nat \<Rightarrow> u64" where
  "load_lane blk off =
     push_bit 56 (ucast (blk ! (off + 7))) OR push_bit 48 (ucast (blk ! (off + 6)))
     OR push_bit 40 (ucast (blk ! (off + 5))) OR push_bit 32 (ucast (blk ! (off + 4)))
     OR push_bit 24 (ucast (blk ! (off + 3))) OR push_bit 16 (ucast (blk ! (off + 2)))
     OR push_bit 8 (ucast (blk ! (off + 1))) OR push_bit 0 (ucast (blk ! off))"

definition xor_block :: "nat \<Rightarrow> byte list \<Rightarrow> keccak_state \<Rightarrow> keccak_state" where
  "xor_block rwords blk state = map (\<lambda>j. if j < rwords then state ! j XOR load_lane blk (8 * j) else state ! j) [0..<length state]"

definition state_byte :: "keccak_state \<Rightarrow> nat \<Rightarrow> byte" where
  "state_byte state i = ucast (drop_bit (8 * (i mod 8)) (state ! (i div 8)))"

section \<open>Sponge\<close>

definition pad101 :: "byte \<Rightarrow> nat \<Rightarrow> nat \<Rightarrow> nat \<Rightarrow> byte list \<Rightarrow> nat \<times> byte list" where
  "pad101 dom_sep bits rate mlen pad =
     (let j = rate - (mlen + 2) mod rate;
          flg = (j \<le> 6 - bits);
          rm_bits = of_bool (\<not> flg) * (j - (7 - bits));
          rm_bytes = drop_bit 3 rm_bits;
          last_bits = of_bool (\<not> flg) * (j - (push_bit 3 rm_bytes + (7 - bits)));
          boff = rm_bytes + 1;
          pad = pad[0 := of_bool flg * push_bit (j + 1 + bits) 1 OR push_bit bits 1 OR (dom_sep AND (push_bit bits 1 - 1))];
          pad = copy_at 1 (replicate rm_bytes 0) pad;
          pad = pad[boff := push_bit last_bits 1]
      in (j + 2, pad))"

definition get_msg_blk :: "nat \<Rightarrow> nat \<Rightarrow> byte list \<Rightarrow> byte list \<Rightarrow> nat \<Rightarrow> byte list \<Rightarrow> nat \<Rightarrow> byte list" where
  "get_msg_blk bits rate msg pad plen blk blk_idx =
     (let mblen = push_bit 3 (length msg);
          padded_len = mblen + bits + plen;
          soff = blk_idx * rate;
          doff = 0;
          (soff, doff, blk) =
            (if soff < mblen then
               let rd = min rate (mblen - soff)
               in (soff + rd, doff + rd, copy_at (drop_bit 3 doff) (take (drop_bit 3 rd) (drop (drop_bit 3 soff) msg)) blk)
             else (soff, doff, blk))
      in if doff < rate \<and> soff < padded_len
         then copy_at (drop_bit 3 doff) (take (drop_bit 3 (padded_len - soff)) pad) blk
         else blk)"

definition sponge_absorb :: "byte \<Rightarrow> nat \<Rightarrow> nat \<Rightarrow> byte list \<Rightarrow> keccak_state" where
  "sponge_absorb dom_sep bits rate msg =
     (let tot_mblen = push_bit 3 (length msg) + bits;
          rbytes = drop_bit 3 rate;
          rwords = drop_bit 3 rbytes;
          (plen, pad) = pad101 dom_sep bits rate tot_mblen (replicate rbytes 0);
          blk_cnt = (tot_mblen + plen) div rate
      in fst (fold (\<lambda>i (state, blk_bytes).
           let blk_bytes = get_msg_blk bits rate msg pad plen blk_bytes i
           in (permute (xor_block rwords blk_bytes state), blk_bytes))
         [0..<blk_cnt] (replicate 25 0, replicate rbytes 0)))"

function squeeze_loop :: "nat \<Rightarrow> nat \<Rightarrow> keccak_state \<Rightarrow> byte list \<times> keccak_state" where
  "squeeze_loop rbytes remaining state =
     (if 0 < remaining \<and> 0 < rbytes then
        let rd = min rbytes remaining;
            out = map (state_byte state) [0..<rd];
            state = (if rd = rbytes then permute state else state);
            (rest, state) = squeeze_loop rbytes (remaining - rd) state
        in (out @ rest, state)
      else ([], state))"
  by pat_completeness auto
termination by (relation "measure (\<lambda>(rbytes, remaining, state). remaining)") auto

declare squeeze_loop.simps [simp del]

definition squeeze :: "nat \<Rightarrow> nat \<Rightarrow> keccak_state \<Rightarrow> byte list \<times> keccak_state" where
  "squeeze rate dlen state = squeeze_loop (drop_bit 3 rate) dlen state"

section \<open>SHAKE256\<close>

definition shake_rate :: nat where "shake_rate = 1600 - 512"

abbreviation rbytes :: nat where "rbytes \<equiv> drop_bit 3 shake_rate"
abbreviation rwords :: nat where "rwords \<equiv> drop_bit 3 rbytes"

record shake256 =
  sh_state :: keccak_state
  absorbed :: bool
  readable :: nat
  offset :: nat
  abytes :: nat

definition shake_new :: shake256 where
  "shake_new = \<lparr>sh_state = replicate 25 0, absorbed = False, readable = 0, offset = 0, abytes = 0\<rparr>"

definition shake_hash :: "byte list \<Rightarrow> shake256 \<Rightarrow> shake256" where
  "shake_hash msg sh =
     (if \<not> absorbed sh
      then sh\<lparr>sh_state := sponge_absorb 0b00001111 4 shake_rate msg, absorbed := True, readable := drop_bit 3 shake_rate\<rparr>
      else sh)"

definition absorb_step :: "byte list \<Rightarrow> nat \<Rightarrow> keccak_state \<times> nat \<times> nat \<times> byte list \<Rightarrow> keccak_state \<times> nat \<times> nat \<times> byte list" where
  "absorb_step msg i = (\<lambda>(state, offset, moff, blk_bytes).
     let blk_bytes = copy_at offset (take (rbytes - offset) (drop moff msg)) blk_bytes;
         state = xor_block rwords blk_bytes state;
         moff = moff + (rbytes - offset);
         offset = offset + (rbytes - offset)
     in (permute state, offset mod rbytes, moff, blk_bytes))"

definition shake_absorb :: "byte list \<Rightarrow> shake256 \<Rightarrow> shake256" where
  "shake_absorb msg sh =
     (if \<not> absorbed sh then
        let mlen = length msg;
            blk_cnt = (offset sh + mlen) div rbytes;
            (state, offs, moff, blk_bytes) =
              fold (absorb_step msg) [0..<blk_cnt] (sh_state sh, offset sh, 0, replicate rbytes 0);
            rm_bytes = mlen - moff;
            blk_bytes = copy_at offs (take rm_bytes (drop moff msg)) (replicate rbytes 0);
            state = xor_block rwords blk_bytes state;
            offs = offs + rm_bytes;
            (state, offs) = (if offs = rbytes then (permute state, offs mod rbytes) else (state, offs))
        in sh\<lparr>sh_state := state, offset := offs, abytes := abytes sh + mlen\<rparr>
      else sh)"

definition shake_finalize :: "shake256 \<Rightarrow> shake256" where
  "shake_finalize sh =
     (if \<not> absorbed sh then
        let tot_mblen = push_bit 3 (abytes sh) + 4;
            (plen, pad) = pad101 0b00001111 4 shake_rate tot_mblen (replicate rbytes 0);
            rd = drop_bit 3 (plen + 4);
            blk_bytes = copy_at (offset sh) (take rd pad) (replicate rbytes 0);
            state = xor_block rwords blk_bytes (sh_state sh);
            offs = offset sh + rd;
            (state, offs) = (if offs = rbytes then (permute state, offs mod rbytes) else (state, offs))
        in sh\<lparr>sh_state := state, offset := offs, absorbed := True, readable := drop_bit 3 shake_rate\<rparr>
      else sh)"

definition read_step :: "nat \<Rightarrow> shake256 \<Rightarrow> byte list \<times> shake256" where
  "read_step remaining sh =
     (let rd = min (readable sh) remaining;
          soff = rbytes - readable sh;
          out = map (state_byte (sh_state sh)) [soff..<soff + rd];
          sh = sh\<lparr>readable := readable sh - rd\<rparr>;
          sh = (if readable sh = 0 then sh\<lparr>sh_state := permute (sh_state sh), readable := rbytes\<rparr> else sh)
      in (out, sh))"

function read_loop :: "nat \<Rightarrow> shake256 \<Rightarrow> byte list \<times> shake256" where
  "read_loop remaining sh =
     (if 0 < remaining then
        let (out, sh') = read_step remaining sh; (rest, sh'') = read_loop (remaining - length out) sh'
        in (out @ rest, sh'')
      else ([], sh))"
  by pat_completeness auto
termination
  by (relation "measure (\<lambda>(remaining, sh). 2 * remaining + of_bool (readable sh = 0))")
    (auto simp: read_step_def Let_def shake_rate_def min_def split: if_splits)

declare read_loop.simps [simp del]

definition shake_read :: "nat \<Rightarrow> shake256 \<Rightarrow> byte list \<times> shake256" where
  "shake_read dlen sh = (if \<not> absorbed sh then ([], sh) else read_loop dlen sh)"

section \<open>Lanes are linear in the bytes\<close>

lemma rate_sizes: "rbytes = 136" "rwords = 17" "shake_rate = 1088"
  by (simp_all add: shake_rate_def)

lemma bit_load_lane: "bit (load_lane blk off) n \<longleftrightarrow> n < 64 \<and> bit (blk ! (off + n div 8)) (n mod 8)"
proof (cases "n < 64")
  case True
  define q r where "q = n div 8" and "r = n mod 8"
  have n: "n = 8 * q + r" "r < 8" "q < 8" using True by (auto simp: q_def r_def)
  have "q \<in> {0, 1, 2, 3, 4, 5, 6, 7}" using n(3) by auto
  then have "bit (load_lane blk off) (8 * q + r) = bit (blk ! (off + q)) r"
    using n(2) unfolding load_lane_def
    by (elim insertE emptyE) (simp_all add: bit_or_iff bit_push_bit_iff bit_unsigned_iff byte_high)
  then show ?thesis using True by (simp add: n(1) [symmetric] q_def r_def)
qed (auto dest: bit_imp_le_length)

lemma load_lane_xor:
  "\<lbrakk>off + 8 \<le> length a; length b = length a\<rbrakk> \<Longrightarrow> load_lane (map2 (XOR) a b) off = load_lane a off XOR load_lane b off"
proof (rule bit_word_eqI)
  fix n assume "off + 8 \<le> length a" "length b = length a" "n < LENGTH(64)"
  then show "bit (load_lane (map2 (XOR) a b) off) n = bit (load_lane a off XOR load_lane b off) n"
    by (simp add: bit_xor_iff bit_load_lane)
qed

lemma load_lane_zero: "off + 8 \<le> n \<Longrightarrow> load_lane (replicate n 0) off = 0"
  by (rule bit_word_eqI) (simp add: bit_load_lane)

lemma length_xor_block [simp]: "length (xor_block w blk st) = length st"
  by (simp add: xor_block_def)

lemma xor_block_xor:
  "\<lbrakk>length a = 136; length b = 136\<rbrakk> \<Longrightarrow> xor_block 17 (map2 (XOR) a b) st = xor_block 17 a (xor_block 17 b st)"
  by (intro nth_equalityI) (simp_all add: xor_block_def load_lane_xor xor.left_commute xor.commute)

lemma xor_block_zero: "xor_block 17 (replicate 136 0) st = st"
  by (intro nth_equalityI) (simp_all add: xor_block_def load_lane_zero)

section \<open>The sponge as a function of the whole message\<close>

function chunks :: "byte list \<Rightarrow> byte list list" where
  "chunks m = (if length m < 136 then [] else take 136 m # chunks (drop 136 m))"
  by pat_completeness auto
termination by (relation "measure length") auto

declare chunks.simps [simp del]

definition sponge_state :: "byte list \<Rightarrow> keccak_state" where
  "sponge_state m = fold (\<lambda>blk st. permute (xor_block 17 blk st)) (chunks m) (replicate 25 0)"

definition chunk_rest :: "byte list \<Rightarrow> byte list" where
  "chunk_rest m = drop (136 * (length m div 136)) m"

definition partial_state :: "byte list \<Rightarrow> keccak_state" where
  "partial_state m = xor_block 17 (chunk_rest m @ replicate (136 - length m mod 136) 0) (sponge_state m)"

lemma length_chunk_rest: "length (chunk_rest m) = length m mod 136"
  by (simp add: chunk_rest_def minus_mult_div_eq_mod)

lemma chunks_append: "136 dvd length a \<Longrightarrow> chunks (a @ b) = chunks a @ chunks b"
proof (induction a rule: chunks.induct)
  case (1 a)
  show ?case
  proof (cases "length a < 136")
    case True
    then have "a = []" using 1(2) by (auto dest: dvd_imp_le)
    then show ?thesis by (simp add: chunks.simps [of "[]"])
  next
    case False
    then have "chunks (drop 136 a @ b) = chunks (drop 136 a) @ chunks b" using 1 by (simp add: dvd_diff_nat)
    then show ?thesis using False by (simp add: chunks.simps [of a] chunks.simps [of "a @ b"])
  qed
qed

lemma chunks_small: "length m < 136 \<Longrightarrow> chunks m = []"
  by (simp add: chunks.simps)

lemma chunks_one: "length m = 136 \<Longrightarrow> chunks m = [m]"
  by (simp add: chunks.simps [of m] chunks_small)

lemma message_split: obtains a where "m = a @ chunk_rest m" "136 dvd length a" "length m div 136 * 136 = length a"
proof
  let ?a = "take (136 * (length m div 136)) m"
  show "m = ?a @ chunk_rest m" by (simp add: chunk_rest_def)
  show "136 dvd length ?a" "length m div 136 * 136 = length ?a"
    using div_times_less_eq_dividend [of "length m" 136] by (simp_all add: mult.commute min_absorb2)
qed

lemma chunks_extend:
  assumes "length m mod 136 + length x < 136"
  shows "chunks (m @ x) = chunks m" "chunk_rest (m @ x) = chunk_rest m @ x"
proof -
  obtain a where a: "m = a @ chunk_rest m" "136 dvd length a" "length m div 136 * 136 = length a" by (rule message_split)
  have r: "length (chunk_rest m) = length m mod 136" by (rule length_chunk_rest)
  have "chunks (a @ (chunk_rest m @ x)) = chunks a" "chunks (a @ chunk_rest m) = chunks a"
    unfolding chunks_append [OF a(2)] using assms r by (simp_all add: chunks_small)
  then show "chunks (m @ x) = chunks m" using a(1) by (metis append.assoc)
  have "(length m + length x) div 136 = length m div 136"
    using assms by (simp add: div_add1_eq [of "length m"])
  then show "chunk_rest (m @ x) = chunk_rest m @ x"
    using a(3) by (simp add: chunk_rest_def mult.commute)
qed

lemma chunks_complete:
  assumes "length m mod 136 + length x = 136"
  shows "chunks (m @ x) = chunks m @ [chunk_rest m @ x]" "chunk_rest (m @ x) = []"
proof -
  obtain a where a: "m = a @ chunk_rest m" "136 dvd length a" "length m div 136 * 136 = length a" by (rule message_split)
  have r: "length (chunk_rest m) = length m mod 136" by (rule length_chunk_rest)
  have "chunks (a @ (chunk_rest m @ x)) = chunks a @ [chunk_rest m @ x]" "chunks (a @ chunk_rest m) = chunks a"
    unfolding chunks_append [OF a(2)] using assms r by (simp_all add: chunks_small chunks_one)
  then show "chunks (m @ x) = chunks m @ [chunk_rest m @ x]" using a(1) by (metis append.assoc)
  have "length (m @ x) mod 136 = 0" using assms by (metis length_append mod_add_left_eq mod_self)
  then show "chunk_rest (m @ x) = []" using length_chunk_rest [of "m @ x"] by simp
qed

lemma mod_extend: "a mod 136 + b < 136 \<Longrightarrow> (a + b) mod 136 = a mod 136 + (b :: nat)"
  using mod_add_left_eq [of a 136 b] by simp

lemma mod_complete: "a mod 136 + b = 136 \<Longrightarrow> (a + b) mod 136 = (0 :: nat)"
  using mod_add_left_eq [of a 136 b] by simp

lemma map2_xor_zero: "map2 (XOR) (replicate (length x) 0) x = (x :: byte list)" "map2 (XOR) x (replicate (length x) 0) = x"
  by (induction x) simp_all

lemma block_superpose:
  assumes "length r + length x + length z = 136" "z = replicate (length z) (0 :: byte)"
  shows "map2 (XOR) (replicate (length r) 0 @ x @ z) (r @ replicate (136 - length r) 0) = r @ x @ z"
proof -
  have "replicate (136 - length r) (0 :: byte) = replicate (length x) 0 @ replicate (length z) 0"
    using assms(1) by (metis add_diff_cancel_left' add.assoc replicate_add)
  then show ?thesis using assms(2) by (simp add: map2_xor_zero) (metis map2_xor_zero(1))
qed

lemma partial_state_extend:
  assumes "length m mod 136 + length x < 136"
  shows "xor_block 17 (replicate (length m mod 136) 0 @ x @ replicate (136 - length m mod 136 - length x) 0) (partial_state m)
    = partial_state (m @ x)"
proof -
  let ?z = "replicate (136 - length m mod 136 - length x) (0 :: byte)" and ?r = "chunk_rest m"
  have r: "length ?r = length m mod 136" by (rule length_chunk_rest)
  have "map2 (XOR) (replicate (length ?r) 0 @ x @ ?z) (?r @ replicate (136 - length ?r) 0) = ?r @ x @ ?z"
    using assms r by (intro block_superpose) simp_all
  then have "xor_block 17 (replicate (length m mod 136) 0 @ x @ ?z) (partial_state m) = xor_block 17 (?r @ x @ ?z) (sponge_state m)"
    unfolding partial_state_def using assms r by (subst xor_block_xor [symmetric]) simp_all
  moreover have "length (m @ x) mod 136 = length m mod 136 + length x" using mod_extend [OF assms] by simp
  ultimately show ?thesis using chunks_extend [OF assms] by (simp add: partial_state_def sponge_state_def)
qed

lemma partial_state_complete:
  assumes "length m mod 136 + length x = 136"
  shows "permute (xor_block 17 (replicate (length m mod 136) 0 @ x) (partial_state m)) = partial_state (m @ x)"
    and "partial_state (m @ x) = sponge_state (m @ x)"
proof -
  let ?r = "chunk_rest m"
  have r: "length ?r = length m mod 136" by (rule length_chunk_rest)
  have "map2 (XOR) (replicate (length ?r) 0 @ x @ []) (?r @ replicate (136 - length ?r) 0) = ?r @ x @ []"
    using assms r by (intro block_superpose) simp_all
  then have "xor_block 17 (replicate (length m mod 136) 0 @ x) (partial_state m) = xor_block 17 (?r @ x) (sponge_state m)"
    unfolding partial_state_def using assms r by (subst xor_block_xor [symmetric]) simp_all
  moreover have "length (m @ x) mod 136 = 0" using mod_complete [OF assms] by simp
  then show "partial_state (m @ x) = sponge_state (m @ x)"
    using chunks_complete(2) [OF assms] by (simp add: partial_state_def xor_block_zero)
  ultimately show "permute (xor_block 17 (replicate (length m mod 136) 0 @ x) (partial_state m)) = partial_state (m @ x)"
    using chunks_complete(1) [OF assms] by (simp add: sponge_state_def)
qed

section \<open>Incremental absorption\<close>

lemma length_copy_at: "off + length src \<le> length dst \<Longrightarrow> length (copy_at off src dst) = length dst"
  by (simp add: copy_at_def)

lemma absorb_step_partial:
  assumes "offs = length m mod 136" "moff + (136 - offs) \<le> length msg"
    and "length blk = 136" "take offs blk = replicate offs 0"
  shows "\<exists>blk'. absorb_step msg i (partial_state m, offs, moff, blk)
      = (partial_state (m @ take (136 - offs) (drop moff msg)), 0, moff + (136 - offs), blk') \<and> length blk' = 136"
proof -
  let ?x = "take (136 - offs) (drop moff msg)"
  have o: "offs < 136" using assms(1) by simp
  have x: "length ?x = 136 - offs" using assms(2) by simp
  have "copy_at offs ?x blk = replicate (length m mod 136) 0 @ ?x"
    using assms o x by (simp add: copy_at_def)
  then show ?thesis
    using partial_state_complete(1) [of m ?x] assms(1) o x by (simp add: absorb_step_def rate_sizes Let_def)
qed

lemma absorb_steps:
  assumes "offs = length m mod 136" "n \<le> (offs + length msg) div 136"
  shows "\<exists>moff blk. fold (absorb_step msg) [0..<n] (partial_state m, offs, 0, replicate 136 0)
      = (partial_state (m @ take moff msg), length (m @ take moff msg) mod 136, moff, blk)
      \<and> length blk = 136 \<and> take (length (m @ take moff msg) mod 136) blk = replicate (length (m @ take moff msg) mod 136) 0
      \<and> moff = (if n = 0 then 0 else 136 * n - offs) \<and> moff \<le> length msg"
  using assms(2)
proof (induction n)
  case 0
  then show ?case using assms(1) by (auto simp: min_def)
next
  case (Suc n)
  have need: "136 * Suc n \<le> offs + length msg"
    using Suc.prems by (simp add: less_eq_div_iff_mult_less_eq mult.commute)
  from Suc obtain moff blk where I: "fold (absorb_step msg) [0..<n] (partial_state m, offs, 0, replicate 136 0)
      = (partial_state (m @ take moff msg), length (m @ take moff msg) mod 136, moff, blk)" "length blk = 136"
    "take (length (m @ take moff msg) mod 136) blk = replicate (length (m @ take moff msg) mod 136) 0"
    "moff = (if n = 0 then 0 else 136 * n - offs)" "moff \<le> length msg" by auto
  have o: "offs < 136" using assms(1) by simp
  let ?m = "m @ take moff msg" and ?o = "length (m @ take moff msg) mod 136"
  have off: "?o = (if n = 0 then offs else 0)"
  proof (cases n)
    case (Suc k)
    have "length m = 136 * (length m div 136) + offs" using assms(1) by simp
    then have "length ?m = 136 * (length m div 136 + n)" using I(4,5) Suc o by (simp add: distrib_left)
    then show ?thesis using Suc by simp
  qed (use assms(1) I(4) in simp)
  have next_off: "moff + (136 - ?o) = 136 * Suc n - offs" unfolding off using I(4) o by (cases n) auto
  then have "moff + (136 - ?o) \<le> length msg" using need by linarith
  from absorb_step_partial [OF refl this I(2,3), of n] obtain blk' where
    step: "absorb_step msg n (partial_state ?m, ?o, moff, blk)
      = (partial_state (?m @ take (136 - ?o) (drop moff msg)), 0, moff + (136 - ?o), blk')" "length blk' = 136" by auto
  have app: "?m @ take (136 - ?o) (drop moff msg) = m @ take (moff + (136 - ?o)) msg"
    by (simp only: append.assoc take_add)
  have "length (m @ take (moff + (136 - ?o)) msg) mod 136 = 0"
  proof -
    have "length (m @ take (moff + (136 - ?o)) msg) = length ?m + (136 - ?o)"
      using \<open>moff + (136 - ?o) \<le> length msg\<close> I(5) by (simp only: length_append length_take min_absorb2 add.assoc)
    also have "\<dots> mod 136 = 0" using mod_less_divisor [of 136 "length ?m"] by (intro mod_complete) linarith
    finally show ?thesis .
  qed
  moreover have "136 + 136 * n - offs \<le> length msg" using need by simp
  ultimately show ?case using I(1) step app next_off \<open>moff + (136 - ?o) \<le> length msg\<close>
    by (intro exI [of _ "moff + (136 - ?o)"] exI [of _ blk']) simp
qed

definition absorbing :: "byte list \<Rightarrow> shake256 \<Rightarrow> bool" where
  "absorbing m sh \<longleftrightarrow> \<not> absorbed sh \<and> sh_state sh = partial_state m \<and> offset sh = length m mod 136 \<and> abytes sh = length m"

lemma absorbing_new: "absorbing [] shake_new"
  by (simp add: absorbing_def shake_new_def partial_state_def chunk_rest_def sponge_state_def chunks_small xor_block_zero)

lemma absorbing_absorb:
  assumes "absorbing m sh"
  shows "absorbing (m @ msg) (shake_absorb msg sh)"
proof -
  define os n where "os = length m mod 136" and "n = (os + length msg) div 136"
  obtain moff blk where I: "fold (absorb_step msg) [0..<n] (partial_state m, os, 0, replicate 136 0)
      = (partial_state (m @ take moff msg), length (m @ take moff msg) mod 136, moff, blk)"
    "moff = (if n = 0 then 0 else 136 * n - os)" "moff \<le> length msg"
    using absorb_steps [OF os_def, of n msg] by (auto simp: n_def)
  define r where "r = drop moff msg"
  let ?m = "m @ take moff msg"
  have mr: "m @ msg = ?m @ r" by (simp add: r_def)
  have t: "136 * n + (os + length msg) mod 136 = os + length msg" unfolding n_def by (rule mult_div_mod_eq)
  have os: "136 * (length m div 136) + os = length m" "os < 136" unfolding os_def by (rule mult_div_mod_eq) simp
  have lr: "length ?m mod 136 + length r < 136"
  proof (cases "n = 0")
    case True
    then have "os + length msg < 136" using t mod_less_divisor [of 136 "os + length msg"] by linarith
    then show ?thesis using True I(2) by (simp add: r_def os_def)
  next
    case False
    then have moff: "moff = 136 * n - os" "os \<le> 136 * n" using I(2) os(2) by (cases n; simp)+
    then have "length ?m = 136 * (length m div 136 + n)" using I(3) os(1) by (simp add: distrib_left)
    then have "length ?m mod 136 = 0" by (metis mod_mult_self1_is_0)
    moreover have "length r = (os + length msg) mod 136" unfolding r_def length_drop using moff t by linarith
    ultimately show ?thesis using mod_less_divisor [of 136 "os + length msg"] by linarith
  qed
  have "copy_at (length ?m mod 136) r (replicate 136 0)
      = replicate (length ?m mod 136) 0 @ r @ replicate (136 - length ?m mod 136 - length r) 0"
    using lr by (simp add: copy_at_def)
  then have "xor_block 17 (copy_at (length ?m mod 136) r (replicate 136 0)) (partial_state ?m) = partial_state (m @ msg)"
    using partial_state_extend [OF lr] unfolding mr by simp
  moreover have "length (m @ msg) mod 136 = length ?m mod 136 + length r" unfolding mr length_append [of _ r] by (rule mod_extend [OF lr])
  moreover have "take (length msg - moff) (drop moff msg) = r" "length msg - moff = length r" by (simp_all add: r_def)
  ultimately show ?thesis
    using assms I(1) lr unfolding absorbing_def shake_absorb_def by (simp add: rate_sizes Let_def os_def n_def)
qed

lemma absorbing_fold: "absorbing m sh \<Longrightarrow> absorbing (m @ concat msgs) (fold shake_absorb msgs sh)"
proof (induction msgs arbitrary: m sh)
  case (Cons msg msgs)
  show ?case using Cons.IH [OF absorbing_absorb [OF Cons.prems]] by simp
qed simp

section \<open>Padding\<close>

text \<open>The bytes after the message: the suffix \<open>1111\<close> of SHAKE, then \<open>1 0 * 1\<close> up to the next block, least significant bit first.\<close>

definition shake_padding :: "nat \<Rightarrow> byte list" where
  "shake_padding n = (let q = 136 - n mod 136 in if q = 1 then [0x9f] else [0x1f] @ replicate (q - 2) 0 @ [0x80])"

lemma length_shake_padding: "length (shake_padding n) = 136 - n mod 136"
proof -
  have "length (if q = 1 then [a] else [b] @ replicate (q - 2) 0 @ [c]) = q" if "0 < q" for q :: nat and a b c :: byte
    using that by (cases "q = 1") auto
  moreover have "0 < 136 - n mod 136" using mod_less_divisor [of 136 n] by simp
  ultimately show ?thesis unfolding shake_padding_def Let_def by blast
qed

lemma mod_rate: "(8 * n + 6) mod 1088 = 8 * (n mod 136) + (6 :: nat)"
proof -
  have "n = 136 * (n div 136) + n mod 136" by simp
  then have "8 * n + 6 = 1088 * (n div 136) + (8 * (n mod 136) + 6)" by linarith
  then have "(8 * n + 6) mod 1088 = (8 * (n mod 136) + 6) mod 1088" by (metis mod_mult_self4)
  moreover have "8 * (n mod 136) + 6 < 1088" using mod_less_divisor [of 136 n] by linarith
  ultimately show ?thesis by simp
qed

lemma pad_layout:
  assumes "p + 2 \<le> N"
  shows "take (p + 2) ((copy_at 1 (replicate p 0) ((replicate N 0)[0 := a]))[p + 1 := c]) = [a] @ replicate p 0 @ [c :: byte]"
proof -
  obtain k where N: "N = Suc (p + Suc k)" using assms by (metis add_2_eq_Suc' le_Suc_ex add_Suc_right add_Suc)
  have "(replicate N 0)[0 := a] = a # replicate (p + Suc k) 0" by (simp add: N)
  then have "copy_at 1 (replicate p 0) ((replicate N 0)[0 := a]) = (a # replicate p 0) @ replicate (Suc k) 0"
    by (simp add: copy_at_def del: replicate_Suc add_Suc_right)
  then show ?thesis by (simp add: list_update_append)
qed

lemma pad101_shake:
  obtains pad where "pad101 0b00001111 4 shake_rate (push_bit 3 n + 4) (replicate 136 0) = (8 * (136 - n mod 136) - 4, pad)"
    "take (136 - n mod 136) pad = shake_padding n"
proof -
  define q where "q = 136 - n mod 136"
  define pp where "pp = pad101 0b00001111 4 shake_rate (push_bit 3 n + 4) (replicate 136 0)"
  have q: "0 < q" "q \<le> 136" "n mod 136 = 136 - q" using mod_less_divisor [of 136 n] by (auto simp: q_def)
  have j: "1088 - (push_bit 3 n + 4 + 2) mod 1088 = 8 * q - 6"
  proof -
    have "push_bit 3 n + 4 + 2 = 8 * n + 6" by (simp add: push_bit_eq_mult)
    then show ?thesis using q by (simp only: mod_rate)
  qed
  have "fst pp = 8 * q - 4" unfolding pp_def pad101_def rate_sizes Let_def j using q by simp
  moreover have "take q (snd pp) = shake_padding n"
  proof (cases "q = 1")
    case True
    then have "snd pp = (copy_at 1 (replicate 0 0) ((replicate 136 0)[0 := 0x9f]))[0 + 1 := 1]"
      unfolding pp_def pad101_def rate_sizes Let_def j by simp
    then have "take (0 + 2) (snd pp) = [0x9f, 1]" using pad_layout [of 0 136 "0x9f" 1] by simp
    from arg_cong [OF this, of "take 1"] have "take 1 (snd pp) = [0x9f]" by simp
    then show ?thesis using True by (simp add: shake_padding_def q_def [symmetric])
  next
    case False
    define p where "p = q - 2"
    have p: "q = p + 2" using False q by (simp add: p_def)
    have rb: "drop_bit 3 (8 * q - 6 - (7 - 4)) = p" by (simp add: p drop_bit_eq_div)
    have lb: "8 * q - 6 - (push_bit 3 p + (7 - 4)) = 7" by (simp add: p push_bit_eq_mult)
    have flg: "(8 * q - 6 \<le> 6 - 4) = False" using False q by simp
    have "snd pp = (copy_at 1 (replicate p 0) ((replicate 136 0)[0 := 0x1f]))[p + 1 := 0x80]"
      unfolding pp_def pad101_def rate_sizes Let_def j flg of_bool_def if_False if_True simp_thms mult_1 rb lb by simp
    then show ?thesis using pad_layout [of p 136 "0x1f" "0x80"] p q
      by (simp add: shake_padding_def Let_def q_def [symmetric])
  qed
  ultimately show thesis using that [of "snd pp"] unfolding q_def pp_def [symmetric] by (metis prod.collapse)
qed

lemma drop_bit_bytes: "drop_bit 3 (8 * n) = (n :: nat)"
  by (simp add: drop_bit_eq_div)

lemma absorbing_finalize:
  assumes "absorbing m sh"
  shows "shake_finalize sh
    = sh\<lparr>sh_state := sponge_state (m @ shake_padding (length m)), offset := 0, absorbed := True, readable := 136\<rparr>"
proof -
  define q where "q = 136 - length m mod 136"
  have q: "0 < q" "length m mod 136 + q = 136" using mod_less_divisor [of 136 "length m"] by (auto simp: q_def)
  obtain pad where pad: "pad101 0b00001111 4 shake_rate (push_bit 3 (length m) + 4) (replicate 136 0) = (8 * q - 4, pad)"
    "take q pad = shake_padding (length m)" using pad101_shake [of "length m"] unfolding q_def by blast
  have rd: "drop_bit 3 (8 * q - 4 + 4) = q" using q(1) drop_bit_bytes [of q] by simp
  have len: "length m mod 136 + length (shake_padding (length m)) = 136" using q(2) by (simp add: length_shake_padding)
  have "copy_at (length m mod 136) (shake_padding (length m)) (replicate 136 0)
      = replicate (length m mod 136) 0 @ shake_padding (length m)"
    using len by (simp add: copy_at_def min_def)
  then show ?thesis
    using assms pad(2) partial_state_complete [OF len] q(2) unfolding absorbing_def shake_finalize_def Let_def rate_sizes(1)
    by (simp add: pad(1) [unfolded rate_sizes(3)] rd rate_sizes drop_bit_eq_div)
qed

section \<open>One-shot absorption\<close>

lemma chunks_map: "chunks p = map (\<lambda>i. take 136 (drop (136 * i) p)) [0..<length p div 136]"
proof (induction p rule: chunks.induct)
  case (1 p)
  show ?case
  proof (cases "length p < 136")
    case False
    then have n: "length p div 136 = Suc (length (drop 136 p) div 136)" by (simp add: le_div_geq)
    have "map (\<lambda>i. take 136 (drop (136 * i) p)) [0..<Suc n] = take 136 p # map (\<lambda>i. take 136 (drop (136 * i) (drop 136 p))) [0..<n]" for n
      by (simp add: upt_conv_Cons map_Suc_upt [symmetric] add.commute del: upt_Suc)
    then show ?thesis using 1 False unfolding n by (simp add: chunks.simps [of p])
  qed (simp add: chunks.simps)
qed

lemma get_msg_blk_shake:
  assumes "length blk = 136" "i \<le> length msg div 136" "q = 136 - length msg mod 136" "take q pad = shake_padding (length msg)"
  shows "get_msg_blk 4 1088 msg pad (8 * q - 4) blk i = take 136 (drop (136 * i) (msg @ shake_padding (length msg)))"
proof -
  let ?M = "length msg"
  have q: "0 < q" "?M mod 136 + q = 136" using mod_less_divisor [of 136 ?M] by (auto simp: assms(3))
  have M: "136 * (?M div 136) + ?M mod 136 = ?M" by simp
  have sizes: "push_bit 3 ?M = 8 * ?M" "i * 1088 = 8 * (136 * i)" by (simp_all add: push_bit_eq_mult)
  have pl: "8 * ?M + 4 + (8 * q - 4) = 8 * (?M + q)" using q(1) by simp
  show ?thesis
  proof (cases "136 * i + 136 \<le> ?M")
    case True
    then have "min 1088 (8 * ?M - 8 * (136 * i)) = 8 * 136" "8 * (136 * i) < 8 * ?M" by (auto simp: min_def)
    then show ?thesis using True assms(1) unfolding get_msg_blk_def Let_def sizes pl
      by (simp add: drop_bit_bytes copy_at_def drop_bit_eq_div)
  next
    case False
    then have "?M div 136 < Suc i" by (intro less_mult_imp_div_less) simp
    then have "i = ?M div 136" using assms(2) by simp
    then have i: "136 * i \<le> ?M" "?M < 136 * i + 136" "?M - 136 * i = ?M mod 136"
      using M False by (simp_all add: minus_mult_div_eq_mod)
    define b where "b = drop (136 * i) msg @ drop (?M mod 136) blk"
    have lb: "length (drop (136 * i) msg) = ?M mod 136" using i(3) by simp
    have first: "(if 8 * (136 * i) < 8 * ?M then
               let rd = min 1088 (8 * ?M - 8 * (136 * i))
               in (8 * (136 * i) + rd, 0 + rd, copy_at (drop_bit 3 0) (take (drop_bit 3 rd) (drop (drop_bit 3 (8 * (136 * i))) msg)) blk)
             else (8 * (136 * i), 0, blk)) = (8 * ?M, 8 * (?M mod 136), b)"
    proof (cases "136 * i < ?M")
      case True
      then have "min 1088 (8 * ?M - 8 * (136 * i)) = 8 * (?M mod 136)" using i(2,3) by (simp add: diff_mult_distrib2 [symmetric])
      moreover have "take (?M mod 136) (drop (136 * i) msg) = drop (136 * i) msg" using lb by simp
      moreover have "8 * (136 * i) + 8 * (?M mod 136) = 8 * ?M" using i(1,3) by simp
      moreover have "drop_bit 3 (1088 * i) = 136 * i" by (simp add: drop_bit_eq_div)
      ultimately show ?thesis using True lb by (simp add: Let_def drop_bit_bytes b_def copy_at_def)
    qed (use i in \<open>simp add: b_def\<close>)
    have "copy_at (?M mod 136) (shake_padding ?M) b = drop (136 * i) msg @ shake_padding ?M"
      using q(2) assms(1) lb i(2) by (simp add: copy_at_def b_def length_shake_padding)
    then show ?thesis unfolding get_msg_blk_def Let_def sizes pl first [unfolded Let_def] prod.case
      using q i assms(4) lb by (simp add: drop_bit_bytes length_shake_padding diff_mult_distrib2 [symmetric])
  qed
qed

lemma absorb_blocks:
  assumes "\<And>i blk. \<lbrakk>i < n; length blk = 136\<rbrakk> \<Longrightarrow> g blk i = c i" "\<And>i. i < n \<Longrightarrow> length (c i) = 136" "length blk = 136"
  shows "fst (fold (\<lambda>i (st, blk). let blk = g blk i in (F blk st, blk)) [0..<n] (st, blk)) = fold F (map c [0..<n]) st"
proof -
  let ?f = "\<lambda>i (st, blk). let blk = g blk i in (F blk st, blk)"
  have "k \<le> n \<Longrightarrow> fst (fold ?f [0..<k] (st, blk)) = fold F (map c [0..<k]) st \<and> length (snd (fold ?f [0..<k] (st, blk))) = 136" for k
    using assms by (induction k) (auto simp: Let_def split_beta)
  then show ?thesis by blast
qed

lemma sponge_absorb_shake: "sponge_absorb 0b00001111 4 shake_rate m = sponge_state (m @ shake_padding (length m))"
proof -
  define q where "q = 136 - length m mod 136"
  let ?p = "m @ shake_padding (length m)"
  have q: "0 < q" "length m mod 136 + q = 136" using mod_less_divisor [of 136 "length m"] by (auto simp: q_def)
  obtain pad where pad: "pad101 0b00001111 4 shake_rate (push_bit 3 (length m) + 4) (replicate 136 0) = (8 * q - 4, pad)"
    "take q pad = shake_padding (length m)" using pad101_shake [of "length m"] unfolding q_def by blast
  have n: "length m + q = 136 * Suc (length m div 136)"
    unfolding mult_Suc_right using q(2) mult_div_mod_eq [of 136 "length m"] by linarith
  then have len: "length ?p = 136 * Suc (length m div 136)" by (simp add: length_shake_padding q_def)
  have "push_bit 3 (length m) + 4 + (8 * q - 4) = 1088 * Suc (length m div 136)"
    using n q(1) by (simp add: push_bit_eq_mult)
  then have cnt: "(push_bit 3 (length m) + 4 + (8 * q - 4)) div 1088 = length ?p div 136" using len by simp
  have block: "length (take 136 (drop (136 * i) ?p)) = 136" if "i < length ?p div 136" for i
    using that unfolding len length_take length_drop by simp
  have "sponge_absorb 0b00001111 4 shake_rate m = fst (fold (\<lambda>i (st, blk).
      let blk = get_msg_blk 4 1088 m pad (8 * q - 4) blk i in (permute (xor_block 17 blk st), blk))
      [0..<length ?p div 136] (replicate 25 0, replicate 136 0))"
    unfolding sponge_absorb_def Let_def rate_sizes(1) pad(1) prod.case unfolding rate_sizes(3) cnt by (simp add: drop_bit_eq_div)
  also have "\<dots> = fold (\<lambda>blk st. permute (xor_block 17 blk st)) (map (\<lambda>i. take 136 (drop (136 * i) ?p)) [0..<length ?p div 136]) (replicate 25 0)"
    using len by (intro absorb_blocks get_msg_blk_shake [OF _ _ q_def pad(2)] block) auto
  finally show ?thesis unfolding sponge_state_def chunks_map .
qed

section \<open>Squeezing\<close>

text \<open>Byte \<open>k\<close> of the output stream that starts at a state.\<close>

definition shake_byte :: "keccak_state \<Rightarrow> nat \<Rightarrow> byte" where
  "shake_byte st k = state_byte ((permute ^^ (k div 136)) st) (k mod 136)"

definition reading :: "keccak_state \<Rightarrow> nat \<Rightarrow> shake256 \<Rightarrow> bool" where
  "reading st k sh \<longleftrightarrow> absorbed sh \<and> sh_state sh = (permute ^^ (k div 136)) st \<and> readable sh = 136 - k mod 136"

lemma stream_block:
  assumes "k mod 136 + d \<le> 136"
  shows "map (state_byte ((permute ^^ (k div 136)) st)) [k mod 136..<k mod 136 + d] = map (shake_byte st) [k..<k + d]"
proof (rule nth_equalityI)
  fix i assume "i < length (map (state_byte ((permute ^^ (k div 136)) st)) [k mod 136..<k mod 136 + d])"
  then have i: "i < d" by simp
  then have "(k + i) div 136 = k div 136" "(k + i) mod 136 = k mod 136 + i"
    using assms mod_extend [of k i] by (simp_all add: div_add1_eq [of k])
  then show "map (state_byte ((permute ^^ (k div 136)) st)) [k mod 136..<k mod 136 + d] ! i = map (shake_byte st) [k..<k + d] ! i"
    using i by (simp add: shake_byte_def)
qed simp

lemma stream_advance:
  "k mod 136 + d < 136 \<Longrightarrow> (k + d) div 136 = k div 136 \<and> (k + d) mod 136 = k mod 136 + (d :: nat)"
  "k mod 136 + d = 136 \<Longrightarrow> (k + d) div 136 = Suc (k div 136) \<and> (k + d) mod 136 = 0"
proof -
  assume "k mod 136 + d = 136"
  then have "k + d = 136 * Suc (k div 136)" unfolding mult_Suc_right using mult_div_mod_eq [of 136 k] by linarith
  then show "(k + d) div 136 = Suc (k div 136) \<and> (k + d) mod 136 = 0" by simp
qed (simp add: div_add1_eq [of k d] mod_extend)

lemma read_step_reading:
  assumes "reading st k sh" "0 < n"
  shows "\<exists>d sh'. read_step n sh = (map (shake_byte st) [k..<k + d], sh') \<and> reading st (k + d) sh' \<and> 0 < d \<and> d \<le> n"
proof -
  have k: "k mod 136 < 136" by simp
  define d where "d = min (136 - k mod 136) n"
  have d: "0 < d" "d \<le> n" "k mod 136 + d \<le> 136" using k assms(2) by (auto simp: d_def)
  have "fst (read_step n sh) = map (shake_byte st) [k..<k + d]"
    using assms stream_block [OF d(3)] k by (simp add: read_step_def reading_def Let_def rate_sizes d_def [symmetric])
  moreover have "reading st (k + d) (snd (read_step n sh))"
    using assms stream_advance [of k d] d k
    by (auto simp: read_step_def reading_def Let_def rate_sizes d_def [symmetric])
  ultimately show ?thesis using d by (metis prod.collapse)
qed

lemma read_loop_reading:
  "reading st k sh \<Longrightarrow> \<exists>sh'. read_loop n sh = (map (shake_byte st) [k..<k + n], sh') \<and> reading st (k + n) sh'"
proof (induction n arbitrary: k sh rule: less_induct)
  case (less n)
  show ?case
  proof (cases "0 < n")
    case True
    from read_step_reading [OF less.prems True] obtain d sh' where
      s: "read_step n sh = (map (shake_byte st) [k..<k + d], sh')" "reading st (k + d) sh'" "0 < d" "d \<le> n" by blast
    from less.IH [OF _ s(2), of "n - d"] s(3,4) obtain sh'' where
      t: "read_loop (n - d) sh' = (map (shake_byte st) [k + d..<k + n], sh'')" "reading st (k + n) sh''" by auto
    have "[k..<k + d] @ [k + d..<k + n] = [k..<k + n]" using s(4) upt_add_eq_append [of k "k + d" "n - d"] by simp
    then show ?thesis using s t True by (simp add: read_loop.simps [of n] map_append [symmetric] del: map_append)
  qed (use less.prems in \<open>simp add: read_loop.simps\<close>)
qed

lemma shake_byte_shift: "shake_byte st (136 + k) = shake_byte (permute st) k"
proof -
  have "(136 + k) div 136 = Suc (k div 136)" by simp
  then show ?thesis by (simp only: shake_byte_def mod_add_self1 funpow_Suc_right o_apply)
qed

lemma squeeze_loop_stream: "fst (squeeze_loop 136 n st) = map (shake_byte st) [0..<n]"
proof (induction n arbitrary: st rule: less_induct)
  case (less n)
  have block: "map (state_byte st) [0..<d] = map (shake_byte st) [0..<d]" if "d \<le> 136" for d
    using stream_block [of 0 d st] that by simp
  show ?case
  proof (cases "136 \<le> n")
    case True
    then have "fst (squeeze_loop 136 (n - 136) (permute st)) = map (shake_byte (permute st)) [0..<n - 136]" by (intro less.IH) simp
    also have "\<dots> = map (shake_byte st) [136..<n]"
      using True by (intro nth_equalityI) (simp_all add: shake_byte_shift)
    finally have "fst (squeeze_loop 136 n st) = map (shake_byte st) ([0..<136] @ [136..<n])"
      using True block [of 136] by (simp add: squeeze_loop.simps [of 136 n] Let_def split_beta min_def)
    also have "[0..<136] @ [136..<n] = [0..<n]" using upt_add_eq_append [of 0 136 "n - 136"] True by simp
    finally show ?thesis .
  next
    case False
    then show ?thesis using block [of n]
      by (simp add: squeeze_loop.simps [of 136 n] squeeze_loop.simps [of 136 0] Let_def split_beta min_def)
  qed
qed

text \<open>A client that reads several pieces one after the other.\<close>

fun shake_reads :: "nat list \<Rightarrow> shake256 \<Rightarrow> byte list" where
  "shake_reads [] sh = []"
| "shake_reads (n # ns) sh = (let (out, sh') = shake_read n sh in out @ shake_reads ns sh')"

lemma shake_reads_stream: "reading st k sh \<Longrightarrow> shake_reads ns sh = map (shake_byte st) [k..<k + sum_list ns]"
proof (induction ns arbitrary: k sh)
  case (Cons n ns)
  from read_loop_reading [OF Cons.prems] obtain sh' where
    r: "read_loop n sh = (map (shake_byte st) [k..<k + n], sh')" "reading st (k + n) sh'" by blast
  have "[k..<k + n] @ [k + n..<k + n + sum_list ns] = [k..<k + (n + sum_list ns)]"
    using upt_add_eq_append [of k "k + n" "sum_list ns"] by (simp add: add.assoc)
  then show ?case using r Cons.IH [OF r(2)] Cons.prems
    by (simp add: shake_read_def reading_def map_append [symmetric] del: map_append)
qed simp

lemma shake_hash_new:
  "shake_hash m shake_new
    = \<lparr>sh_state = sponge_state (m @ shake_padding (length m)), absorbed = True, readable = 136, offset = 0, abytes = 0\<rparr>"
  by (simp add: shake_hash_def shake_new_def sponge_absorb_shake rate_sizes(1))

lemma absorbing_finalize_full:
  "absorbing m sh \<Longrightarrow> shake_finalize sh
    = \<lparr>sh_state = sponge_state (m @ shake_padding (length m)), absorbed = True, readable = 136, offset = 0, abytes = length m\<rparr>"
  by (frule absorbing_finalize, cases sh) (simp add: absorbing_def)

lemma absorbed_ignores: "absorbed sh \<Longrightarrow> shake_absorb msg sh = sh" "absorbed sh \<Longrightarrow> shake_finalize sh = sh"
  by (simp_all add: shake_absorb_def shake_finalize_def)

section \<open>Properties\<close>

text \<open>
  C9: A message that is absorbed in pieces of any sizes and finalised leaves the object in the state of the one-shot hash of
  the whole message, whose sponge state is the fold of the permutation over the blocks of the message padded with the
  SHAKE suffix; the object then ignores further input.
\<close>

theorem shake_incremental:
  "let m = concat msgs; sh = shake_finalize (fold shake_absorb msgs shake_new) in
     sh = (shake_hash m shake_new)\<lparr>abytes := length m\<rparr> \<and> sh_state sh = sponge_state (m @ shake_padding (length m))
     \<and> shake_absorb msg sh = sh \<and> shake_finalize sh = sh"
proof -
  have "absorbing (concat msgs) (fold shake_absorb msgs shake_new)" using absorbing_fold [OF absorbing_new] by simp
  from absorbing_finalize_full [OF this] show ?thesis by (simp add: Let_def shake_hash_new absorbed_ignores)
qed

text \<open>
  C17: Reading refines an output stream: whatever the sizes of the successive reads, their concatenation is the prefix of the
  stream of the hashed message, byte \<open>k\<close> being byte \<open>k mod 136\<close> of the state after \<open>k div 136\<close> more permutations;
  the one-shot squeeze gives the same bytes, and an object that has absorbed nothing yet yields nothing.
\<close>

theorem shake_output_stream:
  "let sh = shake_hash m shake_new; stream = shake_byte (sponge_state (m @ shake_padding (length m))) in
     shake_reads ns sh = map stream [0..<sum_list ns]
     \<and> fst (squeeze shake_rate n (sh_state sh)) = map stream [0..<n]
     \<and> shake_reads ns shake_new = []"
proof -
  let ?st = "sponge_state (m @ shake_padding (length m))"
  have "reading ?st 0 (shake_hash m shake_new)" by (simp add: reading_def shake_hash_new)
  moreover have "shake_reads ns shake_new = []" by (induction ns) (simp_all add: shake_read_def shake_new_def)
  ultimately show ?thesis
    using shake_reads_stream [of ?st 0] squeeze_loop_stream [of n ?st] by (simp add: Let_def squeeze_def rate_sizes(1) shake_hash_new)
qed

end
