(* ===== verification/Falcon_Verify.thy ===== *)
theory Falcon_Verify
  imports Falcon_Signature Shake256
begin

text \<open>
  Hashing of a message to a polynomial by rejection sampling (\<^verbatim>\<open>src/include/crypto/falcon/hashing.hpp\<close>), verification of
  a signature (\<^verbatim>\<open>verification.hpp\<close>), the last step of signing (\<^verbatim>\<open>signing.hpp\<close>) and the byte-level interface of
  \<^verbatim>\<open>falcon.hpp\<close>.  The sampling loop has no bound, so it is a partial function: \<^term>\<open>None\<close> means that it does not return.
  The squared norm is summed in a signed 32-bit integer, whose overflow is undefined.
\<close>

unbundle bit_operations_syntax

section \<open>Hash to point\<close>

definition hash_kq :: u16 where
  "hash_kq = (let m = push_bit 16 1; q = unat ff_Q; k = m div q in of_nat (k * q))"

fun take_samples :: "nat \<Rightarrow> byte list \<Rightarrow> poly \<Rightarrow> poly" where
  "take_samples n (b0 # b1 # buf) poly =
     (if length poly < n then
        let t = push_bit 8 (ucast b0) OR push_bit 0 (ucast b1)
        in take_samples n buf (if t < hash_kq then poly @ [ff_make t] else poly)
      else poly)"
| "take_samples n _ poly = poly"

partial_function (option) hash_loop :: "nat \<Rightarrow> shake256 \<Rightarrow> poly \<Rightarrow> poly option" where
  "hash_loop n hasher poly =
     (if length poly < n
      then let (buf, hasher') = shake_read (drop_bit 3 shake_rate) hasher
           in hash_loop n hasher' (take_samples n buf poly)
      else Some poly)"

definition hash_to_point :: "nat \<Rightarrow> byte list \<Rightarrow> byte list \<Rightarrow> poly option" where
  "hash_to_point n salt msg =
     (let hasher = shake_new;
          hasher = shake_absorb salt hasher;
          hasher = shake_absorb msg hasher;
          hasher = shake_finalize hasher
      in hash_loop n hasher [])"

section \<open>Verification\<close>

datatype verify_outcome = Verdict bool | Signed_overflow

definition normalize_s1 :: "ff_t \<Rightarrow> int" where
  "normalize_s1 v = uint v - of_bool (v \<ge> ff_Q div 2) * uint ff_Q"

fun norm_loop :: "int list \<Rightarrow> int \<Rightarrow> int option" where
  "norm_loop [] sqrd_norm = Some sqrd_norm"
| "norm_loop (x # xs) sqrd_norm =
     (if x * x < 2 ^ 31 \<and> sqrd_norm + x * x < 2 ^ 31 then norm_loop xs (sqrd_norm + x * x) else None)"

definition verification_verify ::
  "(nat \<Rightarrow> byte) \<Rightarrow> nat \<Rightarrow> int \<Rightarrow> poly \<Rightarrow> byte list \<Rightarrow> byte list \<Rightarrow> verify_outcome option" where
  "verification_verify beyond N beta2 h msg sig =
     (case decode_sig beyond N sig of
        None \<Rightarrow> Some (Verdict False)
      | Some (salt, s2) \<Rightarrow>
          let s2_ntt = map to_field s2
          in Option.bind (hash_to_point N salt msg) (\<lambda>c.
               let c = ntt (log2 N) c;
                   s2_ntt = ntt (log2 N) s2_ntt;
                   h' = ntt (log2 N) h;
                   s1 = poly_mul s2_ntt h';
                   s1 = poly_neg s1;
                   s1 = poly_add_to s1 c;
                   s1 = intt (log2 N) s1;
                   normalized_s1 = map normalize_s1 s1
               in Some (case Option.bind (norm_loop s2 0) (norm_loop normalized_s1) of
                          None \<Rightarrow> Signed_overflow
                        | Some sqrd_norm \<Rightarrow> Verdict (sqrd_norm \<le> beta2))))"

definition falcon_beta2 :: "nat \<Rightarrow> int" where
  "falcon_beta2 N = [34034726, 70265242] ! of_bool (N = 1024)"

definition falcon_verify :: "(nat \<Rightarrow> byte) \<Rightarrow> nat \<Rightarrow> byte list \<Rightarrow> byte list \<Rightarrow> byte list \<Rightarrow> verify_outcome option" where
  "falcon_verify beyond N pkey msg sig =
     (let (decoded, h) = decode_pkey N pkey
      in if \<not> decoded then Some (Verdict False) else verification_verify beyond N (falcon_beta2 N) h msg sig)"

section \<open>End of signing\<close>

text \<open>
  One round of the signing loop from the candidate \<open>s2\<close> on: when it compresses, the header and the salt are written and
  the signature is returned, otherwise the loop goes on.  The outer option is the overrun of the compression buffer.
\<close>

definition sign_finish :: "nat \<Rightarrow> nat \<Rightarrow> byte list \<Rightarrow> int list \<Rightarrow> byte list \<Rightarrow> byte list option option" where
  "sign_finish N slen salt s2 sig =
     (let header = 0x30 OR of_nat (log2 N)
      in map_option (\<lambda>(compressed, sig). if compressed then Some (copy_at 1 salt (sig[0 := header])) else None)
           (compress_sig N slen s2 sig))"

section \<open>The samples of a stream\<close>

definition sample :: "keccak_state \<Rightarrow> nat \<Rightarrow> u16" where
  "sample st i = push_bit 8 (ucast (shake_byte st (2 * i))) OR ucast (shake_byte st (2 * i + 1))"

definition accepted :: "keccak_state \<Rightarrow> nat \<Rightarrow> u16 list" where
  "accepted st m = filter (\<lambda>t. t < 61445) (map (sample st) [0..<m])"

lemma hash_kq_eq: "hash_kq = 61445"
  by (simp add: hash_kq_def ff_Q_eq Let_def push_bit_eq_mult)

lemma accepted_append: "accepted st (m + d) = accepted st m @ filter (\<lambda>t. t < 61445) (map (sample st) [m..<m + d])"
  unfolding accepted_def by (subst upt_add_eq_append [OF le0]) simp

lemma accepted_prefix: "\<lbrakk>m \<le> m'; n \<le> length (accepted st m)\<rbrakk> \<Longrightarrow> take n (accepted st m') = take n (accepted st m)"
  using accepted_append [of st m "m' - m"] by simp

lemma take_samples_done: "n \<le> length poly \<Longrightarrow> take_samples n buf poly = poly"
  by (cases "(n, buf, poly)" rule: take_samples.cases) simp_all

lemma take_samples_step:
  assumes "length (accepted st i) < n"
  shows "take_samples n (shake_byte st (2 * i) # shake_byte st (2 * i + 1) # buf) (map ff_make (take n (accepted st i)))
    = take_samples n buf (map ff_make (take n (accepted st (i + 1))))"
proof -
  have "accepted st (i + 1) = accepted st i @ (if sample st i < 61445 then [sample st i] else [])"
    using accepted_append [of st i 1] by simp
  moreover have "push_bit 8 (ucast (shake_byte st (2 * i))) OR push_bit 0 (ucast (shake_byte st (2 * i + 1))) = sample st i"
    by (simp add: sample_def)
  ultimately show ?thesis using assms unfolding take_samples.simps hash_kq_eq Let_def by simp
qed

lemma take_samples_stream:
  "take_samples n (map (shake_byte st) [2 * i..<2 * i + 2 * d]) (map ff_make (take n (accepted st i)))
    = map ff_make (take n (accepted st (i + d)))"
proof (induction d arbitrary: i)
  case (Suc d)
  show ?case
  proof (cases "length (accepted st i) < n")
    case True
    have "[2 * i..<2 * i + 2 * Suc d] = 2 * i # (2 * i + 1) # [2 * (i + 1)..<2 * (i + 1) + 2 * d]"
      by (simp add: upt_conv_Cons del: upt_Suc)
    moreover have "i + 1 + d = i + Suc d" by simp
    ultimately show ?thesis using Suc.IH [of "i + 1"] by (simp only: list.map take_samples_step [OF True])
  next
    case False
    then show ?thesis using accepted_prefix [of i "i + Suc d" n st] by (simp add: take_samples_done del: upt_Suc)
  qed
qed simp

lemma length_take_samples: "length poly \<le> n \<Longrightarrow> length (take_samples n buf poly) \<le> n"
  by (induction n buf poly rule: take_samples.induct) (auto simp: Let_def)

section \<open>The sampling loop\<close>

lemma hash_loop_returns:
  assumes "reading st (136 * k) sh" "poly = map ff_make (take n (accepted st (68 * k)))" "n \<le> length (accepted st (68 * (k + j)))"
  shows "hash_loop n sh poly = Some (map ff_make (take n (accepted st (68 * (k + j)))))"
  using assms
proof (induction j arbitrary: k sh poly)
  case 0
  then show ?case by (simp add: hash_loop.simps [of n])
next
  case (Suc j)
  show ?case
  proof (cases "length poly < n")
    case True
    from read_loop_reading [OF Suc.prems(1), of 136] obtain sh' where
      r: "read_loop 136 sh = (map (shake_byte st) [136 * k..<136 * k + 136], sh')" "reading st (136 * k + 136) sh'" by blast
    have "shake_read 136 sh = (map (shake_byte st) [136 * k..<136 * k + 136], sh')"
      using r(1) Suc.prems(1) by (simp only: shake_read_def reading_def) simp
    moreover have "take_samples n (map (shake_byte st) [136 * k..<136 * k + 136]) poly = map ff_make (take n (accepted st (68 * Suc k)))"
      using take_samples_stream [of n st "68 * k" 68] unfolding Suc.prems(2) by (simp add: add.commute del: upt_Suc)
    ultimately have "hash_loop n sh poly = hash_loop n sh' (map ff_make (take n (accepted st (68 * Suc k))))"
      using True by (simp only: hash_loop.simps [of n sh poly] rate_sizes(1) Let_def prod.case if_True)
    also have "\<dots> = Some (map ff_make (take n (accepted st (68 * (Suc k + j)))))"
      using r(2) Suc.prems(3) by (intro Suc.IH) (simp_all add: add.commute)
    finally show ?thesis by simp
  next
    case False
    then have "n \<le> length (accepted st (68 * k))" using Suc.prems(2) by simp
    then show ?thesis using False Suc.prems(2) accepted_prefix [of "68 * k" "68 * (k + Suc j)" n st]
      by (simp add: hash_loop.simps [of n])
  qed
qed

lemma hash_loop_enough:
  assumes "hash_loop n sh poly = Some p" "reading st (136 * k) sh" "poly = map ff_make (take n (accepted st (68 * k)))"
  shows "\<exists>j. n \<le> length (accepted st (68 * (k + j)))"
  using assms(2,3)
proof (induction n sh poly p arbitrary: k rule: hash_loop.raw_induct)
  case (1 hash_loop n sh poly p)
  show ?case
  proof (cases "length poly < n")
    case True
    from read_loop_reading [OF 1(3), of 136] obtain sh' where
      r: "read_loop 136 sh = (map (shake_byte st) [136 * k..<136 * k + 136], sh')" "reading st (136 * k + 136) sh'" by blast
    have "shake_read 136 sh = (map (shake_byte st) [136 * k..<136 * k + 136], sh')"
      using r(1) 1(3) by (simp only: shake_read_def reading_def) simp
    moreover have "take_samples n (map (shake_byte st) [136 * k..<136 * k + 136]) poly = map ff_make (take n (accepted st (68 * Suc k)))"
      using take_samples_stream [of n st "68 * k" 68] unfolding 1(4) by (simp add: add.commute del: upt_Suc)
    ultimately have "hash_loop n sh' (map ff_make (take n (accepted st (68 * Suc k)))) = Some p"
      using True 1(2) by (simp only: rate_sizes(1) Let_def prod.case if_True)
    from 1(1) [OF this, of "Suc k"] r(2) obtain j where "n \<le> length (accepted st (68 * (Suc k + j)))"
      by (auto simp: add.commute)
    then show ?thesis by (intro exI [of _ "Suc j"]) simp
  next
    case False
    then show ?thesis using 1(4) by (intro exI [of _ 0]) simp
  qed
qed (rule assms(1))

definition hash_state :: "byte list \<Rightarrow> byte list \<Rightarrow> keccak_state" where
  "hash_state salt msg = sponge_state (salt @ msg @ shake_padding (length (salt @ msg)))"

lemma hasher_reading: "reading (hash_state salt msg) 0 (shake_finalize (shake_absorb msg (shake_absorb salt shake_new)))"
proof -
  have "absorbing (salt @ msg) (shake_absorb msg (shake_absorb salt shake_new))"
    using absorbing_absorb [OF absorbing_absorb [OF absorbing_new]] by simp
  from absorbing_finalize_full [OF this] show ?thesis by (simp add: reading_def hash_state_def)
qed

lemma hash_to_point_iff:
  "hash_to_point n salt msg = Some p \<longleftrightarrow>
     (\<exists>m. n \<le> length (accepted (hash_state salt msg) m) \<and> p = map ff_make (take n (accepted (hash_state salt msg) m)))"
    (is "?l \<longleftrightarrow> (\<exists>m. ?enough m)")
proof
  let ?sh = "shake_finalize (shake_absorb msg (shake_absorb salt shake_new))" and ?st = "hash_state salt msg"
  have start: "reading ?st (136 * 0) ?sh" "[] = map ff_make (take n (accepted ?st (68 * 0)))"
    using hasher_reading by (simp_all add: accepted_def)
  have loop: "hash_to_point n salt msg = hash_loop n ?sh []" by (simp add: hash_to_point_def Let_def)
  note returns = hash_loop_returns [OF start, simplified add_0, folded loop]
  { assume ?l
    then obtain j where "n \<le> length (accepted ?st (68 * j))" using hash_loop_enough [OF _ start] unfolding loop by auto
    with \<open>?l\<close> returns [of j] show "\<exists>m. ?enough m" by auto }
  assume "\<exists>m. ?enough m"
  then obtain m where m: "?enough m" by blast
  have "take n (accepted ?st (68 * m)) = take n (accepted ?st m)" using m by (intro accepted_prefix) simp_all
  moreover from this have "n \<le> length (accepted ?st (68 * m))" using m by (metis length_take min.absorb2 min.cobounded1)
  ultimately show ?l using returns [of m] m by simp
qed

section \<open>Public keys whose coefficients are not reduced\<close>

text \<open>
  \<^const>\<open>decode_pkey\<close> accepts coefficients up to \<open>2 ^ 14\<close>.  The forward transform computes with them as with their
  residues, because a product is always reduced and a sum at least once.
\<close>

definition residue :: "ff_t \<Rightarrow> ff_t \<Rightarrow> bool" where
  "residue a b \<longleftrightarrow> unat a < 2 ^ 14 \<and> canonical b \<and> zq_of a = zq_of b"

lemma ff_mul_residue:
  assumes "canonical z" "residue a b"
  shows "ff_mul z a = ff_mul z b"
proof -
  have "unat z * unat a \<le> 12288 * 16383" using assms unfolding canonical_unat residue_def by (intro mult_le_mono) simp_all
  then have "unat ((ucast z :: u32) * ucast a) = unat z * unat a" "unat z * unat a < 2 ^ 28"
    by (simp_all add: unat_word_ariths unat_ucast_up)
  then have "zq_of (ff_mul z a) = of_nat (unat z * unat a mod 12289)"
    by (simp only: ff_mul_def ff_make unat_barrett)
  also have "\<dots> = zq_of z * zq_of a" by (simp only: of_nat_zq_mod of_nat_mult zq_of_def)
  finally have "zq_of (ff_mul z a) = zq_of (ff_mul z b)" using assms by (simp add: ff_mul residue_def)
  then show ?thesis by (intro zq_of_inj canonical_ff_mul)
qed

lemma add_residue:
  assumes "unat a < 2 ^ 14" "canonical t"
  shows "unat (a + t) = unat a + unat t" "zq_of (a + t) = zq_of a + zq_of t" "unat (ff_csub (a + t)) < 2 ^ 14"
proof -
  show u: "unat (a + t) = unat a + unat t" using assms by (simp add: canonical_unat unat_word_ariths)
  show "zq_of (a + t) = zq_of a + zq_of t" by (simp only: zq_of_def u of_nat_add)
  show "unat (ff_csub (a + t)) < 2 ^ 14"
    unfolding unat_csub u using assms by (cases "12289 \<le> unat a + unat t") (simp_all add: canonical_unat)
qed

lemma ff_add_assign_residue:
  assumes "residue a b" "canonical t"
  shows "residue (ff_add_assign a t) (ff_add_assign b t)"
  using assms add_residue [of a t]
  by (simp add: residue_def ff_add_assign canonical_ff_add_assign) (simp add: ff_add_assign_def zq_csub)

lemma ff_sub_residue:
  assumes "residue a b" "canonical t"
  shows "ff_sub a t = ff_sub b t"
proof -
  have "zq_of (ff_add a (ff_neg t)) = zq_of (a + ff_neg t)"
    by (simp only: ff_add_def ff_make zq_of_def [symmetric]) (simp only: zq_csub)
  also have "\<dots> = zq_of a + zq_of (ff_neg t)" using assms canonical_ff_neg by (intro add_residue) (simp_all add: residue_def)
  finally have "zq_of (ff_sub a t) = zq_of (ff_sub b t)"
    using assms by (simp add: ff_sub_def ff_add canonical_ff_neg residue_def)
  then show ?thesis by (intro zq_of_inj canonical_ff_sub)
qed

lemma zq_make: "zq_of (ff_make v) = zq_of v"
  unfolding ff_make by (simp only: zq_of_def)

lemma residue_canonical: "canonical a \<Longrightarrow> residue a a"
  by (simp add: residue_def canonical_unat)

lemma ct_pair_residue:
  assumes "canonical z" "residue a b" "residue c d"
  shows "residue (fst (ct_pair z a c)) (fst (ct_pair z b d))" "residue (snd (ct_pair z a c)) (snd (ct_pair z b d))"
  using assms ff_mul_residue [OF assms(1,3)]
  by (simp_all add: ct_pair_def ff_add_assign_residue ff_sub_residue residue_canonical canonical_ff_mul canonical_ff_sub)

lemma pair_layer_residue:
  assumes "\<And>b. b < n \<Longrightarrow> canonical (z b)" "length p = n * (2 * len)" "list_all2 residue p q"
  shows "list_all2 residue (pair_layer (\<lambda>b. ct_pair (z b)) len n p) (pair_layer (\<lambda>b. ct_pair (z b)) len n q)"
proof (rule list_all2_all_nthI)
  have lq: "length q = n * (2 * len)" using assms(2,3) by (simp add: list_all2_lengthD)
  have r: "residue (p ! i) (q ! i)" if "i < n * (2 * len)" for i using assms(2,3) that by (simp add: list_all2_nthD)
  fix j assume "j < length (pair_layer (\<lambda>b. ct_pair (z b)) len n p)"
  then have "j < n * (2 * len)" using assms(2) by simp
  then show "residue (pair_layer (\<lambda>b. ct_pair (z b)) len n p ! j) (pair_layer (\<lambda>b. ct_pair (z b)) len n q ! j)"
  proof (cases rule: block_index)
    case (1 b r)
    then have "b * (2 * len) + r < n * (2 * len)" "b * (2 * len) + r + len < n * (2 * len)"
      using block_below [of b n r len] block_below [of b n "r + len" len] by simp_all
    with 1 show ?thesis using ct_pair_residue(1) [OF assms(1)] r
      by (simp add: pair_layer_block assms(2) lq)
  next
    case (2 b r)
    then have "b * (2 * len) + r < n * (2 * len)" "b * (2 * len) + r + len < n * (2 * len)"
      using block_below [of b n r len] block_below [of b n "r + len" len] by simp_all
    with 2 show ?thesis using ct_pair_residue(2) [OF assms(1)] r
      by (simp add: pair_layer_block assms(2) lq)
  qed
qed (use assms(2,3) in \<open>simp add: list_all2_lengthD\<close>)

lemma ntt_residue:
  assumes "check_log2n L" "length p = 2 ^ L" "list_all2 residue p q"
  shows "list_all2 residue (ntt L p) (ntt L q)"
proof -
  have zeta: "canonical (zeta_exp L k)" if "k < 2 ^ L" for k
    using assms(1) that n512.canonical_zeta n1024.canonical_zeta by (auto simp: check_log2n_cases)
  have layer: "list_all2 residue (ntt_layer L l p) (ntt_layer L l q) \<and> length (ntt_layer L l p) = 2 ^ L"
    if "l < L" "length p = 2 ^ L" "list_all2 residue p q" for l p q
  proof -
    have n: "2 ^ (L - l - 1) * (2 * 2 ^ l) = (2 :: nat) ^ L" by (rule layer_sizes(6) [OF that(1)])
    have "2 ^ (L - l - 1) + b < (2 :: nat) ^ L" if "b < 2 ^ (L - l - 1)" for b
    proof -
      have "2 ^ (L - l - 1) + b < 2 ^ (L - l - 1) * (2 :: nat)" using that by simp
      also have "\<dots> \<le> 2 ^ (L - l - 1) * (2 * 2 ^ l)" by (intro mult_le_mono2) simp
      finally show ?thesis using n by simp
    qed
    then show ?thesis using that n pair_layer_residue [of "2 ^ (L - l - 1)" "\<lambda>b. zeta_exp L (2 ^ (L - l - 1) + b)" p "2 ^ l" q] zeta
      by (simp add: ntt_layer_pair)
  qed
  have "list_all2 residue (fold (ntt_layer L) ls p) (fold (ntt_layer L) ls q)"
    if "list_all (\<lambda>l. l < L) ls" "length p = 2 ^ L" "list_all2 residue p q" for ls p q
    using that by (induction ls arbitrary: p q) (simp_all add: layer)
  then show ?thesis using assms(2,3) by (simp add: ntt_def list_all_iff)
qed

lemma poly_mul_ntt_residue:
  assumes "check_log2n L" "length h = 2 ^ L" "list_all (\<lambda>c. unat c < 2 ^ 14) h" "is_poly L s"
  shows "poly_mul (ntt L s) (ntt L h) = poly_mul (ntt L s) (ntt L (map ff_make h))"
proof -
  have "list_all2 residue h (map ff_make h)"
    using assms(3) by (simp add: list_all2_conv_all_nth list_all_length residue_def canonical_ff_make zq_make)
  from ntt_residue [OF assms(1,2) this] have r: "list_all2 residue (ntt L h) (ntt L (map ff_make h))" .
  have s: "is_poly L (ntt L s)" using transforms_poly [OF assms(1,4)] by simp
  then show ?thesis using r unfolding poly_mul_def
    by (intro nth_equalityI)
      (auto simp: list_all2_conv_all_nth is_poly_def list_all_length intro!: ff_mul_residue)
qed

section \<open>The equation that verification checks\<close>

lemma poly_sub:
  assumes "is_poly L a" "is_poly L c"
  shows "is_poly L (poly_add_to (poly_neg a) c)"
    and "j < 2 ^ L \<Longrightarrow> coeff (poly_add_to (poly_neg a) c) j = coeff c j - coeff a j"
  using assms by (simp_all add: is_poly_def poly_add_to_def poly_neg_def coeff_def list_all_length
    canonical_ff_add_assign canonical_ff_neg ff_add_assign ff_neg)

lemma poly_eval_sub:
  assumes "is_poly L a" "is_poly L c"
  shows "poly_eval (poly_add_to (poly_neg a) c) x = poly_eval c x - poly_eval a x"
proof -
  have "length a = 2 ^ L" "length c = 2 ^ L" "length (poly_add_to (poly_neg a) c) = 2 ^ L"
    using assms poly_sub(1) [OF assms] by (simp_all add: is_poly_def)
  then show ?thesis by (simp add: poly_eval_def poly_sub(2) [OF assms] left_diff_distrib sum_subtractf)
qed

lemma ntt_sub:
  assumes "check_log2n L" "is_poly L a" "is_poly L c"
  shows "poly_add_to (poly_neg (ntt L a)) (ntt L c) = ntt L (poly_add_to (poly_neg a) c)"
proof (rule is_poly_eqI)
  have P: "is_poly L (ntt L a)" "is_poly L (ntt L c)" using transforms_poly [OF assms(1)] assms by blast+
  show "is_poly L (poly_add_to (poly_neg (ntt L a)) (ntt L c))" by (rule poly_sub(1) [OF P])
  show "is_poly L (ntt L (poly_add_to (poly_neg a) c))"
    using transforms_poly [OF assms(1) poly_sub(1) [OF assms(2,3)]] by simp
  fix j :: nat assume j: "j < 2 ^ L"
  have "coeff (ntt L c) j - coeff (ntt L a) j = coeff (ntt L (poly_add_to (poly_neg a) c)) j"
    using assms j poly_sub(1) [OF assms(2,3)]
    by (auto simp: check_log2n_cases n512.ntt_eval n1024.ntt_eval poly_eval_sub)
  then show "coeff (poly_add_to (poly_neg (ntt L a)) (ntt L c)) j = coeff (ntt L (poly_add_to (poly_neg a) c)) j"
    by (simp add: poly_sub(2) [OF P j])
qed

lemma negacyclic_make:
  assumes "length h = N" "k < N"
  shows "negacyclic N s (map ff_make h) k = negacyclic N s h k"
  unfolding negacyclic_def
proof (rule sum.cong)
  fix i assume "i \<in> {..<N}"
  then have "k - i < N" "\<not> i \<le> k \<Longrightarrow> N + k - i < N" using assms(2) by auto
  then show "coeff s i * (if i \<le> k then coeff (map ff_make h) (k - i) else - coeff (map ff_make h) (N + k - i))
      = coeff s i * (if i \<le> k then coeff h (k - i) else - coeff h (N + k - i))"
    using assms(1) by (simp add: coeff_def zq_make)
qed simp

lemma verify_residual:
  assumes "check_log2n L" "is_poly L c" "is_poly L s" "length h = 2 ^ L" "list_all (\<lambda>v. unat v < 2 ^ 14) h"
  defines "s1 \<equiv> intt L (poly_add_to (poly_neg (poly_mul (ntt L s) (ntt L h))) (ntt L c))"
  shows "is_poly L s1" and "k < 2 ^ L \<Longrightarrow> coeff s1 k = coeff c k - negacyclic (2 ^ L) s h k"
proof -
  let ?h = "map ff_make h" and ?m = "poly_mul (ntt L s) (ntt L (map ff_make h))"
  have h: "is_poly L ?h" using assms(4) by (simp add: is_poly_def list_all_length canonical_ff_make)
  have M: "is_poly L ?m" using transforms_poly [OF assms(1,3)] transforms_poly [OF assms(1) h] by (intro n512.poly_mul_poly) simp_all
  then have P: "is_poly L (intt L ?m)" using transforms_poly [OF assms(1)] by blast
  have "s1 = intt L (poly_add_to (poly_neg (ntt L (intt L ?m))) (ntt L c))"
    unfolding s1_def poly_mul_ntt_residue [OF assms(1,4,5,3)] using transforms_inverse [OF assms(1) M] by simp
  also have "\<dots> = poly_add_to (poly_neg (intt L ?m)) c"
    unfolding ntt_sub [OF assms(1) P assms(2)] using transforms_inverse [OF assms(1) poly_sub(1) [OF P assms(2)]] by simp
  finally have eq: "s1 = poly_add_to (poly_neg (intt L ?m)) c" .
  show "is_poly L s1" unfolding eq by (rule poly_sub(1) [OF P assms(2)])
  assume k: "k < 2 ^ L"
  have "coeff (intt L ?m) k = negacyclic (2 ^ L) s ?h k" by (rule transforms_convolution [OF assms(1,3) h k])
  then show "coeff s1 k = coeff c k - negacyclic (2 ^ L) s h k"
    unfolding eq using poly_sub(2) [OF P assms(2) k] negacyclic_make [OF assms(4) k] by simp
qed

section \<open>Centred residues and the norm\<close>

text \<open>The representative of a residue between -6145 and 6143.\<close>

definition centered :: "zq \<Rightarrow> int" where
  "centered x = the (find (\<lambda>i. of_int i = x) [-6145..6143])"

lemma centered_inj:
  assumes "-6145 \<le> i" "i \<le> 6143" "-6145 \<le> j" "j \<le> 6143" "(of_int i :: zq) = of_int j"
  shows "i = j"
proof -
  obtain m n where mn: "i = int m - 6145" "j = int n - 6145" "m < 12289" "n < 12289"
    using that [of "nat (i + 6145)" "nat (j + 6145)"] assms(1-4) by simp
  have "(of_nat m :: zq) - 6145 = of_nat n - 6145" using assms(5) unfolding mn(1,2) by simp
  then have "(of_nat m :: zq) = of_nat n" by simp
  then show ?thesis using of_nat_zq_inj mn by blast
qed

lemma find_unique: "\<lbrakk>i \<in> set xs; P i; \<And>j. \<lbrakk>j \<in> set xs; P j\<rbrakk> \<Longrightarrow> j = i\<rbrakk> \<Longrightarrow> find P xs = Some i"
proof (induction xs)
  case (Cons x xs)
  show ?case
  proof (cases "P x")
    case True
    then show ?thesis using Cons.prems(3) [of x] by simp
  next
    case False
    then show ?thesis using Cons by (metis find.simps(2) list.set_intros(2) set_ConsD)
  qed
qed simp

lemma centered_eq:
  assumes "-6145 \<le> i" "i \<le> 6143" "of_int i = x"
  shows "centered x = i"
proof -
  have "find (\<lambda>i. of_int i = x) [-6145..6143] = Some i"
    using assms by (intro find_unique) (simp_all only: set_upto atLeastAtMost_iff simp_thms, blast intro: centered_inj)
  then show ?thesis by (simp only: centered_def option.sel)
qed

lemma normalize_s1_centered:
  assumes "canonical v"
  shows "normalize_s1 v = centered (zq_of v)"
proof -
  have u: "unat v < 12289" using assms by (simp only: canonical_unat)
  have flg: "v \<ge> ff_Q div 2 \<longleftrightarrow> 6144 \<le> unat v" by (simp add: ff_Q_eq word_le_nat_alt unat_div)
  have z: "(of_int (int (unat v)) :: zq) = zq_of v" by (simp only: of_int_of_nat_eq zq_of_def)
  show ?thesis
  proof (cases "6144 \<le> unat v")
    case True
    then have "normalize_s1 v = int (unat v) - 12289" by (simp add: normalize_s1_def flg) (simp add: ff_Q_eq)
    moreover have "centered (zq_of v) = int (unat v) - 12289"
    proof (rule centered_eq)
      have "(of_int (int (unat v) - 12289) :: zq) = of_int (int (unat v)) - 12289" by (simp only: of_int_diff of_int_numeral)
      then show "of_int (int (unat v) - 12289) = zq_of v" by (simp only: z zq_modulus diff_zero)
    qed (use True u in linarith)+
    ultimately show ?thesis by simp
  next
    case False
    then have "normalize_s1 v = int (unat v)" by (simp add: normalize_s1_def flg)
    moreover have "centered (zq_of v) = int (unat v)" by (rule centered_eq [OF _ _ z]) (use False in linarith)+
    ultimately show ?thesis by simp
  qed
qed

lemma norm_loop_append: "norm_loop (xs @ ys) a = Option.bind (norm_loop xs a) (norm_loop ys)"
  by (induction xs arbitrary: a) simp_all

lemma sum_squares_nonneg: "0 \<le> (\<Sum>x\<leftarrow>xs. x * x :: int)"
  by (induction xs) simp_all

lemma norm_loop_sum:
  "\<lbrakk>0 \<le> a; a < 2 ^ 31\<rbrakk> \<Longrightarrow> norm_loop xs a =
     (if a + (\<Sum>x\<leftarrow>xs. x * x) < 2 ^ 31 then Some (a + (\<Sum>x\<leftarrow>xs. x * x)) else None)"
proof (induction xs arbitrary: a)
  case (Cons x xs)
  have "0 \<le> x * x" by simp
  then show ?case using Cons.prems Cons.IH [of "a + x * x"] sum_squares_nonneg [of xs] by (auto simp: add.assoc)
qed simp

section \<open>Decoded signatures\<close>

lemma decompress_loop_length:
  "decompress_loop bytes slen n i acc = (failed, j, out) \<Longrightarrow> length out \<le> length acc + n"
proof (induction n arbitrary: i acc)
  case (Suc n)
  show ?case using Suc.prems by (auto simp: Let_def split: if_splits dest!: Suc.IH)
qed simp

lemma decode_sig_poly:
  assumes "decode_sig beyond N sig = Some (salt, s2)"
  shows "length s2 = N" "list_all (\<lambda>c. \<bar>c\<bar> < 1024) s2"
proof -
  from assms obtain slen where d: "decompress_sig beyond N slen sig = (True, s2)"
    by (auto simp: decode_sig_def Let_def split: if_splits prod.splits)
  show "list_all (\<lambda>c. \<bar>c\<bar> < 1024) s2" by (rule decompress_sig_bound [OF d])
  from d obtain failed j where "decompress_loop (sig_byte beyond sig) (8 * slen) N 328 [] = (failed, j, s2)" "\<not> length s2 < N"
    by (auto simp: decompress_sig_def Let_def split: prod.splits if_splits)
  then show "length s2 = N" using decompress_loop_length by fastforce
qed

lemma hash_to_point_poly:
  assumes "hash_to_point N salt msg = Some c" "N = 2 ^ L"
  shows "is_poly L c"
  using assms by (auto simp: hash_to_point_iff is_poly_def list_all_length canonical_ff_make)

definition signature_norm :: "nat \<Rightarrow> poly \<Rightarrow> int list \<Rightarrow> poly \<Rightarrow> int" where
  "signature_norm N c s2 h = (\<Sum>x\<leftarrow>s2. x * x)
     + (\<Sum>x\<leftarrow>map (\<lambda>k. centered (coeff c k - negacyclic N (map to_field s2) h k)) [0..<N]. x * x)"

lemma verification_verify_eq:
  assumes "N = 512 \<or> N = 1024" "length h = N" "list_all (\<lambda>v. unat v < 2 ^ 14) h"
  shows "verification_verify beyond N beta2 h msg sig =
    (case decode_sig beyond N sig of
       None \<Rightarrow> Some (Verdict False)
     | Some (salt, s2) \<Rightarrow>
         map_option (\<lambda>c. let norm = signature_norm N c s2 h in if norm < 2 ^ 31 then Verdict (norm \<le> beta2) else Signed_overflow)
           (hash_to_point N salt msg))"
proof (cases "decode_sig beyond N sig")
  case (Some r)
  then obtain salt s2 where r: "decode_sig beyond N sig = Some (salt, s2)" by (cases r) simp
  define L where "L = log2 N"
  have L: "check_log2n L" "N = 2 ^ L" using assms(1) by (auto simp: L_def key_sizes check_log2n_cases)
  note s2 = decode_sig_poly [OF r]
  have s: "is_poly L (map to_field s2)" using s2 L(2) by (intro is_poly_to_field) (auto simp: list_all_iff)
  show ?thesis
  proof (cases "hash_to_point N salt msg")
    case (Some c)
    note R = verify_residual [OF L(1) hash_to_point_poly [OF Some L(2)] s assms(2) [unfolded L(2)] assms(3)]
    let ?s1 = "intt L (poly_add_to (poly_neg (poly_mul (ntt L (map to_field s2)) (ntt L h))) (ntt L c))"
    have "map normalize_s1 ?s1 = map (\<lambda>k. centered (coeff c k - negacyclic N (map to_field s2) h k)) [0..<N]"
      using R by (intro nth_equalityI) (simp_all add: L(2) is_poly_def list_all_length normalize_s1_centered coeff_def)
    then have "Option.bind (norm_loop s2 0) (norm_loop (map normalize_s1 ?s1))
        = (if signature_norm N c s2 h < 2 ^ 31 then Some (signature_norm N c s2 h) else None)"
      by (simp only: norm_loop_append [symmetric]) (simp add: norm_loop_sum signature_norm_def)
    then show ?thesis using r Some by (simp add: verification_verify_def L_def [symmetric] Let_def)
  qed (simp add: verification_verify_def r)
qed (simp add: verification_verify_def)

section \<open>Signatures that the signer encodes\<close>

lemma compress_sig_prefix:
  assumes "compress_sig N slen s2 sig = Some (True, out)" "41 \<le> length sig" "41 \<le> length sig'"
  shows "compress_sig N slen s2 sig' = Some (True, take 41 sig' @ drop 41 out)"
  using assms by (auto simp: compress_sig_def Let_def split: bind_splits)

lemma sign_finish_layout:
  assumes "41 \<le> length out" "length salt = 40"
  shows "copy_at 1 salt (out[0 := b]) = b # salt @ drop 41 out"
  using assms by (cases out) (simp_all add: copy_at_def)

lemma decode_sign_finish:
  assumes "falcon_sizes_ok N slen" "length s2 = N" "list_all (\<lambda>c. \<bar>c\<bar> < 1024) s2" "length salt = 40" "length sig = slen"
    and "sign_finish N slen salt s2 sig = Some (Some out)"
  shows "decode_sig beyond N out = Some (salt, s2)"
proof -
  let ?b = "0x30 OR of_nat (log2 N) :: byte"
  from assms(6) obtain out0 where c: "compress_sig N slen s2 sig = Some (True, out0)" "out = copy_at 1 salt (out0[0 := ?b])"
    by (auto simp: sign_finish_def Let_def split: if_splits)
  have slen: "41 < slen" using falcon_buffer [OF assms(1)] by simp
  from c(1) have out0: "41 \<le> length out0" using assms(5) slen
    by (auto simp: compress_sig_def Let_def split: bind_splits)
  have out: "out = ?b # salt @ drop 41 out0" unfolding c(2) by (rule sign_finish_layout [OF out0 assms(4)])
  let ?sig = "?b # salt @ drop 41 sig"
  have "compress_sig N slen s2 ?sig = Some (True, take 41 ?sig @ drop 41 out0)"
    using assms(4,5) slen by (intro compress_sig_prefix [OF c(1)]) simp_all
  moreover have "take 41 ?sig @ drop 41 out0 = out" using assms(4) by (simp add: out)
  ultimately have "decompress_sig beyond N slen out = (True, s2)"
    using assms slen by (intro decompress_compressed [of N slen s2 ?sig]) simp_all
  moreover have "[666, 1280] ! of_bool (N = 1024) = slen" using assms(1) by (auto simp: falcon_sizes_ok_def)
  ultimately show ?thesis using assms(4) by (simp add: decode_sig_def Let_def out)
qed

section \<open>Properties\<close>

text \<open>
  C14: Hashing to a point returns exactly when the output stream of the hash of salt and message contains enough 16-bit
  samples below 61445, and its result is the first \<open>n\<close> of them modulo 12289, in order.
\<close>

theorem hash_to_point_samples:
  "hash_to_point n salt msg = Some p \<longleftrightarrow>
     (\<exists>m. n \<le> length (accepted (hash_state salt msg) m) \<and> p = map ff_make (take n (accepted (hash_state salt msg) m)))"
  by (rule hash_to_point_iff)

text \<open>
  C3: Verification on bytes implements the specification: a key or signature that does not decode is refused; otherwise
  the squared norm of \<open>s2\<close> and of the centred residues of \<open>c - s2 h\<close> modulo \<open>X ^ N + 1\<close> is compared with the
  bound, where the product is the schoolbook product and the key may have coefficients that are not reduced.  The sum
  is undefined when it reaches \<open>2 ^ 31\<close>, and there is no verdict when the hash does not return.
\<close>

theorem falcon_verify_spec:
  assumes "N = 512 \<or> N = 1024" "length pkey = compute_pkey_len N"
  shows "falcon_verify beyond N pkey msg sig =
    (case (decode_pkey N pkey, decode_sig beyond N sig) of
       ((True, h), Some (salt, s2)) \<Rightarrow>
         map_option (\<lambda>c. let norm = signature_norm N c s2 h
             in if norm < 2 ^ 31 then Verdict (norm \<le> falcon_beta2 N) else Signed_overflow) (hash_to_point N salt msg)
     | _ \<Rightarrow> Some (Verdict False))"
proof (cases "decode_pkey N pkey")
  case (Pair decoded h)
  show ?thesis
  proof (cases decoded)
    case True
    with Pair pkey_codec [OF assms(1), of pkey h] assms(2) have "length h = N" "list_all (\<lambda>c. unat c < 2 ^ 14) h" by simp_all
    from verification_verify_eq [OF assms(1) this] show ?thesis
      using True Pair by (simp add: falcon_verify_def split: option.splits)
  qed (simp add: falcon_verify_def Pair)
qed

lemma falcon_verify_spec_witness:
  "length (encode_pkey 512 (replicate 512 1)) = compute_pkey_len 512
   \<and> falcon_verify (\<lambda>_. 0) 512 (encode_pkey 512 (replicate 512 1)) [] (replicate 666 0) = Some (Verdict False)"
proof -
  have "list_all (\<lambda>c. unat c < 2 ^ 14) (replicate 512 (1 :: ff_t))" by (simp add: list_all_length)
  then have k: "length (encode_pkey 512 (replicate 512 1)) = compute_pkey_len 512"
    using pkey_codec [of 512 "encode_pkey 512 (replicate 512 1)" "replicate 512 1"] by simp
  have "decode_sig (\<lambda>_. 0) 512 (replicate 666 0) = None" by (simp add: decode_sig_def key_sizes)
  then show ?thesis using falcon_verify_spec [OF _ k, of "\<lambda>_. 0" "[]" "replicate 666 0"] k
    by (simp split: prod.splits bool.splits)
qed

text \<open>
  C12: What the last step of signing writes is accepted by verification with any encoded public key exactly under the norm
  condition: the header, the salt and the compressed polynomial with coefficients below 1024 come back unchanged.
\<close>

theorem sign_then_verify:
  assumes "falcon_sizes_ok N slen" "length s2 = N" "list_all (\<lambda>c. \<bar>c\<bar> < 1024) s2" "length salt = 40" "length sig = slen"
    and "sign_finish N slen salt s2 sig = Some (Some out)"
    and "length h = N" "list_all (\<lambda>c. unat c < 2 ^ 14) h"
  shows "falcon_verify beyond N (encode_pkey N h) msg out =
    map_option (\<lambda>c. let norm = signature_norm N c s2 h
      in if norm < 2 ^ 31 then Verdict (norm \<le> falcon_beta2 N) else Signed_overflow) (hash_to_point N salt msg)"
proof -
  have N: "N = 512 \<or> N = 1024" using assms(1) by (auto simp: falcon_sizes_ok_def)
  have "decode_pkey N (encode_pkey N h) = (True, h)" using pkey_codec [OF N, of "encode_pkey N h" h] assms(7,8) by simp
  then show ?thesis using decode_sign_finish [OF assms(1-6)]
    by (simp add: falcon_verify_def verification_verify_eq [OF N assms(7,8)])
qed

lemma sign_then_verify_witness:
  "\<exists>out. sign_finish 512 666 (replicate 40 7) (replicate 512 (- 5)) (replicate 666 0) = Some (Some out)
     \<and> falcon_verify (\<lambda>_. 0) 512 (encode_pkey 512 (replicate 512 1)) [1, 2, 3] out =
       map_option (\<lambda>c. let norm = signature_norm 512 c (replicate 512 (- 5)) (replicate 512 1)
         in if norm < 2 ^ 31 then Verdict (norm \<le> falcon_beta2 512) else Signed_overflow)
         (hash_to_point 512 (replicate 40 7) [1, 2, 3])"
proof -
  have o: "falcon_sizes_ok 512 666" by (simp add: falcon_sizes_ok_def)
  have "compressed_bits (replicate 512 (- 5)) = 4608" by (simp add: compressed_bits_def sum_list_replicate)
  moreover have "8 * max_sbytelen 512 = 7168" by (simp add: max_sbytelen_def key_sizes)
  ultimately obtain out where "compress_sig 512 666 (replicate 512 (- 5)) (replicate 666 0) = Some (True, out)"
    using compress_sig_cases(2) [OF o, of "replicate 512 (- 5)" "replicate 666 0"] by auto
  then have c: "sign_finish 512 666 (replicate 40 7) (replicate 512 (- 5)) (replicate 666 0)
      = Some (Some (copy_at 1 (replicate 40 7) (out[0 := 0x30 OR of_nat (log2 512)])))" by (simp add: sign_finish_def)
  show ?thesis by (rule exI, rule conjI, rule c, rule sign_then_verify [OF o _ _ _ _ c]) (simp_all add: list_all_length)
qed

end
