(* ===== verification/Lock_Free_Queue.thy ===== *)
theory Lock_Free_Queue
  imports QPrelude
begin

text \<open>
  The lock-free queue (\<^verbatim>\<open>src/include/utils/LockFreeQueue.hpp\<close>) at the granularity of its atomic operations.  A thread is a
  program counter with its local variables; one step is one load, store, exchange, allocation or deletion of the code.
  Threads interleave in any order.  The heap maps the addresses of live nodes to nodes, an allocation may return any
  free address, and reading or deleting a node that has been deleted is a fault.  The flag \<open>spurious\<close> of a step says
  whether a \<^verbatim>\<open>compare_exchange_weak\<close> fails without reason.
\<close>

section \<open>State\<close>

text \<open>The contents of a node's \<^verbatim>\<open>unique_ptr\<close>: null in the first dummy, a value, or an object that has been moved from.\<close>

datatype 'a cell = Null | Full 'a | Moved

record 'a node =
  node_data :: "'a cell"
  node_next :: "nat option"

record 'a lfq =
  nodes :: "nat \<rightharpoonup> 'a node"
  head_ptr :: nat
  tail_ptr :: nat
  size_ctr :: u64

definition lfq_new :: "'a lfq" where
  "lfq_new = \<lparr>nodes = [0 \<mapsto> \<lparr>node_data = Null, node_next = None\<rparr>], head_ptr = 0, tail_ptr = 0, size_ctr = 0\<rparr>"

datatype 'a lfq_op = Push 'a | Pop

datatype 'a pc =
    Idle
  | Push_alloc 'a | Push_tail nat | Push_next nat nat | Push_check nat nat "nat option"
  | Push_link nat nat | Push_help nat nat nat | Push_swing nat nat | Push_count
  | Pop_head | Pop_tail nat | Pop_next nat nat | Pop_check nat nat "nat option"
  | Pop_help nat nat | Pop_move nat nat | Pop_cas nat nat "'a cell" | Pop_count nat "'a cell" | Pop_free nat "'a cell"

text \<open>
  What a step means to a caller: the call of an operation, the return of \<^verbatim>\<open>push\<close>, the return of \<^verbatim>\<open>pop\<close> with
  its result; and where the operation takes effect in between, with the cell it puts or takes.
\<close>

datatype 'a event = Tau | Called "'a lfq_op" | Enq "'a cell" | Push_returned | Deq "'a cell" | Saw_empty
  | Returned "'a cell option"

datatype lfq_fault = Use_after_free | Null_data

section \<open>Operations\<close>

definition cas_tail :: "nat \<Rightarrow> nat \<Rightarrow> 'a lfq \<Rightarrow> 'a lfq" where
  "cas_tail expected new q = (if tail_ptr q = expected then q\<lparr>tail_ptr := new\<rparr> else q)"

fun push_step :: "bool \<Rightarrow> nat \<Rightarrow> 'a lfq \<Rightarrow> 'a pc \<Rightarrow> lfq_fault + ('a lfq \<times> 'a pc \<times> 'a event)" where
  "push_step spurious a q (Push_alloc item) =
     Inr (q\<lparr>nodes := (nodes q)(a \<mapsto> \<lparr>node_data = Full item, node_next = None\<rparr>)\<rparr>, Push_tail a, Tau)"
| "push_step spurious a q (Push_tail n) = Inr (q, Push_next n (tail_ptr q), Tau)"
| "push_step spurious a q (Push_next n t) =
     (case nodes q t of None \<Rightarrow> Inl Use_after_free | Some nd \<Rightarrow> Inr (q, Push_check n t (node_next nd), Tau))"
| "push_step spurious a q (Push_check n t nx) =
     Inr (q, if t = tail_ptr q then (case nx of None \<Rightarrow> Push_link n t | Some m \<Rightarrow> Push_help n t m) else Push_tail n, Tau)"
| "push_step spurious a q (Push_link n t) =
     (case nodes q t of
        None \<Rightarrow> Inl Use_after_free
      | Some nd \<Rightarrow>
          if node_next nd = None \<and> \<not> spurious
          then Inr (q\<lparr>nodes := (nodes q)(t \<mapsto> nd\<lparr>node_next := Some n\<rparr>)\<rparr>, Push_swing n t,
                    Enq (case nodes q n of None \<Rightarrow> Null | Some new \<Rightarrow> node_data new))
          else Inr (q, Push_tail n, Tau))"
| "push_step spurious a q (Push_help n t m) = Inr (cas_tail t m q, Push_tail n, Tau)"
| "push_step spurious a q (Push_swing n t) = Inr (cas_tail t n q, Push_count, Tau)"
| "push_step spurious a q Push_count = Inr (q\<lparr>size_ctr := size_ctr q + 1\<rparr>, Idle, Push_returned)"
| "push_step spurious a q p = Inr (q, p, Tau)"

fun pop_step :: "bool \<Rightarrow> 'a lfq \<Rightarrow> 'a pc \<Rightarrow> lfq_fault + ('a lfq \<times> 'a pc \<times> 'a event)" where
  "pop_step spurious q Pop_head = Inr (q, Pop_tail (head_ptr q), Tau)"
| "pop_step spurious q (Pop_tail h) = Inr (q, Pop_next h (tail_ptr q), Tau)"
| "pop_step spurious q (Pop_next h t) =
     (case nodes q h of
        None \<Rightarrow> Inl Use_after_free
      | Some nd \<Rightarrow> Inr (q, Pop_check h t (node_next nd), if h = t \<and> node_next nd = None then Saw_empty else Tau))"
| "pop_step spurious q (Pop_check h t nx) =
     Inr (if h = head_ptr q then
            if h = t then (case nx of None \<Rightarrow> (q, Idle, Returned None) | Some m \<Rightarrow> (q, Pop_help t m, Tau))
            else (case nx of None \<Rightarrow> (q, Pop_head, Tau) | Some m \<Rightarrow> (q, Pop_move h m, Tau))
          else (q, Pop_head, Tau))"
| "pop_step spurious q (Pop_help t m) = Inr (cas_tail t m q, Pop_head, Tau)"
| "pop_step spurious q (Pop_move h n) =
     (case nodes q n of
        None \<Rightarrow> Inl Use_after_free
      | Some nd \<Rightarrow>
          if node_data nd = Null then Inl Null_data
          else Inr (q\<lparr>nodes := (nodes q)(n \<mapsto> nd\<lparr>node_data := Moved\<rparr>)\<rparr>, Pop_cas h n (node_data nd), Tau))"
| "pop_step spurious q (Pop_cas h n r) =
     (if head_ptr q = h \<and> \<not> spurious then Inr (q\<lparr>head_ptr := n\<rparr>, Pop_count h r, Deq r) else Inr (q, Pop_head, Tau))"
| "pop_step spurious q (Pop_count h r) = Inr (q\<lparr>size_ctr := size_ctr q - 1\<rparr>, Pop_free h r, Tau)"
| "pop_step spurious q (Pop_free h r) =
     (case nodes q h of
        None \<Rightarrow> Inl Use_after_free
      | Some nd \<Rightarrow> Inr (q\<lparr>nodes := (nodes q)(h := None)\<rparr>, Idle, Returned (Some r)))"
| "pop_step spurious q p = Inr (q, p, Tau)"

fun is_pop :: "'a pc \<Rightarrow> bool" where
  "is_pop Pop_head = True" | "is_pop (Pop_tail h) = True" | "is_pop (Pop_next h t) = True"
| "is_pop (Pop_check h t nx) = True" | "is_pop (Pop_help t m) = True" | "is_pop (Pop_move h n) = True"
| "is_pop (Pop_cas h n r) = True" | "is_pop (Pop_count h r) = True" | "is_pop (Pop_free h r) = True"
| "is_pop p = False"

definition lfq_step :: "bool \<Rightarrow> nat \<Rightarrow> 'a lfq \<Rightarrow> 'a pc \<Rightarrow> lfq_fault + ('a lfq \<times> 'a pc \<times> 'a event)" where
  "lfq_step spurious a q p = (if is_pop p then pop_step spurious q p else push_step spurious a q p)"

definition lfq_size :: "'a lfq \<Rightarrow> u64" where "lfq_size q = size_ctr q"

definition lfq_empty :: "'a lfq \<Rightarrow> bool" where "lfq_empty q = (size_ctr q = 0)"

text \<open>Moving a queue that no thread uses: the new queue and what is left of the old one.\<close>

definition lfq_move :: "'a lfq \<Rightarrow> 'a lfq \<times> 'a lfq" where
  "lfq_move other = (if head_ptr other \<noteq> tail_ptr other then (other, lfq_new) else (lfq_new, other))"

definition lfq_assign :: "bool \<Rightarrow> 'a lfq \<Rightarrow> 'a lfq \<Rightarrow> 'a lfq \<times> 'a lfq" where
  "lfq_assign same this other = (if \<not> same then lfq_move other else (this, other))"

section \<open>Threads\<close>

record 'a sys =
  queue :: "'a lfq"
  threads :: "nat \<Rightarrow> 'a pc"
  trace :: "(nat \<times> 'a event) list"
  fault :: "lfq_fault option"

definition sys_init :: "'a sys" where
  "sys_init = \<lparr>queue = lfq_new, threads = (\<lambda>_. Idle), trace = [], fault = None\<rparr>"

definition sys_start :: "nat \<Rightarrow> 'a lfq_op \<Rightarrow> 'a sys \<Rightarrow> 'a sys" where
  "sys_start i opr s = s\<lparr>threads := (threads s)(i := case opr of Push x \<Rightarrow> Push_alloc x | Pop \<Rightarrow> Pop_head),
     trace := trace s @ [(i, Called opr)]\<rparr>"

definition sys_step :: "nat \<Rightarrow> bool \<Rightarrow> nat \<Rightarrow> 'a sys \<Rightarrow> 'a sys" where
  "sys_step i spurious a s =
     (case lfq_step spurious a (queue s) (threads s i) of
        Inl e \<Rightarrow> s\<lparr>fault := Some e\<rparr>
      | Inr (q, p, ev) \<Rightarrow> s\<lparr>queue := q, threads := (threads s)(i := p), trace := trace s @ [(i, ev)]\<rparr>)"

text \<open>
  The states that threads can reach: \<open>allowed\<close> says which thread may call which operation, \<open>weak\<close> which threads can
  see a spurious failure.
\<close>

inductive lfq_reach :: "(nat \<Rightarrow> 'a lfq_op \<Rightarrow> bool) \<Rightarrow> (nat \<Rightarrow> bool) \<Rightarrow> 'a sys \<Rightarrow> bool" for allowed weak where
  init: "lfq_reach allowed weak sys_init"
| start: "\<lbrakk>lfq_reach allowed weak s; threads s i = Idle; allowed i opr\<rbrakk> \<Longrightarrow> lfq_reach allowed weak (sys_start i opr s)"
| step: "\<lbrakk>lfq_reach allowed weak s; fault s = None; nodes (queue s) a = None; spurious \<longrightarrow> weak i\<rbrakk>
    \<Longrightarrow> lfq_reach allowed weak (sys_step i spurious a s)"

text \<open>One producer, thread 0, and one consumer, thread 1; only the producer's exchanges fail spuriously.\<close>

fun spsc :: "nat \<Rightarrow> 'a lfq_op \<Rightarrow> bool" where
  "spsc i (Push x) = (i = 0)"
| "spsc i Pop = (i = 1)"

section \<open>The abstract queue\<close>

text \<open>
  An atomic queue of values with its clients.  Between its call and its return an operation takes effect exactly
  once: a push appends the value it was called with, a pop removes the front and returns it, or finds the queue empty
  and returns nothing.  Any other event is refused.
\<close>

datatype 'a client = Client_idle | Pushing 'a | Pushed | Popping | Found_empty | Popped 'a

fun fifo_step :: "'a event \<Rightarrow> 'a client \<Rightarrow> 'a list \<Rightarrow> ('a client \<times> 'a list) option" where
  "fifo_step Tau cl vs = Some (cl, vs)"
| "fifo_step (Called (Push x)) Client_idle vs = Some (Pushing x, vs)"
| "fifo_step (Enq d) (Pushing x) vs = (if d = Full x then Some (Pushed, vs @ [x]) else None)"
| "fifo_step Push_returned Pushed vs = Some (Client_idle, vs)"
| "fifo_step (Called Pop) Client_idle vs = Some (Popping, vs)"
| "fifo_step (Deq d) Popping (v # vs) = (if d = Full v then Some (Popped v, vs) else None)"
| "fifo_step (Returned (Some d)) (Popped v) vs = (if d = Full v then Some (Client_idle, vs) else None)"
| "fifo_step Saw_empty Popping [] = Some (Found_empty, [])"
| "fifo_step (Returned None) Found_empty vs = Some (Client_idle, vs)"
| "fifo_step _ cl vs = None"

fun fifo_replay :: "(nat \<times> 'a event) list \<Rightarrow> (nat \<Rightarrow> 'a client) \<times> 'a list \<Rightarrow> ((nat \<Rightarrow> 'a client) \<times> 'a list) option" where
  "fifo_replay [] st = Some st"
| "fifo_replay ((i, ev) # evs) (cls, vs) =
     (case fifo_step ev (cls i) vs of None \<Rightarrow> None | Some (cl, vs') \<Rightarrow> fifo_replay evs (cls(i := cl), vs'))"

definition fifo_init :: "(nat \<Rightarrow> 'a client) \<times> 'a list" where
  "fifo_init = (\<lambda>_. Client_idle, [])"

lemma fifo_replay_snoc:
  assumes "fifo_replay evs st = Some (cls, vs)" "fifo_step ev (cls i) vs = Some (cl, vs')"
  shows "fifo_replay (evs @ [(i, ev)]) st = Some (cls(i := cl), vs')"
  using assms(1)
proof (induction evs st rule: fifo_replay.induct)
  case (2 j e evs cls' vs'')
  then show ?case by (auto split: option.splits)
qed (use assms(2) in simp)

text \<open>The client state that a thread's program counter stands for.\<close>

definition node_client :: "'a node option \<Rightarrow> 'a client" where
  "node_client nd = (case map_option node_data nd of Some (Full x) \<Rightarrow> Pushing x | _ \<Rightarrow> Client_idle)"

lemma node_client_Full [simp]: "node_client (Some \<lparr>node_data = Full x, node_next = m\<rparr>) = Pushing x"
  by (simp add: node_client_def)

fun client_of :: "(nat \<rightharpoonup> 'a node) \<Rightarrow> 'a pc \<Rightarrow> 'a client" where
  "client_of ns Idle = Client_idle"
| "client_of ns (Push_alloc x) = Pushing x"
| "client_of ns (Push_swing n t) = Pushed"
| "client_of ns Push_count = Pushed"
| "client_of ns (Pop_check h t nx) = (if h = t \<and> nx = None then Found_empty else Popping)"
| "client_of ns (Pop_count h r) = (case r of Full v \<Rightarrow> Popped v | _ \<Rightarrow> Client_idle)"
| "client_of ns (Pop_free h r) = (case r of Full v \<Rightarrow> Popped v | _ \<Rightarrow> Client_idle)"
| "client_of ns (Push_tail n) = node_client (ns n)"
| "client_of ns (Push_next n t) = node_client (ns n)"
| "client_of ns (Push_check n t nx) = node_client (ns n)"
| "client_of ns (Push_link n t) = node_client (ns n)"
| "client_of ns (Push_help n t m) = node_client (ns n)"
| "client_of ns p = Popping"

section \<open>Chains of nodes\<close>

definition nxt :: "(nat \<rightharpoonup> 'a node) \<Rightarrow> nat \<Rightarrow> nat option option" where
  "nxt ns a = map_option node_next (ns a)"

definition dat :: "(nat \<rightharpoonup> 'a node) \<Rightarrow> nat \<Rightarrow> 'a cell option" where
  "dat ns a = map_option node_data (ns a)"

fun linked :: "(nat \<rightharpoonup> 'a node) \<Rightarrow> nat list \<Rightarrow> bool" where
  "linked ns [] = False"
| "linked ns [a] = (nxt ns a = Some None)"
| "linked ns (a # b # as) = (nxt ns a = Some (Some b) \<and> linked ns (b # as))"

lemma linked_cong: "(\<And>a. a \<in> set as \<Longrightarrow> nxt ns' a = nxt ns a) \<Longrightarrow> linked ns' as = linked ns as"
  by (induction ns as rule: linked.induct) simp_all

lemma linked_snoc:
  "\<lbrakk>linked ns as; distinct as; n \<notin> set as; nxt ns n = Some None; nxt ns' (last as) = Some (Some n);
    \<And>a. a \<noteq> last as \<Longrightarrow> nxt ns' a = nxt ns a\<rbrakk> \<Longrightarrow> linked ns' (as @ [n])"
proof (induction ns as rule: linked.induct)
  case (3 ns a b as)
  have "a \<noteq> last (b # as)" using 3(3) by (metis distinct.simps(2) last_in_set list.distinct(1))
  then show ?case using 3 by simp
qed simp_all

lemma linked_live: "\<lbrakk>linked ns as; a \<in> set as\<rbrakk> \<Longrightarrow> \<exists>nd. ns a = Some nd"
  by (induction ns as rule: linked.induct) (auto simp: nxt_def)

lemma linked_hd: "linked ns as \<Longrightarrow> nxt ns (hd as) = Some (if tl as = [] then None else Some (hd (tl as)))"
  by (cases "(ns, as)" rule: linked.cases) simp_all

lemma linked_last: "linked ns as \<Longrightarrow> nxt ns (last as) = Some None"
  by (induction ns as rule: linked.induct) simp_all

lemma linked_tl: "\<lbrakk>linked ns as; tl as \<noteq> []\<rbrakk> \<Longrightarrow> linked ns (tl as)"
  by (cases "(ns, as)" rule: linked.cases) simp_all

section \<open>One producer and one consumer\<close>

fun producer_node :: "'a pc \<Rightarrow> nat option" where
  "producer_node (Push_tail n) = Some n"
| "producer_node (Push_next n t) = Some n"
| "producer_node (Push_check n t nx) = Some n"
| "producer_node (Push_link n t) = Some n"
| "producer_node p = None"

fun consumer_node :: "'a pc \<Rightarrow> nat option" where
  "consumer_node (Pop_count h r) = Some h"
| "consumer_node (Pop_free h r) = Some h"
| "consumer_node p = None"

fun producer_ok :: "nat \<Rightarrow> nat list \<Rightarrow> 'a pc \<Rightarrow> bool" where
  "producer_ok tail as (Push_next n t) = (tail = last as \<and> t = tail)"
| "producer_ok tail as (Push_check n t nx) = (tail = last as \<and> t = tail \<and> nx = None)"
| "producer_ok tail as (Push_link n t) = (tail = last as \<and> t = tail)"
| "producer_ok tail as (Push_swing n t) = (n = last as \<and> n \<noteq> t \<and> (tail = n \<or> tail = t \<and> (\<exists>bs. as = bs @ [t, n])))"
| "producer_ok tail as (Push_help n t m) = False"
| "producer_ok tail as p = (tail = last as \<and> \<not> is_pop p)"

fun consumer_ok :: "nat \<Rightarrow> nat list \<Rightarrow> 'a pc \<Rightarrow> bool" where
  "consumer_ok tail as Idle = True"
| "consumer_ok tail as Pop_head = True"
| "consumer_ok tail as (Pop_tail h) = (h = hd as)"
| "consumer_ok tail as (Pop_next h t) = (h = hd as \<and> t \<in> set as \<and> (t \<noteq> h \<longrightarrow> tail \<noteq> h))"
| "consumer_ok tail as (Pop_check h t nx) = (h = hd as \<and> (t = h \<or> tail \<noteq> h \<and> nx \<noteq> None) \<and> (\<forall>n. nx = Some n \<longrightarrow> (\<exists>bs. as = h # n # bs)))"
| "consumer_ok tail as (Pop_help t m) = (\<exists>bs. as = t # m # bs)"
| "consumer_ok tail as (Pop_move h n) = (tail \<noteq> h \<and> (\<exists>bs. as = h # n # bs))"
| "consumer_ok tail as (Pop_cas h n r) = (tail \<noteq> h \<and> (\<exists>bs. as = h # n # bs))"
| "consumer_ok tail as (Pop_count h r) = (h \<notin> set as \<and> (\<exists>v. r = Full v))"
| "consumer_ok tail as (Pop_free h r) = (h \<notin> set as \<and> (\<exists>v. r = Full v))"
| "consumer_ok tail as p = False"

text \<open>The cells of the queue: the first one is moved out while the consumer holds its value.\<close>

fun held :: "'a pc \<Rightarrow> 'a list \<Rightarrow> 'a cell list option" where
  "held (Pop_cas h n r) vs = (case vs of [] \<Rightarrow> None | v # vs \<Rightarrow> if r = Full v then Some (Moved # map Full vs) else None)"
| "held p vs = Some (map Full vs)"

fun pending_push :: "'a pc \<Rightarrow> u64" where
  "pending_push (Push_swing n t) = 1"
| "pending_push Push_count = 1"
| "pending_push p = 0"

fun pending_pop :: "'a pc \<Rightarrow> u64" where
  "pending_pop (Pop_count h r) = 1"
| "pending_pop p = 0"

definition spsc_ok :: "'a lfq \<Rightarrow> 'a pc \<Rightarrow> 'a pc \<Rightarrow> nat list \<Rightarrow> 'a list \<Rightarrow> bool" where
  "spsc_ok q p c as vs \<longleftrightarrow>
     distinct as \<and> linked (nodes q) as \<and> head_ptr q = hd as \<and> tail_ptr q \<in> set as
     \<and> map_option (map Some) (held c vs) = Some (map (dat (nodes q)) (tl as))
     \<and> producer_ok (tail_ptr q) as p \<and> consumer_ok (tail_ptr q) as c
     \<and> (\<forall>n. producer_node p = Some n \<longrightarrow> n \<notin> set as \<and> consumer_node c \<noteq> Some n
          \<and> (\<exists>x. nodes q n = Some \<lparr>node_data = Full x, node_next = None\<rparr>))
     \<and> (\<forall>h. consumer_node c = Some h \<longrightarrow> nodes q h \<noteq> None)
     \<and> size_ctr q = of_nat (length vs) - pending_push p + pending_pop c"

lemma nxt_upd [simp]: "nxt (ns(a := v)) b = (if b = a then map_option node_next v else nxt ns b)"
  by (simp add: nxt_def)

lemma dat_upd [simp]: "dat (ns(a := v)) b = (if b = a then map_option node_data v else dat ns b)"
  by (simp add: dat_def)

lemma chain_outside:
  assumes "a \<notin> set as"
  shows "linked (ns(a := v)) as = linked ns as" "map (dat (ns(a := v))) (tl as) = map (dat ns) (tl as)"
proof -
  have "b \<noteq> a" if "b \<in> set as \<or> b \<in> set (tl as)" for b using assms that by (metis list.set_sel(2) tl_Nil)
  then show "linked (ns(a := v)) as = linked ns as" "map (dat (ns(a := v))) (tl as) = map (dat ns) (tl as)"
    by (auto intro!: linked_cong)
qed

lemma linked_nonempty: "linked ns as \<Longrightarrow> as \<noteq> []"
  by auto

lemma held_snoc: "held c vs = Some cs \<Longrightarrow> held c (vs @ [x]) = Some (cs @ [Full x])"
  by (cases "(c, vs)" rule: held.cases) (auto split: list.splits if_splits)

lemma consumer_ok_snoc:
  "\<lbrakk>consumer_ok tail as c; as \<noteq> []; consumer_node c \<noteq> Some n\<rbrakk> \<Longrightarrow> consumer_ok tail (as @ [n]) c"
  by (cases "(tail, as, c)" rule: consumer_ok.cases) (auto, (metis append_Cons)+)

lemma client_of_producer:
  "producer_node p = Some n \<Longrightarrow> ns n = Some \<lparr>node_data = Full x, node_next = m\<rparr> \<Longrightarrow> client_of ns p = Pushing x"
  by (cases p) simp_all

lemma client_of_consumer: "consumer_ok tail as c \<Longrightarrow> client_of ns' c = client_of ns c"
  by (cases c) simp_all

lemma client_of_cong: "(\<And>n. producer_node p = Some n \<Longrightarrow> ns' n = ns n) \<Longrightarrow> producer_ok tail as p \<Longrightarrow> client_of ns' p = client_of ns p"
  by (cases p) simp_all

definition producer_sim ::
  "lfq_fault + ('a lfq \<times> 'a pc \<times> 'a event) \<Rightarrow> 'a client \<Rightarrow> 'a pc \<Rightarrow> nat list \<Rightarrow> 'a list \<Rightarrow> 'a list \<Rightarrow> bool" where
  "producer_sim r cl c as vs vs' \<longleftrightarrow>
     (case r of Inl e \<Rightarrow> False
      | Inr (q', p', ev) \<Rightarrow> spsc_ok q' p' c as vs' \<and> fifo_step ev cl vs = Some (client_of (nodes q') p', vs'))"

lemma producer_link:
  assumes ok: "spsc_ok q (Push_link n t) c as vs"
  shows "\<exists>as' vs'. producer_sim (push_step False a q (Push_link n t)) (client_of (nodes q) (Push_link n t)) c as' vs vs'"
proof -
  from ok obtain x where n: "n \<notin> set as" "consumer_node c \<noteq> Some n" "nodes q n = Some \<lparr>node_data = Full x, node_next = None\<rparr>"
    by (auto simp: spsc_ok_def)
  have L: "linked (nodes q) as" "distinct as" "as \<noteq> []" "t = last as" "tail_ptr q = t"
    using ok by (auto simp: spsc_ok_def)
  obtain nd where nd: "nodes q t = Some nd" "node_next nd = None"
    using linked_last [OF L(1)] L(4) by (auto simp: nxt_def)
  have tn: "t \<in> set as" "t \<noteq> n" using L n(1) by auto
  let ?ns = "(nodes q)(t \<mapsto> nd\<lparr>node_next := Some n\<rparr>)"
  have linked: "linked ?ns (as @ [n])"
    using L n tn by (intro linked_snoc [OF L(1)]) (auto simp: nxt_def)
  have "dat ?ns = dat (nodes q)" using nd by (auto simp: dat_def)
  moreover obtain cs where cs: "held c vs = Some cs" "map Some cs = map (dat (nodes q)) (tl as)"
    using ok by (auto simp: spsc_ok_def)
  moreover have "dat (nodes q) n = Some (Full x)" using n by (simp add: dat_def)
  ultimately have data: "map_option (map Some) (held c (vs @ [x])) = Some (map (dat ?ns) (tl (as @ [n])))"
    using held_snoc [OF cs(1), of x] L(3) by (simp del: dat_upd)
  have "as @ [n] = butlast as @ [t, n]" using L by simp
  then have p_ok: "producer_ok t (as @ [n]) (Push_swing n t)" using tn by auto
  have c_ok: "consumer_ok t (as @ [n]) c" using ok n(2) L by (intro consumer_ok_snoc) (auto simp: spsc_ok_def)
  have "spsc_ok (q\<lparr>nodes := ?ns\<rparr>) (Push_swing n t) c (as @ [n]) (vs @ [x])"
    using ok L n(1) linked data p_ok c_ok unfolding spsc_ok_def by auto
  then show ?thesis using nd n(3) by (intro exI [of _ "as @ [n]"] exI [of _ "vs @ [x]"]) (simp add: producer_sim_def)
qed

lemma consumer_ok_tail: "\<lbrakk>consumer_ok tail as c; n \<noteq> hd as\<rbrakk> \<Longrightarrow> consumer_ok n as c"
  by (cases "(tail, as, c)" rule: consumer_ok.cases) auto

lemma producer_swing:
  assumes ok: "spsc_ok q (Push_swing n t) c as vs"
  shows "producer_sim (push_step sp a q (Push_swing n t)) Pushed c as vs vs"
proof (cases "tail_ptr q = t")
  case True
  with ok obtain bs where bs: "as = bs @ [t, n]" by (auto simp: spsc_ok_def)
  have "n \<noteq> hd as" using ok bs by (cases bs) (auto simp: spsc_ok_def)
  then have "consumer_ok n as c" using ok consumer_ok_tail by (auto simp: spsc_ok_def)
  then show ?thesis using ok True bs by (auto simp: producer_sim_def cas_tail_def spsc_ok_def)
next
  case False
  then show ?thesis using ok by (auto simp: producer_sim_def cas_tail_def spsc_ok_def)
qed

definition alloc_ok :: "'a lfq \<Rightarrow> 'a pc \<Rightarrow> nat \<Rightarrow> bool" where
  "alloc_ok q p a \<longleftrightarrow> (\<forall>x. p = Push_alloc x \<longrightarrow> nodes q a = None)"

lemma producer_step:
  assumes ok: "spsc_ok q p c as vs" and a: "alloc_ok q p a"
  shows "\<exists>as' vs'. producer_sim (lfq_step sp a q p) (client_of (nodes q) p) c as' vs vs'"
proof -
  have L: "linked (nodes q) as" "tail_ptr q \<in> set as" using ok by (auto simp: spsc_ok_def)
  have stay: "\<exists>as' vs'. producer_sim r (client_of (nodes q) p) c as' vs vs'" if "producer_sim r (client_of (nodes q) p) c as vs vs" for r using that by blast
  have np: "\<not> is_pop p" using ok by (cases p) (auto simp: spsc_ok_def)
  show ?thesis
  proof (cases p)
    case (Push_alloc x)
    have "a \<notin> set as" using linked_live [OF L(1), of a] a Push_alloc by (auto simp: alloc_ok_def)
    then show ?thesis using ok a [unfolded alloc_ok_def] Push_alloc np chain_outside [of a as "nodes q"]
      by (intro stay) (auto simp: lfq_step_def producer_sim_def spsc_ok_def)
  next
    case (Push_next n t)
    with ok have "nxt (nodes q) t = Some None" using linked_last by (auto simp: spsc_ok_def)
    then show ?thesis using ok Push_next np
      by (intro stay) (auto simp: lfq_step_def producer_sim_def spsc_ok_def nxt_def)
  next
    case (Push_link n t)
    show ?thesis
    proof (cases sp)
      case True
      with ok have "nxt (nodes q) t = Some None" using Push_link linked_last by (auto simp: spsc_ok_def)
      then show ?thesis using ok Push_link True
        by (intro stay) (auto simp: lfq_step_def producer_sim_def spsc_ok_def nxt_def)
    next
      case False
      then show ?thesis using producer_link [of q n t c as vs a] ok Push_link by (simp add: lfq_step_def)
    qed
  next
    case (Push_swing n t)
    then show ?thesis using producer_swing [of q n t c as vs sp a] ok by (intro stay) (simp add: lfq_step_def)
  qed (rule stay, use ok np in \<open>(auto simp: lfq_step_def producer_sim_def spsc_ok_def)[1]\<close>)+
qed

definition consumer_sim ::
  "lfq_fault + ('a lfq \<times> 'a pc \<times> 'a event) \<Rightarrow> 'a lfq \<Rightarrow> 'a client \<Rightarrow> 'a pc \<Rightarrow> nat list \<Rightarrow> 'a list \<Rightarrow> 'a list \<Rightarrow> bool" where
  "consumer_sim r q cl p as vs vs' \<longleftrightarrow>
     (case r of Inl e \<Rightarrow> False
      | Inr (q', c', ev) \<Rightarrow> spsc_ok q' p c' as vs' \<and> fifo_step ev cl vs = Some (client_of (nodes q') c', vs')
          \<and> (\<forall>n. producer_node p = Some n \<longrightarrow> nodes q' n = nodes q n))"

lemma consumer_next:
  assumes ok: "spsc_ok q p (Pop_next h t) as vs"
  shows "consumer_sim (pop_step sp q (Pop_next h t)) q Popping p as vs vs"
proof -
  have L: "linked (nodes q) as" "distinct as" "h = hd as" "t \<in> set as" "t \<noteq> h \<Longrightarrow> tail_ptr q \<noteq> h"
    "map Some (map Full vs) = map (dat (nodes q)) (tl as)"
    using ok by (auto simp: spsc_ok_def)
  obtain nd where nd: "nodes q h = Some nd" "node_next nd = (if tl as = [] then None else Some (hd (tl as)))"
    using linked_hd [OF L(1)] L(3) by (auto simp: nxt_def)
  have "as = h # tl as" using L(1,3) by (cases as) auto
  moreover have "t = h" if "tl as = []" using that L(3,4) calculation by (metis empty_iff list.set(1) set_ConsD)
  moreover have "vs = []" if "tl as = []" using that L(6) by simp
  ultimately show ?thesis using ok nd L
    by (cases "tl as") (auto simp: consumer_sim_def spsc_ok_def)
qed

lemma consumer_help:
  assumes ok: "spsc_ok q p (Pop_help t m) as vs"
  shows "consumer_sim (pop_step sp q (Pop_help t m)) q Popping p as vs vs"
proof (cases "tail_ptr q = t")
  case True
  from ok obtain bs where bs: "as = t # m # bs" by (auto simp: spsc_ok_def)
  have ne: "t \<noteq> last as" using ok bs by (auto simp: spsc_ok_def)
  with ok True bs obtain n ds where p: "p = Push_swing n t" "as = ds @ [t, n]"
    by (cases p) (auto simp: spsc_ok_def)
  have "ds = []" using p(2) bs ok by (cases ds) (auto simp: spsc_ok_def)
  then have "m = n" "as = [t, n]" using p(2) bs by auto
  then show ?thesis using ok True p(1) by (auto simp: consumer_sim_def cas_tail_def spsc_ok_def)
next
  case False
  then show ?thesis using ok by (auto simp: consumer_sim_def cas_tail_def spsc_ok_def)
qed

lemma consumer_move:
  assumes ok: "spsc_ok q p (Pop_move h n) as vs"
  shows "consumer_sim (pop_step sp q (Pop_move h n)) q Popping p as vs vs"
proof -
  from ok obtain bs where bs: "as = h # n # bs" "n \<notin> set (h # bs)" "linked (nodes q) as" by (auto simp: spsc_ok_def)
  have d: "map Some (map Full vs) = map (dat (nodes q)) (n # bs)" using ok bs(1) by (simp add: spsc_ok_def)
  then obtain v ws where vs: "vs = v # ws" "dat (nodes q) n = Some (Full v)" "map Some (map Full ws) = map (dat (nodes q)) bs"
    by (cases vs) auto
  then obtain nd where nd: "nodes q n = Some nd" "node_data nd = Full v" by (auto simp: dat_def)
  let ?ns = "(nodes q)(n \<mapsto> nd\<lparr>node_data := Moved\<rparr>)"
  have "nxt ?ns = nxt (nodes q)" using nd by (auto simp: nxt_def)
  then have "linked ?ns as" using bs(3) linked_cong [of as ?ns "nodes q"] by simp
  moreover have "map (dat ?ns) bs = map (dat (nodes q)) bs" using bs(2) by auto
  ultimately have "spsc_ok (q\<lparr>nodes := ?ns\<rparr>) p (Pop_cas h n (Full v)) as vs"
    using ok bs vs unfolding spsc_ok_def by auto
  moreover have "producer_node p \<noteq> Some n" using ok bs(1) by (auto simp: spsc_ok_def)
  ultimately show ?thesis using nd by (simp add: consumer_sim_def)
qed

lemma producer_ok_tl:
  assumes "producer_ok tail (h # n # bs) p" "tail \<noteq> h"
  shows "producer_ok tail (n # bs) p"
proof (cases p)
  case (Push_swing m t)
  then have m: "m = last (n # bs)" "m \<noteq> t" "tail = m \<or> tail = t \<and> (\<exists>ds. h # n # bs = ds @ [t, m])" using assms(1) by auto
  have "\<exists>ds. n # bs = ds @ [t, m]" if "tail = t" "h # n # bs = ds @ [t, m]" for ds
    using that assms(2) by (cases ds) auto
  then show ?thesis using m Push_swing by auto
qed (use assms in auto)

lemma consumer_cas:
  assumes ok: "spsc_ok q p (Pop_cas h n r) as vs"
  shows "\<exists>as' vs'. consumer_sim (pop_step False q (Pop_cas h n r)) q Popping p as' vs vs'"
proof -
  from ok obtain bs where bs: "as = h # n # bs" "h \<notin> set (n # bs)" "linked (nodes q) as" "tail_ptr q \<noteq> h" "head_ptr q = h"
    by (auto simp: spsc_ok_def)
  have d: "map_option (map Some) (held (Pop_cas h n r) vs) = Some (map (dat (nodes q)) (n # bs))"
    using ok unfolding spsc_ok_def bs(1) by (simp only: list.sel)
  then obtain v ws where vs: "vs = v # ws" "r = Full v" "map Some (map Full ws) = map (dat (nodes q)) bs"
    by (cases vs) (simp_all split: if_splits)
  note O = ok [unfolded spsc_ok_def bs(1)]
  have chain: "linked (nodes q) (n # bs)" "distinct (n # bs)" "tail_ptr q \<in> set (n # bs)" using O bs(4) by simp_all
  have p_ok: "producer_ok (tail_ptr q) (n # bs) p" by (rule producer_ok_tl [of _ h]) (use O bs(4) in simp_all)
  have live: "nodes q h \<noteq> None" using linked_live [OF bs(3), of h] bs(1) by auto
  have own: "m \<notin> set as \<and> (\<exists>x. nodes q m = Some \<lparr>node_data = Full x, node_next = None\<rparr>)" if "producer_node p = Some m" for m
    using ok that by (simp add: spsc_ok_def)
  have len: "size_ctr q = of_nat (length ws) + 1 - pending_push p" using ok vs(1) by (simp add: spsc_ok_def)
  have "spsc_ok (q\<lparr>head_ptr := n\<rparr>) p (Pop_count h r) (n # bs) ws"
    unfolding spsc_ok_def using chain p_ok bs(2) vs(2,3) live own len bs(1) by auto
  then show ?thesis using bs(5) vs(1,2)
    by (intro exI [of _ "n # bs"] exI [of _ ws]) (simp add: consumer_sim_def)
qed

lemma consumer_step:
  assumes ok: "spsc_ok q p c as vs"
  shows "\<exists>as' vs'. consumer_sim (lfq_step False a q c) q (client_of (nodes q) c) p as' vs vs'"
proof -
  have L: "linked (nodes q) as" "distinct as" using ok by (auto simp: spsc_ok_def)
  have stay: "\<exists>as' vs'. consumer_sim r q (client_of (nodes q) c) p as' vs vs'" if "consumer_sim r q (client_of (nodes q) c) p as vs vs" for r using that by blast
  show ?thesis
  proof (cases c)
    case (Pop_next h t)
    then show ?thesis using consumer_next [of q p h t as vs False] ok by (intro stay) (simp add: lfq_step_def)
  next
    case (Pop_help t m)
    then show ?thesis using consumer_help [of q p t m as vs False] ok by (intro stay) (simp add: lfq_step_def)
  next
    case (Pop_move h n)
    then show ?thesis using consumer_move [of q p h n as vs False] ok by (intro stay) (simp add: lfq_step_def)
  next
    case (Pop_cas h n r)
    then show ?thesis using consumer_cas [of q p h n r as vs] ok by (simp add: lfq_step_def)
  next
    case (Pop_free h r)
    with ok have h: "h \<notin> set as" "producer_node p \<noteq> Some h" "nodes q h \<noteq> None" by (auto simp: spsc_ok_def)
    then show ?thesis using ok Pop_free chain_outside [OF h(1), of "nodes q" None]
      by (intro stay) (auto simp: lfq_step_def consumer_sim_def spsc_ok_def)
  next
    case (Pop_check h t nx)
    then show ?thesis using ok by (intro stay) (auto simp: lfq_step_def consumer_sim_def spsc_ok_def split: option.splits)
  qed (rule stay, use ok L in \<open>(auto simp: lfq_step_def consumer_sim_def spsc_ok_def)[1]\<close>)+
qed

lemma producer_simE:
  assumes "producer_sim r cl c as vs vs'"
  obtains q' p' ev where "r = Inr (q', p', ev)" "spsc_ok q' p' c as vs'" "fifo_step ev cl vs = Some (client_of (nodes q') p', vs')"
  using assms by (cases r) (auto simp: producer_sim_def)

lemma consumer_simE:
  assumes "consumer_sim r q cl p as vs vs'"
  obtains q' c' ev where "r = Inr (q', c', ev)" "spsc_ok q' p c' as vs'" "fifo_step ev cl vs = Some (client_of (nodes q') c', vs')"
    "client_of (nodes q') p = client_of (nodes q) p"
proof (cases r)
  case (Inr x)
  obtain q' c' ev where x: "x = (q', c', ev)" by (cases x)
  have s: "spsc_ok q' p c' as vs'" "\<And>n. producer_node p = Some n \<Longrightarrow> nodes q' n = nodes q n"
    "fifo_step ev cl vs = Some (client_of (nodes q') c', vs')"
    using assms by (auto simp: Inr x consumer_sim_def)
  then show thesis using that Inr x client_of_cong [of p "nodes q'" "nodes q"] by (auto simp: spsc_ok_def)
qed (use assms in \<open>simp add: consumer_sim_def\<close>)

section \<open>Runs\<close>

definition clients :: "'a sys \<Rightarrow> nat \<Rightarrow> 'a client" where
  "clients s = (\<lambda>i. client_of (nodes (queue s)) (threads s i))"

definition spsc_inv :: "'a sys \<Rightarrow> nat list \<Rightarrow> 'a list \<Rightarrow> bool" where
  "spsc_inv s as vs \<longleftrightarrow> fault s = None \<and> spsc_ok (queue s) (threads s 0) (threads s 1) as vs
     \<and> fifo_replay (trace s) fifo_init = Some (clients s, vs) \<and> (\<forall>i>1. threads s i = Idle)"

lemma spsc_inv_init: "spsc_inv sys_init [0] []"
  by (simp add: spsc_inv_def sys_init_def spsc_ok_def lfq_new_def nxt_def fifo_init_def clients_def)

lemma spsc_inv_start:
  assumes "spsc_inv s as vs" "threads s i = Idle" "spsc i opr"
  shows "spsc_inv (sys_start i opr s) as vs"
proof -
  let ?p = "case opr of Push x \<Rightarrow> Push_alloc x | Pop \<Rightarrow> Pop_head"
  have "fifo_step (Called opr) (clients s i) vs = Some (client_of (nodes (queue s)) ?p, vs)"
    using assms(2) by (cases opr) (simp_all add: clients_def)
  with assms(1) have "fifo_replay (trace s @ [(i, Called opr)]) fifo_init
      = Some ((clients s)(i := client_of (nodes (queue s)) ?p), vs)"
    by (intro fifo_replay_snoc) (auto simp: spsc_inv_def)
  moreover have "(clients s)(i := client_of (nodes (queue s)) ?p) = clients (sys_start i opr s)"
    by (auto simp: clients_def sys_start_def)
  ultimately show ?thesis
    using assms by (cases opr) (auto simp: spsc_inv_def sys_start_def spsc_ok_def)
qed

text \<open>A step of one of the two threads, given that the other thread's client is not affected.\<close>

lemma spsc_inv_thread:
  assumes I: "spsc_inv s as vs" and r: "lfq_step sp a (queue s) (threads s i) = Inr (q', p', ev)" and i: "i < 2"
    and ok: "spsc_ok q' (if i = 0 then p' else threads s 0) (if i = 1 then p' else threads s 1) as' vs'"
    and f: "fifo_step ev (client_of (nodes (queue s)) (threads s i)) vs = Some (client_of (nodes q') p', vs')"
    and other: "client_of (nodes q') (threads s (1 - i)) = client_of (nodes (queue s)) (threads s (1 - i))"
  shows "spsc_inv (sys_step i sp a s) as' vs'"
proof -
  have "fifo_replay (trace s @ [(i, ev)]) fifo_init = Some ((clients s)(i := client_of (nodes q') p'), vs')"
    using I f by (intro fifo_replay_snoc) (auto simp: spsc_inv_def clients_def)
  moreover have "(clients s)(i := client_of (nodes q') p') = clients (sys_step i sp a s)"
  proof
    fix j
    consider "j = i" | "j = 1 - i" "j \<noteq> i" | "1 < j" using i by linarith
    then show "((clients s)(i := client_of (nodes q') p')) j = clients (sys_step i sp a s) j"
      using I r i other by cases (auto simp: clients_def sys_step_def spsc_inv_def)
  qed
  ultimately show ?thesis
    using I r i ok by (auto simp: spsc_inv_def sys_step_def less_2_cases_iff)
qed

lemma spsc_inv_step:
  assumes I: "spsc_inv s as vs" and "alloc_ok (queue s) (threads s 0) a" "spurious \<longrightarrow> i = 0"
  shows "\<exists>as' vs'. spsc_inv (sys_step i spurious a s) as' vs'"
proof -
  have ok: "spsc_ok (queue s) (threads s 0) (threads s 1) as vs" using I by (simp add: spsc_inv_def)
  consider "i = 0" | "i = 1" | "1 < i" by linarith
  then show ?thesis
  proof cases
    case 1
    from producer_step [OF ok assms(2), where sp = spurious] obtain as' vs' q' p' ev where
      r: "lfq_step spurious a (queue s) (threads s 0) = Inr (q', p', ev)" "spsc_ok q' p' (threads s 1) as' vs'"
      "fifo_step ev (client_of (nodes (queue s)) (threads s 0)) vs = Some (client_of (nodes q') p', vs')"
      by (blast elim: producer_simE)
    have "client_of (nodes q') (threads s 1) = client_of (nodes (queue s)) (threads s 1)"
      using ok client_of_consumer by (auto simp: spsc_ok_def)
    with spsc_inv_thread [OF I, of spurious a 0 q' p' ev as' vs'] r show ?thesis unfolding 1 by auto
  next
    case 2
    then have sp: "spurious = False" using assms(3) by simp
    from consumer_step [OF ok, of a] obtain as' vs' q' c' ev where
      "lfq_step False a (queue s) (threads s 1) = Inr (q', c', ev)" "spsc_ok q' (threads s 0) c' as' vs'"
      "fifo_step ev (client_of (nodes (queue s)) (threads s 1)) vs = Some (client_of (nodes q') c', vs')"
      "client_of (nodes q') (threads s 0) = client_of (nodes (queue s)) (threads s 0)"
      by (blast elim: consumer_simE)
    with spsc_inv_thread [OF I, of False a 1 q' c' ev as' vs'] show ?thesis unfolding 2 sp by auto
  next
    case 3
    then have s: "sys_step i spurious a s = s\<lparr>trace := trace s @ [(i, Tau)]\<rparr>"
      using I by (simp add: spsc_inv_def sys_step_def lfq_step_def fun_upd_idem)
    have "fifo_replay (trace s @ [(i, Tau)]) fifo_init = Some ((clients s)(i := clients s i), vs)"
      using I by (intro fifo_replay_snoc) (auto simp: spsc_inv_def)
    moreover have "clients (s\<lparr>trace := trace s @ [(i, Tau)]\<rparr>) = clients s" by (simp add: clients_def)
    ultimately show ?thesis using I unfolding s
      by (intro exI [of _ as] exI [of _ vs]) (simp add: spsc_inv_def)
  qed
qed

lemma spsc_reach_inv:
  assumes "lfq_reach spsc (\<lambda>i. i = 0) s"
  shows "\<exists>as vs. spsc_inv s as vs"
  using assms
proof induction
  case init
  show ?case using spsc_inv_init by blast
next
  case (start s i opr)
  then show ?case using spsc_inv_start by blast
next
  case (step s a spurious i)
  then have "alloc_ok (queue s) (threads s 0) a" by (simp add: alloc_ok_def)
  with step show ?case using spsc_inv_step by blast
qed

lemma spsc_inv_idle:
  assumes "spsc_inv s as vs"
  shows "clients s i = Client_idle \<longleftrightarrow> threads s i = Idle"
proof -
  have ok: "spsc_ok (queue s) (threads s 0) (threads s 1) as vs" using assms by (simp add: spsc_inv_def)
  consider "i = 0" | "i = 1" | "1 < i" by linarith
  then show ?thesis
  proof cases
    case 1
    show ?thesis
    proof (cases "producer_node (threads s 0)")
      case None
      then show ?thesis using ok unfolding 1 by (cases "threads s 0") (auto simp: clients_def spsc_ok_def)
    next
      case (Some n)
      with ok obtain x where "nodes (queue s) n = Some \<lparr>node_data = Full x, node_next = None\<rparr>" by (auto simp: spsc_ok_def)
      with client_of_producer [OF Some] Some show ?thesis unfolding 1 by (auto simp: clients_def)
    qed
  next
    case 2
    then show ?thesis using ok by (cases "threads s 1") (auto simp: clients_def spsc_ok_def)
  qed (use assms in \<open>simp add: spsc_inv_def clients_def\<close>)
qed

section \<open>Progress\<close>

text \<open>How many steps a thread needs at most to return when it runs alone.\<close>

fun solo_bound :: "'a lfq \<Rightarrow> 'a pc \<Rightarrow> nat" where
  "solo_bound q Idle = 0"
| "solo_bound q (Push_alloc x) = 7"
| "solo_bound q (Push_tail n) = 6"
| "solo_bound q (Push_next n t) = 5"
| "solo_bound q (Push_check n t nx) = 4"
| "solo_bound q (Push_link n t) = 3"
| "solo_bound q (Push_help n t m) = 7"
| "solo_bound q (Push_swing n t) = 2"
| "solo_bound q Push_count = 1"
| "solo_bound q Pop_head = (if tail_ptr q = head_ptr q then 13 else 8)"
| "solo_bound q (Pop_tail h) = (if tail_ptr q = h then 12 else 7)"
| "solo_bound q (Pop_next h t) = (if t = h then 11 else 6)"
| "solo_bound q (Pop_check h t nx) = (if t = h then 10 else 5)"
| "solo_bound q (Pop_help t m) = 9"
| "solo_bound q (Pop_move h n) = 4"
| "solo_bound q (Pop_cas h n r) = 3"
| "solo_bound q (Pop_count h r) = 2"
| "solo_bound q (Pop_free h r) = 1"

lemma solo_bound_le: "solo_bound q p \<le> 13"
  by (cases p) simp_all

lemma producer_progress:
  assumes "spsc_ok q p c as vs" "lfq_step False a q p = Inr (q', p', ev)" "p \<noteq> Idle"
  shows "solo_bound q' p' < solo_bound q p"
  using assms linked_last [of "nodes q" as]
  by (cases p) (auto simp: lfq_step_def spsc_ok_def nxt_def split: option.splits if_splits)

lemma consumer_progress:
  assumes "spsc_ok q p c as vs" "lfq_step False a q c = Inr (q', c', ev)" "c \<noteq> Idle"
  shows "solo_bound q' c' < solo_bound q c"
  using assms
  by (cases c) (auto simp: lfq_step_def spsc_ok_def cas_tail_def split: option.splits if_splits)

lemma thread_progress:
  assumes I: "spsc_inv s as vs" and i: "i < 2" "threads s i \<noteq> Idle"
    and a: "alloc_ok (queue s) (threads s 0) a"
  shows "solo_bound (queue (sys_step i False a s)) (threads (sys_step i False a s) i) < solo_bound (queue s) (threads s i)"
proof -
  have ok: "spsc_ok (queue s) (threads s 0) (threads s 1) as vs" using I by (simp add: spsc_inv_def)
  consider "i = 0" | "i = 1" using i by linarith
  then show ?thesis
  proof cases
    case 1
    from producer_step [OF ok a, where sp = False] obtain q' p' ev where r: "lfq_step False a (queue s) (threads s 0) = Inr (q', p', ev)"
      by (blast elim: producer_simE)
    then show ?thesis using producer_progress [OF ok r] i 1 by (simp add: sys_step_def)
  next
    case 2
    from consumer_step [OF ok, of a] obtain q' p' ev where r: "lfq_step False a (queue s) (threads s 1) = Inr (q', p', ev)"
      by (blast elim: consumer_simE)
    then show ?thesis using consumer_progress [OF ok r] i 2 by (simp add: sys_step_def)
  qed
qed

lemma pop_keeps_free: "\<lbrakk>pop_step sp q c = Inr (q', c', ev); nodes q a = None\<rbrakk> \<Longrightarrow> nodes q' a = None"
  by (cases c) (auto simp: cas_tail_def split: option.splits if_splits)

lemma push_not_alloc: "push_step sp a q p \<noteq> Inr (q', Push_alloc x, ev)"
  by (cases p) (auto split: option.splits if_splits)

lemma alloc_free_kept:
  assumes I: "spsc_inv s as vs" and i: "i < 2"
    and a: "alloc_ok (queue s) (threads s 0) a"
  shows "alloc_ok (queue (sys_step i False a s)) (threads (sys_step i False a s) 0) a"
  unfolding alloc_ok_def
proof (intro allI impI)
  fix x assume x: "threads (sys_step i False a s) 0 = Push_alloc x"
  have ok: "spsc_ok (queue s) (threads s 0) (threads s 1) as vs" using I by (simp add: spsc_inv_def)
  have np: "\<not> is_pop (threads s 0)" using ok by (cases "threads s 0") (auto simp: spsc_ok_def)
  consider "i = 0" | "i = 1" using i by linarith
  then show "nodes (queue (sys_step i False a s)) a = None"
  proof cases
    case 1
    from producer_step [OF ok a, where sp = False] obtain q' p' ev where r: "lfq_step False a (queue s) (threads s 0) = Inr (q', p', ev)"
      by (blast elim: producer_simE)
    then show ?thesis using x 1 np push_not_alloc [of False a "queue s" "threads s 0" q' x ev] by (auto simp: sys_step_def lfq_step_def)
  next
    case 2
    from consumer_step [OF ok, of a] obtain q' p' ev where r: "lfq_step False a (queue s) (threads s 1) = Inr (q', p', ev)"
      by (blast elim: consumer_simE)
    have free: "nodes (queue s) a = None" using x 2 r a by (simp add: sys_step_def alloc_ok_def)
    have "nodes q' a = None"
    proof (cases "is_pop (threads s 1)")
      case True
      then show ?thesis using r free pop_keeps_free by (fastforce simp: lfq_step_def)
    next
      case False
      then have "threads s 1 = Idle" using ok by (cases "threads s 1") (auto simp: spsc_ok_def)
      then show ?thesis using r free by (simp add: lfq_step_def)
    qed
    then show ?thesis using r 2 by (simp add: sys_step_def)
  qed
qed

lemma solo_returns:
  assumes "spsc_inv s as vs" "i < 2" "alloc_ok (queue s) (threads s 0) a"
  shows "\<exists>n. n \<le> solo_bound (queue s) (threads s i) \<and> threads ((sys_step i False a ^^ n) s) i = Idle
    \<and> fault ((sys_step i False a ^^ n) s) = None"
  using assms
proof (induction "solo_bound (queue s) (threads s i)" arbitrary: s as vs rule: less_induct)
  case less
  show ?case
  proof (cases "threads s i = Idle")
    case True
    then show ?thesis using less.prems(1) by (intro exI [of _ 0]) (simp add: spsc_inv_def)
  next
    case False
    let ?s = "sys_step i False a s"
    have lt: "solo_bound (queue ?s) (threads ?s i) < solo_bound (queue s) (threads s i)"
      using thread_progress [OF less.prems(1,2) False less.prems(3)] .
    obtain as' vs' where "spsc_inv ?s as' vs'" using spsc_inv_step [OF less.prems(1,3), of False i] by blast
    from less.hyps [OF lt this less.prems(2) alloc_free_kept [OF less.prems]]
    obtain n where "n \<le> solo_bound (queue ?s) (threads ?s i)" "threads ((sys_step i False a ^^ n) ?s) i = Idle"
      "fault ((sys_step i False a ^^ n) ?s) = None" by blast
    then show ?thesis using lt by (intro exI [of _ "Suc n"]) (simp add: funpow_swap1 [symmetric] funpow_Suc_right del: funpow.simps)
  qed
qed

section \<open>Schedules\<close>

datatype 'a action = Start nat "'a lfq_op" | Step nat bool nat

fun lfq_exec :: "(nat \<Rightarrow> 'a lfq_op \<Rightarrow> bool) \<Rightarrow> (nat \<Rightarrow> bool) \<Rightarrow> 'a action list \<Rightarrow> 'a sys \<Rightarrow> 'a sys option" where
  "lfq_exec allowed weak [] s = Some s"
| "lfq_exec allowed weak (Start i opr # acts) s =
     (if threads s i = Idle \<and> allowed i opr then lfq_exec allowed weak acts (sys_start i opr s) else None)"
| "lfq_exec allowed weak (Step i spurious a # acts) s =
     (if fault s = None \<and> nodes (queue s) a = None \<and> (spurious \<longrightarrow> weak i)
      then lfq_exec allowed weak acts (sys_step i spurious a s) else None)"

lemma lfq_exec_reach: "\<lbrakk>lfq_exec allowed weak acts s = Some s'; lfq_reach allowed weak s\<rbrakk> \<Longrightarrow> lfq_reach allowed weak s'"
  by (induction allowed weak acts s rule: lfq_exec.induct) (auto split: if_splits intro: lfq_reach.intros)

definition run_steps :: "nat \<Rightarrow> nat \<Rightarrow> 'a action list" where
  "run_steps i n = replicate n (Step i False 9)"

definition push_all :: "'a \<Rightarrow> 'a action list" where
  "push_all x = [Start 0 (Push x), Step 0 False 1] @ run_steps 0 6"

text \<open>Two threads that pop.\<close>

fun two_consumers :: "nat \<Rightarrow> 'a lfq_op \<Rightarrow> bool" where
  "two_consumers i (Push x) = (i = 0)"
| "two_consumers i Pop = (i = 1 \<or> i = 2)"

definition race_schedule :: "nat action list" where
  "race_schedule = push_all 5 @ [Start 1 Pop] @ run_steps 1 4 @ [Start 2 Pop] @ run_steps 2 4 @ run_steps 1 1 @ run_steps 2 4"

definition free_schedule :: "nat action list" where
  "free_schedule = push_all 5 @ [Start 1 Pop] @ run_steps 1 2 @ [Start 2 Pop] @ run_steps 2 8 @ run_steps 1 1"

definition retry_schedule :: "nat action list" where
  "retry_schedule = push_all 5 @ [Start 1 Pop] @ run_steps 1 5 @ [Step 1 True 9] @ run_steps 1 8"

definition wrap_schedule :: "nat action list" where
  "wrap_schedule = [Start 0 (Push 5), Step 0 False 1] @ run_steps 0 4 @ [Start 1 Pop] @ run_steps 1 12"

lemma schedule_outcomes:
  "map_option (\<lambda>s. (2, Returned (Some Moved)) \<in> set (trace s) \<and> fault s = None) (lfq_exec two_consumers (\<lambda>_. False) race_schedule sys_init) = Some True"
  "map_option fault (lfq_exec two_consumers (\<lambda>_. False) free_schedule sys_init) = Some (Some Use_after_free)"
  "map_option (\<lambda>s. (1, Returned (Some Moved)) \<in> set (trace s) \<and> fault s = None) (lfq_exec spsc (\<lambda>_. True) retry_schedule sys_init) = Some True"
  "map_option (\<lambda>s. size_ctr (queue s)) (lfq_exec spsc (\<lambda>i. i = 0) wrap_schedule sys_init) = Some (2 ^ 64 - 1)"
  by code_simp+

lemma schedule_reach:
  "lfq_exec allowed weak acts sys_init = Some s \<Longrightarrow> lfq_reach allowed weak s"
  by (rule lfq_exec_reach [OF _ lfq_reach.init])

section \<open>Properties\<close>

text \<open>
  C4: One producer and one consumer, in any interleaving of their atomic steps in which the consumer's weak exchange
  does not fail spuriously (the producer's may), never touch a deleted node, and the queue is linearizable: the calls
  and returns of both threads, with the points where their operations take effect, form a run of an atomic
  first-in first-out queue.  Between its call and its return every push appends exactly its argument once, and
  every pop either removes the front of the queue and returns that value, or finds the queue empty and returns nothing;
  a thread is in a call exactly while its client is.  When both threads are idle the size is the length of the
  queue.
\<close>

theorem spsc_fifo:
  assumes "lfq_reach spsc (\<lambda>i. i = 0) s"
  shows "fault s = None \<and> (\<exists>cls vs. fifo_replay (trace s) fifo_init = Some (cls, vs)
    \<and> (\<forall>i. cls i = Client_idle \<longleftrightarrow> threads s i = Idle)
    \<and> (threads s 0 = Idle \<and> threads s 1 = Idle \<longrightarrow> lfq_size (queue s) = of_nat (length vs)))"
proof -
  obtain as vs where I: "spsc_inv s as vs" using spsc_reach_inv [OF assms] by blast
  then show ?thesis using spsc_inv_idle [OF I]
    by (intro conjI exI [of _ "clients s"] exI [of _ vs]) (auto simp: spsc_inv_def spsc_ok_def lfq_size_def)
qed

lemma spsc_fifo_witness:
  "\<exists>s. lfq_exec spsc (\<lambda>i. i = 0) wrap_schedule sys_init = Some s \<and> fault s = None
     \<and> (\<exists>cls vs. fifo_replay (trace s) fifo_init = Some (cls, vs) \<and> (cls 0 = Client_idle \<longleftrightarrow> threads s 0 = Idle))"
proof -
  obtain s where s: "lfq_exec spsc (\<lambda>i. i = 0) wrap_schedule sys_init = Some s" using schedule_outcomes(4) by auto
  show ?thesis using spsc_fifo [OF schedule_reach [OF s]] s by blast
qed

text \<open>
  C18: Neither operation can be blocked by the other thread: in every state that one producer and one consumer can reach
  without a spurious failure of the consumer's weak exchange (the producer's may fail), a thread that from there on
  runs alone, and sees no spurious failure in that run, returns after at most 13 steps.
\<close>

theorem spsc_solo_progress:
  assumes "lfq_reach spsc (\<lambda>i. i = 0) s" "nodes (queue s) a = None" "i < 2"
  shows "\<exists>n. n \<le> 13 \<and> threads ((sys_step i False a ^^ n) s) i = Idle \<and> fault ((sys_step i False a ^^ n) s) = None"
proof -
  obtain as vs where "spsc_inv s as vs" using spsc_reach_inv [OF assms(1)] by blast
  from solo_returns [OF this assms(3), of a] assms(2) solo_bound_le [of "queue s" "threads s i"]
  show ?thesis by (meson alloc_ok_def le_trans)
qed

lemma spsc_solo_progress_witness:
  "\<exists>n. n \<le> 13 \<and> threads ((sys_step 0 False 7 ^^ n) (sys_start 0 (Push (5 :: nat)) sys_init)) 0 = Idle
     \<and> fault ((sys_step 0 False 7 ^^ n) (sys_start 0 (Push (5 :: nat)) sys_init)) = None"
proof (rule spsc_solo_progress)
  show "lfq_reach spsc (\<lambda>i. i = 0) (sys_start 0 (Push (5 :: nat)) sys_init)"
    by (intro lfq_reach.intros) (simp_all add: sys_init_def)
qed (simp_all add: sys_start_def sys_init_def lfq_new_def)

text \<open>
  C40: What the queue does not promise.  Two consumers can make one of them return an object that has been moved from, so
  that a value is lost, or read a node that the other has deleted; a single consumer loses a value when its weak
  exchange fails spuriously, because the value is moved out before the exchange; and the size wraps to the largest
  64-bit number when an element is removed before its producer has counted it.
\<close>

theorem lock_free_queue_hazards:
  "(\<exists>s :: nat sys. lfq_reach two_consumers (\<lambda>_. False) s \<and> fault s = None \<and> (2, Returned (Some Moved)) \<in> set (trace s))
   \<and> (\<exists>s :: nat sys. lfq_reach two_consumers (\<lambda>_. False) s \<and> fault s = Some Use_after_free)
   \<and> (\<exists>s :: nat sys. lfq_reach spsc (\<lambda>_. True) s \<and> fault s = None \<and> (1, Returned (Some Moved)) \<in> set (trace s))
   \<and> (\<exists>s :: nat sys. lfq_reach spsc (\<lambda>i. i = 0) s \<and> lfq_size (queue s) = 2 ^ 64 - 1)"
proof (intro conjI)
  show "\<exists>s :: nat sys. lfq_reach two_consumers (\<lambda>_. False) s \<and> fault s = None \<and> (2, Returned (Some Moved)) \<in> set (trace s)"
    using schedule_outcomes(1) schedule_reach by blast
  show "\<exists>s :: nat sys. lfq_reach two_consumers (\<lambda>_. False) s \<and> fault s = Some Use_after_free"
    using schedule_outcomes(2) schedule_reach by blast
  show "\<exists>s :: nat sys. lfq_reach spsc (\<lambda>_. True) s \<and> fault s = None \<and> (1, Returned (Some Moved)) \<in> set (trace s)"
    using schedule_outcomes(3) schedule_reach by blast
  show "\<exists>s :: nat sys. lfq_reach spsc (\<lambda>i. i = 0) s \<and> lfq_size (queue s) = 2 ^ 64 - 1"
    unfolding lfq_size_def using schedule_outcomes(4) schedule_reach by blast
qed

end
