(* ===== verification/Network_DHT.thy ===== *)
theory Network_DHT
  imports QPrelude "HOL-Library.Multiset"
begin

text \<open>
  The buckets of the distributed hash table (\<^verbatim>\<open>src/src/network/QDHT.cpp\<close>): adding, removing, refreshing and splitting,
  and the search for the nodes closest to a target.  The quantum state that a node carries is opaque, and the metrics
  and the routing tree, which only hold floating-point figures derived from it, are left out.  Times are numbers of
  nanoseconds.  The distance is a count of bits, which a \<^verbatim>\<open>double\<close> holds exactly.  \<^verbatim>\<open>std::sort\<close> does not fix the order
  of equal elements, so the sorting function is an argument with the contract \<open>sorts_by\<close>.
\<close>

unbundle bit_operations_syntax

section \<open>Nodes and buckets\<close>

definition QDHT_ID_LENGTH :: nat where "QDHT_ID_LENGTH = 256"
definition QDHT_K :: nat where "QDHT_K = 20"

record 'q qnode =
  qn_id :: bytes
  qn_public_key :: bytes
  qn_address :: string
  qn_port :: u16
  qn_last_seen :: int
  qn_is_validator :: bool
  qn_quantum_state :: 'q

record 'q bucket =
  bk_nodes :: "'q qnode list"
  bk_prefix_length :: nat
  bk_prefix :: bytes

definition get_bit :: "bytes \<Rightarrow> nat \<Rightarrow> bool" where
  "get_bit ident index = (drop_bit (index mod 8) (ident ! (index div 8)) AND 1 \<noteq> 0)"

definition bucket_new :: "'q bucket" where
  "bucket_new = \<lparr>bk_nodes = [], bk_prefix_length = 0, bk_prefix = replicate (QDHT_ID_LENGTH div 8) 0\<rparr>"

fun replace_first :: "('a \<Rightarrow> bool) \<Rightarrow> 'a \<Rightarrow> 'a list \<Rightarrow> 'a list" where
  "replace_first P y [] = []"
| "replace_first P y (x # xs) = (if P x then y # xs else x # replace_first P y xs)"

fun erase_first :: "('a \<Rightarrow> bool) \<Rightarrow> 'a list \<Rightarrow> 'a list" where
  "erase_first P [] = []"
| "erase_first P (x # xs) = (if P x then xs else x # erase_first P xs)"

definition bucket_add :: "'q qnode \<Rightarrow> 'q bucket \<Rightarrow> bool \<times> 'q bucket" where
  "bucket_add nd b =
     (let same = (\<lambda>n. qn_id n = qn_id nd)
      in if list_ex same (bk_nodes b) then (True, b\<lparr>bk_nodes := replace_first same nd (bk_nodes b)\<rparr>)
         else if length (bk_nodes b) \<ge> QDHT_K then (False, b)
         else (True, b\<lparr>bk_nodes := bk_nodes b @ [nd]\<rparr>))"

definition bucket_remove :: "'q qnode \<Rightarrow> 'q bucket \<Rightarrow> bool \<times> 'q bucket" where
  "bucket_remove nd b =
     (let same = (\<lambda>n. qn_id n = qn_id nd)
      in if list_ex same (bk_nodes b) then (True, b\<lparr>bk_nodes := erase_first same (bk_nodes b)\<rparr>) else (False, b))"

fun bit_count :: "nat \<Rightarrow> byte \<Rightarrow> nat" where
  "bit_count 0 x = 0"
| "bit_count (Suc n) x = (if x = 0 then 0 else of_bool (x AND 1 \<noteq> 0) + bit_count n (drop_bit 1 x))"

text \<open>The loop over the bits of a byte ends after eight rounds.\<close>

definition calculate_distance :: "bytes \<Rightarrow> bytes \<Rightarrow> nat" where
  "calculate_distance a b = sum_list (map2 (\<lambda>x y. bit_count 8 (x XOR y)) a b)"

definition get_closest_nodes ::
  "(('q qnode \<Rightarrow> nat) \<Rightarrow> 'q qnode list \<Rightarrow> 'q qnode list) \<Rightarrow> 'q qnode \<Rightarrow> nat \<Rightarrow> 'q bucket \<Rightarrow> 'q qnode list" where
  "get_closest_nodes srt target cnt b =
     take cnt (srt (\<lambda>n. calculate_distance (qn_id n) (qn_id target)) (bk_nodes b))"

definition should_split :: "'q bucket \<Rightarrow> bool" where
  "should_split b = (length (bk_nodes b) \<ge> QDHT_K \<and> bk_prefix_length b < QDHT_ID_LENGTH)"

definition split_step :: "nat \<Rightarrow> 'q qnode \<Rightarrow> 'q bucket \<times> 'q bucket \<Rightarrow> 'q bucket \<times> 'q bucket" where
  "split_step pl nd = (\<lambda>(left, right).
     if get_bit (qn_id nd) pl then (left, snd (bucket_add nd right)) else (snd (bucket_add nd left), right))"

text \<open>A prefix of full length leaves no bit to look at: reading one is out of bounds, which is \<^term>\<open>None\<close>.\<close>

definition bucket_split :: "'q bucket \<Rightarrow> ('q bucket \<times> 'q bucket) option" where
  "bucket_split b =
     (let pl = bk_prefix_length b;
          left = bucket_new\<lparr>bk_prefix_length := pl + 1, bk_prefix := bk_prefix b\<rparr>;
          right = bucket_new\<lparr>bk_prefix_length := pl + 1,
            bk_prefix := (if pl < QDHT_ID_LENGTH
                          then (bk_prefix b)[pl div 8 := bk_prefix b ! (pl div 8) OR push_bit (pl mod 8) 1] else bk_prefix b)\<rparr>
      in if pl \<ge> QDHT_ID_LENGTH \<and> bk_nodes b \<noteq> [] then None
         else Some (fold (split_step pl) (bk_nodes b) (left, right)))"

definition bucket_refresh :: "int \<Rightarrow> 'q bucket \<Rightarrow> 'q bucket" where
  "bucket_refresh now b = b\<lparr>bk_nodes := filter (\<lambda>n. \<not> now - qn_last_seen n > 30 * 60 * 1000000000) (bk_nodes b)\<rparr>"

definition verify_prefix_match :: "'q qnode \<Rightarrow> 'q bucket \<Rightarrow> bool" where
  "verify_prefix_match nd b = list_all (\<lambda>i. get_bit (qn_id nd) i = get_bit (bk_prefix b) i) [0..<bk_prefix_length b]"

section \<open>The bucket invariant\<close>

text \<open>At most twenty nodes, with different identifiers of 32 bytes; the prefix has no bits beyond its length.\<close>

definition bucket_inv :: "'q bucket \<Rightarrow> bool" where
  "bucket_inv b \<longleftrightarrow> distinct (map qn_id (bk_nodes b)) \<and> length (bk_nodes b) \<le> 20
     \<and> list_all (\<lambda>n. length (qn_id n) = 32) (bk_nodes b)
     \<and> length (bk_prefix b) = 32 \<and> (\<forall>i. bk_prefix_length b \<le> i \<and> i < 256 \<longrightarrow> \<not> get_bit (bk_prefix b) i)"

text \<open>A bucket as a map from identifiers to nodes.\<close>

definition bucket_map :: "'q bucket \<Rightarrow> bytes \<rightharpoonup> 'q qnode" where
  "bucket_map b = map_of (map (\<lambda>n. (qn_id n, n)) (bk_nodes b))"

definition node_map :: "'q qnode list \<Rightarrow> bytes \<rightharpoonup> 'q qnode" where
  "node_map ns = map_of (map (\<lambda>n. (qn_id n, n)) ns)"

lemma replace_first_ids: "map qn_id (replace_first (\<lambda>n. qn_id n = qn_id nd) nd ns) = map qn_id ns"
  by (induction ns) simp_all

lemma set_replace_first: "set (replace_first P y xs) \<subseteq> insert y (set xs)"
  by (induction xs) auto

lemma length_replace_first [simp]: "length (replace_first P y xs) = length xs"
  by (induction xs) simp_all

lemma node_map_replace:
  "list_ex (\<lambda>n. qn_id n = qn_id nd) ns \<Longrightarrow> node_map (replace_first (\<lambda>n. qn_id n = qn_id nd) nd ns) = (node_map ns)(qn_id nd \<mapsto> nd)"
  by (induction ns) (auto simp: node_map_def fun_upd_twist)

lemma list_ex_ids: "list_ex (\<lambda>n. qn_id n = i) ns \<longleftrightarrow> i \<in> qn_id ` set ns"
  by (auto simp: list_ex_iff)

lemma node_map_none: "node_map ns i = None \<longleftrightarrow> i \<notin> qn_id ` set ns"
  by (induction ns) (auto simp: node_map_def)

lemma node_map_id: "node_map ns i = Some n \<Longrightarrow> qn_id n = i"
  by (auto simp: node_map_def dest: map_of_SomeD)

lemma node_map_snoc:
  "\<not> list_ex (\<lambda>n. qn_id n = qn_id nd) ns \<Longrightarrow> node_map (ns @ [nd]) = (node_map ns)(qn_id nd \<mapsto> nd)"
  by (induction ns) (auto simp: node_map_def fun_eq_iff)

lemma erase_first_filter:
  assumes "distinct (map f xs)"
  shows "erase_first (\<lambda>x. f x = k) xs = filter (\<lambda>x. f x \<noteq> k) xs"
  using assms
proof (induction xs)
  case (Cons x xs)
  have "filter (\<lambda>x. f x \<noteq> k) xs = xs" if "f x = k" using that Cons.prems by (auto simp: filter_id_conv image_iff)
  then show ?case using Cons by auto
qed simp

lemma node_map_filter:
  assumes "distinct (map qn_id ns)"
  shows "node_map (filter P ns) i = (case node_map ns i of None \<Rightarrow> None | Some n \<Rightarrow> if P n then Some n else None)"
  using assms
proof (induction ns)
  case (Cons n ns)
  have "node_map (filter P ns) (qn_id n) = None" using Cons.prems by (auto simp: node_map_none)
  then show ?case using Cons by (auto simp: node_map_def)
qed (simp add: node_map_def)

lemma bucket_map_node_map: "bucket_map b = node_map (bk_nodes b)"
  by (simp add: bucket_map_def node_map_def)

lemma bucket_add_inv:
  assumes "bucket_inv b" "length (qn_id nd) = 32"
  shows "bucket_inv (snd (bucket_add nd b))"
proof (cases "list_ex (\<lambda>n. qn_id n = qn_id nd) (bk_nodes b)")
  case True
  then show ?thesis using assms set_replace_first [of "\<lambda>n. qn_id n = qn_id nd" nd "bk_nodes b"]
    by (auto simp: bucket_add_def bucket_inv_def replace_first_ids list_all_iff)
next
  case False
  then show ?thesis using assms by (auto simp: bucket_add_def bucket_inv_def QDHT_K_def list_ex_iff)
qed

lemma bucket_filter_inv: "bucket_inv b \<Longrightarrow> bucket_inv (b\<lparr>bk_nodes := filter P (bk_nodes b)\<rparr>)"
  by (auto simp: bucket_inv_def list_all_iff distinct_map_filter intro: le_trans [OF length_filter_le])

lemma bucket_remove_filter:
  assumes "bucket_inv b"
  shows "bucket_remove nd b =
    (list_ex (\<lambda>n. qn_id n = qn_id nd) (bk_nodes b), b\<lparr>bk_nodes := filter (\<lambda>n. qn_id n \<noteq> qn_id nd) (bk_nodes b)\<rparr>)"
proof -
  have "distinct (map qn_id (bk_nodes b))" using assms by (simp add: bucket_inv_def)
  moreover have "filter (\<lambda>n. qn_id n \<noteq> qn_id nd) (bk_nodes b) = bk_nodes b"
    if "\<not> list_ex (\<lambda>n. qn_id n = qn_id nd) (bk_nodes b)" using that by (auto simp: filter_id_conv list_ex_iff)
  ultimately show ?thesis
    by (cases "list_ex (\<lambda>n. qn_id n = qn_id nd) (bk_nodes b)") (simp_all add: bucket_remove_def erase_first_filter [of qn_id] Let_def)
qed

section \<open>Bits of identifiers\<close>

lemma get_bit_iff: "get_bit ident i \<longleftrightarrow> bit (ident ! (i div 8)) (i mod 8)"
  by (simp add: get_bit_def and_one_eq odd_iff_mod_2_eq_one bit_iff_odd_drop_bit)

lemma prefix_bit:
  assumes "length p = 32" "pl < 256" "i < 256"
  shows "get_bit (p[pl div 8 := p ! (pl div 8) OR push_bit (pl mod 8) 1]) i \<longleftrightarrow> get_bit p i \<or> i = pl"
proof (cases "i div 8 = pl div 8")
  case True
  have "i = pl \<longleftrightarrow> i mod 8 = pl mod 8" using True by (metis div_mult_mod_eq)
  moreover have "pl div 8 < 32" using assms(2) by (simp add: less_mult_imp_div_less)
  ultimately show ?thesis using True assms(1)
    by (auto simp: get_bit_iff bit_or_iff bit_exp_iff)
next
  case False
  then show ?thesis by (auto simp: get_bit_iff)
qed

lemma bucket_add_new:
  assumes "qn_id nd \<notin> qn_id ` set (bk_nodes b)" "length (bk_nodes b) < 20"
  shows "bucket_add nd b = (True, b\<lparr>bk_nodes := bk_nodes b @ [nd]\<rparr>)"
  using assms by (simp add: bucket_add_def QDHT_K_def list_ex_ids Let_def)

lemma split_fold:
  assumes "distinct (map qn_id (bk_nodes l @ bk_nodes r @ ns))" "length (bk_nodes l @ bk_nodes r @ ns) \<le> 20"
  shows "fold (split_step pl) ns (l, r) =
    (l\<lparr>bk_nodes := bk_nodes l @ filter (\<lambda>n. \<not> get_bit (qn_id n) pl) ns\<rparr>,
     r\<lparr>bk_nodes := bk_nodes r @ filter (\<lambda>n. get_bit (qn_id n) pl) ns\<rparr>)"
  using assms
proof (induction ns arbitrary: l r)
  case (Cons n ns)
  show ?case
  proof (cases "get_bit (qn_id n) pl")
    case True
    have "bucket_add n r = (True, r\<lparr>bk_nodes := bk_nodes r @ [n]\<rparr>)"
      using Cons.prems by (intro bucket_add_new) auto
    then show ?thesis using True Cons.prems Cons.IH [of l "r\<lparr>bk_nodes := bk_nodes r @ [n]\<rparr>"] by (auto simp: split_step_def)
  next
    case False
    have "bucket_add n l = (True, l\<lparr>bk_nodes := bk_nodes l @ [n]\<rparr>)"
      using Cons.prems by (intro bucket_add_new) auto
    then show ?thesis using False Cons.prems Cons.IH [of "l\<lparr>bk_nodes := bk_nodes l @ [n]\<rparr>" r] by (auto simp: split_step_def)
  qed
qed simp

lemma bit_count_sum: "bit_count n x = (\<Sum>i<n. of_bool (bit x i))"
proof (induction n arbitrary: x)
  case (Suc n)
  then show ?case
    by (auto simp: sum.lessThan_Suc_shift bit_drop_bit_eq bit_0 and_one_eq odd_iff_mod_2_eq_one
      simp del: sum.lessThan_Suc sum_of_bool_eq)
qed simp

text \<open>The distance is the number of bits in which two identifiers differ.\<close>

lemma calculate_distance_bits:
  assumes "length a = length b"
  shows "calculate_distance a b = (\<Sum>i<length a * 8. of_bool (get_bit a i \<noteq> get_bit b i))"
proof -
  define D where "D j = (of_bool (get_bit a j \<noteq> get_bit b j) :: nat)" for j
  have "sum D {i * 8..<i * 8 + 8} = bit_count 8 (a ! i XOR b ! i)" for i
  proof -
    have "sum D {i * 8..<i * 8 + 8} = (\<Sum>j<8. D (j + i * 8))"
      using sum.shift_bounds_nat_ivl [of D 0 "i * 8" 8] by (simp add: add.commute lessThan_atLeast0)
    also have "\<dots> = bit_count 8 (a ! i XOR b ! i)"
      unfolding bit_count_sum by (intro sum.cong) (auto simp: D_def get_bit_iff bit_xor_iff)
    finally show ?thesis .
  qed
  then have "sum D {..<length a * 8} = (\<Sum>i<length a. bit_count 8 (a ! i XOR b ! i))"
    using sum.nat_group [of D 8 "length a"] by simp
  then have "calculate_distance a b = sum D {..<length a * 8}"
    using assms by (simp add: calculate_distance_def sum_list_sum_nth lessThan_atLeast0)
  then show ?thesis unfolding D_def .
qed

section \<open>Properties\<close>

text \<open>
  C26: A bucket implements a bounded map from identifiers to nodes.  Every operation keeps its invariant; adding a node
  stores it, replacing the entry of the same identifier, unless the bucket is full and the identifier new; removing
  deletes the entry; a refresh drops exactly the nodes that have not been seen for more than thirty minutes.
\<close>

theorem bucket_refines_map:
  assumes "bucket_inv b" "length (qn_id nd) = 32"
  shows "(case bucket_add nd b of (added, b') \<Rightarrow> bucket_inv b'
       \<and> added = (bucket_map b (qn_id nd) \<noteq> None \<or> length (bk_nodes b) < 20)
       \<and> bucket_map b' = (if added then (bucket_map b)(qn_id nd \<mapsto> nd) else bucket_map b))
    \<and> (case bucket_remove nd b of (removed, b') \<Rightarrow> bucket_inv b'
       \<and> removed = (bucket_map b (qn_id nd) \<noteq> None) \<and> bucket_map b' = (bucket_map b)(qn_id nd := None))
    \<and> (bucket_inv (bucket_refresh now b) \<and> bucket_map (bucket_refresh now b) i =
         (case bucket_map b i of None \<Rightarrow> None | Some n \<Rightarrow> if now - qn_last_seen n > 1800000000000 then None else Some n))"
proof (intro conjI)
  let ?in = "list_ex (\<lambda>n. qn_id n = qn_id nd) (bk_nodes b)"
  have d: "distinct (map qn_id (bk_nodes b))" using assms by (simp add: bucket_inv_def)
  have "bucket_map (snd (bucket_add nd b)) = (if fst (bucket_add nd b) then (bucket_map b)(qn_id nd \<mapsto> nd) else bucket_map b)"
    by (cases ?in) (simp_all add: bucket_add_def Let_def bucket_map_node_map node_map_replace node_map_snoc)
  moreover have "fst (bucket_add nd b) = (bucket_map b (qn_id nd) \<noteq> None \<or> length (bk_nodes b) < 20)"
    by (simp add: bucket_add_def bucket_map_node_map QDHT_K_def Let_def node_map_none list_ex_ids del: not_None_eq)
  ultimately show "case bucket_add nd b of (added, b') \<Rightarrow> bucket_inv b'
       \<and> added = (bucket_map b (qn_id nd) \<noteq> None \<or> length (bk_nodes b) < 20)
       \<and> bucket_map b' = (if added then (bucket_map b)(qn_id nd \<mapsto> nd) else bucket_map b)"
    using bucket_add_inv [OF assms] by (simp add: split_beta)
  have "node_map (filter (\<lambda>n. qn_id n \<noteq> qn_id nd) (bk_nodes b)) = (node_map (bk_nodes b))(qn_id nd := None)"
    by (rule ext) (auto simp: node_map_filter [OF d] dest: node_map_id split: option.splits)
  then show "case bucket_remove nd b of (removed, b') \<Rightarrow> bucket_inv b'
       \<and> removed = (bucket_map b (qn_id nd) \<noteq> None) \<and> bucket_map b' = (bucket_map b)(qn_id nd := None)"
    using assms(1) by (simp add: bucket_remove_filter bucket_filter_inv bucket_map_node_map node_map_none list_ex_ids del: not_None_eq)
  show "bucket_inv (bucket_refresh now b)" using assms(1) by (simp add: bucket_refresh_def bucket_filter_inv)
  show "bucket_map (bucket_refresh now b) i =
      (case bucket_map b i of None \<Rightarrow> None | Some n \<Rightarrow> if now - qn_last_seen n > 1800000000000 then None else Some n)"
    by (simp add: bucket_refresh_def bucket_map_node_map node_map_filter [OF d] split: option.splits)
qed

lemma demo_bucket: "bucket_inv (bucket_new :: 'q bucket)"
  by (auto simp: bucket_inv_def bucket_new_def QDHT_ID_LENGTH_def get_bit_iff less_mult_imp_div_less)

definition demo_qnode :: "byte \<Rightarrow> unit qnode" where
  "demo_qnode x = \<lparr>qn_id = x # replicate 31 0, qn_public_key = [], qn_address = [], qn_port = 0, qn_last_seen = 0,
     qn_is_validator = False, qn_quantum_state = ()\<rparr>"

lemma bucket_refines_map_witness:
  "bucket_inv (snd (bucket_add (demo_qnode 3) bucket_new))
   \<and> bucket_map (bucket_refresh 1800000000001 (snd (bucket_add (demo_qnode 3) bucket_new))) (3 # replicate 31 0) = None"
proof -
  have d: "length (qn_id (demo_qnode 3)) = 32" by (simp add: demo_qnode_def)
  let ?b = "snd (bucket_add (demo_qnode 3) bucket_new)"
  have b: "bucket_inv ?b" using bucket_refines_map [OF demo_bucket d] by (simp add: split_beta)
  have "bucket_map ?b (3 # replicate 31 0) = Some (demo_qnode 3)"
    by (simp add: bucket_map_def bucket_add_def bucket_new_def QDHT_K_def Let_def) (simp add: demo_qnode_def)
  then show ?thesis using bucket_refines_map [OF b d, of 1800000000001 "3 # replicate 31 0"] b
    by (simp add: demo_qnode_def [of 3])
qed

text \<open>
  C27: Splitting a bucket with a prefix that is not complete loses and duplicates no node: the left part gets the nodes
  whose next bit is 0 and the right part the others, in their order; both parts are buckets, and when all nodes match
  the bucket's prefix the nodes of each part match the part's longer prefix.
\<close>

theorem bucket_split_partition:
  assumes "bucket_inv b" "bk_prefix_length b < 256"
  shows "\<exists>l r. bucket_split b = Some (l, r) \<and> bucket_inv l \<and> bucket_inv r
    \<and> bk_nodes l = filter (\<lambda>n. \<not> get_bit (qn_id n) (bk_prefix_length b)) (bk_nodes b)
    \<and> bk_nodes r = filter (\<lambda>n. get_bit (qn_id n) (bk_prefix_length b)) (bk_nodes b)
    \<and> (list_all (\<lambda>n. verify_prefix_match n b) (bk_nodes b) \<longrightarrow>
         list_all (\<lambda>n. verify_prefix_match n l) (bk_nodes l) \<and> list_all (\<lambda>n. verify_prefix_match n r) (bk_nodes r))"
proof -
  let ?pl = "bk_prefix_length b" and ?p = "bk_prefix b"
  let ?rp = "?p[?pl div 8 := ?p ! (?pl div 8) OR push_bit (?pl mod 8) 1]"
  define l where "l = bucket_new\<lparr>bk_prefix_length := ?pl + 1, bk_prefix := ?p,
    bk_nodes := filter (\<lambda>n. \<not> get_bit (qn_id n) ?pl) (bk_nodes b)\<rparr>"
  define r where "r = bucket_new\<lparr>bk_prefix_length := ?pl + 1, bk_prefix := ?rp,
    bk_nodes := filter (\<lambda>n. get_bit (qn_id n) ?pl) (bk_nodes b)\<rparr>"
  note I = assms(1) [unfolded bucket_inv_def]
  have p: "\<not> get_bit ?p ?pl" using I assms(2) by blast
  have rp: "get_bit ?rp i \<longleftrightarrow> get_bit ?p i \<or> i = ?pl" if "i < 256" for i
    using prefix_bit [OF _ assms(2) that] I by blast
  have split: "bucket_split b = Some (l, r)"
    using I assms(2) by (simp add: bucket_split_def split_fold bucket_new_def QDHT_ID_LENGTH_def l_def r_def Let_def)
  have inv: "bucket_inv l" "bucket_inv r"
    using I rp by (auto simp: bucket_inv_def l_def r_def bucket_new_def distinct_map_filter list_all_iff
      intro: le_trans [OF length_filter_le])
  have "list_all (\<lambda>n. verify_prefix_match n l) (bk_nodes l)" "list_all (\<lambda>n. verify_prefix_match n r) (bk_nodes r)"
    if "list_all (\<lambda>n. verify_prefix_match n b) (bk_nodes b)"
    using that p rp assms(2) by (auto simp: verify_prefix_match_def list_all_iff l_def r_def less_Suc_eq)
  then show ?thesis using split inv by (auto simp: l_def r_def)
qed

lemma bucket_split_partition_witness:
  "\<exists>l r. bucket_split (snd (bucket_add (demo_qnode 3) (snd (bucket_add (demo_qnode 2) bucket_new)))) = Some (l, r)
     \<and> bk_nodes l = [demo_qnode 2] \<and> bk_nodes r = [demo_qnode 3]"
proof -
  let ?b = "snd (bucket_add (demo_qnode 3) (snd (bucket_add (demo_qnode 2) bucket_new)))"
  have b: "bucket_inv ?b" by (intro bucket_add_inv demo_bucket) (simp_all add: demo_qnode_def)
  have n: "bk_nodes ?b = [demo_qnode 2, demo_qnode 3]" "bk_prefix_length ?b = 0"
    by (simp_all add: bucket_add_def bucket_new_def QDHT_K_def Let_def) (simp_all add: demo_qnode_def)
  have "get_bit (qn_id (demo_qnode 3)) 0" "\<not> get_bit (qn_id (demo_qnode 2)) 0" by (simp_all add: demo_qnode_def get_bit_def)
  then show ?thesis using bucket_split_partition [OF b] by (auto simp: n)
qed

text \<open>The contract of \<^verbatim>\<open>std::sort\<close> with a comparison of keys: a permutation in ascending order.\<close>

definition sorts_by :: "(('a \<Rightarrow> nat) \<Rightarrow> 'a list \<Rightarrow> 'a list) \<Rightarrow> bool" where
  "sorts_by srt \<longleftrightarrow> (\<forall>f xs. mset (srt f xs) = mset xs \<and> sorted (map f (srt f xs)))"

text \<open>
  Whatever sorting function is used, the search returns as many nodes as asked for, or all, taken from the bucket, and
  no node that is left out is closer to the target, by the number of differing bits, than one that is returned.
\<close>

theorem closest_nodes_optimal:
  assumes "sorts_by srt"
  shows "\<exists>rest. mset (bk_nodes b) = mset (get_closest_nodes srt target cnt b) + mset rest
    \<and> length (get_closest_nodes srt target cnt b) = min cnt (length (bk_nodes b))
    \<and> list_all (\<lambda>n. list_all (\<lambda>m. calculate_distance (qn_id n) (qn_id target) \<le> calculate_distance (qn_id m) (qn_id target)) rest)
        (get_closest_nodes srt target cnt b)"
proof -
  let ?f = "\<lambda>n. calculate_distance (qn_id n) (qn_id target)"
  define xs where "xs = srt ?f (bk_nodes b)"
  have xs: "mset xs = mset (bk_nodes b)" "sorted (map ?f xs)" using assms by (simp_all add: sorts_by_def xs_def)
  have len: "length xs = length (bk_nodes b)" using xs(1) by (metis size_mset)
  have "sorted (map ?f (take cnt xs) @ map ?f (drop cnt xs))" using xs(2) by (simp flip: map_append)
  then have "\<forall>n\<in>set (take cnt xs). \<forall>m\<in>set (drop cnt xs). ?f n \<le> ?f m" by (simp add: sorted_append)
  moreover have "mset (bk_nodes b) = mset (take cnt xs) + mset (drop cnt xs)"
    unfolding xs(1) [symmetric] by (simp flip: mset_append)
  ultimately show ?thesis using len
    by (intro exI [of _ "drop cnt xs"]) (simp add: get_closest_nodes_def xs_def [symmetric] list_all_iff min.commute)
qed

lemma closest_nodes_optimal_witness:
  "sorts_by (\<lambda>f xs. sort_key f xs :: unit qnode list)
   \<and> length (get_closest_nodes (\<lambda>f xs. sort_key f xs) (demo_qnode 1) 1
       (snd (bucket_add (demo_qnode 3) (snd (bucket_add (demo_qnode 2) bucket_new))))) = 1"
proof -
  have s: "sorts_by (\<lambda>f xs. sort_key f xs :: unit qnode list)" by (simp add: sorts_by_def)
  have "length (bk_nodes (snd (bucket_add (demo_qnode 3) (snd (bucket_add (demo_qnode 2) bucket_new))))) = 2"
    by (simp add: bucket_add_def bucket_new_def QDHT_K_def Let_def) (simp add: demo_qnode_def)
  then show ?thesis
    using closest_nodes_optimal [OF s, of "snd (bucket_add (demo_qnode 3) (snd (bucket_add (demo_qnode 2) bucket_new)))" "demo_qnode 1" 1] s
    by auto
qed

end
