(* ===== verification/Kademlia.thy ===== *)
theory Kademlia
  imports CStrings
begin

text \<open>
  The connections of \<^verbatim>\<open>network/P2PConnection.cpp\<close> and the Kademlia routing table of
  \<^verbatim>\<open>network/P2PNetwork.cpp\<close>: the distance of identifiers through a bit set whose conversion to a
  machine word can throw, the bucket of an identifier, the update and the refresh of the table and
  the search for the closest nodes with a bounded priority queue.  A bit set is a 160-bit word, the
  random number of an identifier, the time and the answer of the operating system are arguments.
\<close>

unbundle bit_operations_syntax

section \<open>Connections\<close>

record 'h conn =
  pc_open :: bool
  pc_connected :: bool
  pc_address :: string
  pc_port :: u16
  pc_last_seen :: int
  pc_sent :: nat
  pc_received :: nat
  pc_handler :: "'h option"

definition conn_new :: "int \<Rightarrow> 'h conn" where
  "conn_new now = \<lparr>pc_open = False, pc_connected = False, pc_address = [], pc_port = 0, pc_last_seen = now,
     pc_sent = 0, pc_received = 0, pc_handler = None\<rparr>"

text \<open>Opening a socket fails when it is open already or when the system refuses (\<open>opens\<close>).\<close>

definition conn_start :: "bool \<Rightarrow> 'h conn \<Rightarrow> bool \<times> 'h conn" where
  "conn_start opens c = (if pc_open c \<or> \<not> opens then (False, c) else (True, c\<lparr>pc_open := True\<rparr>))"

definition conn_stop :: "'h conn \<Rightarrow> 'h conn" where
  "conn_stop c = c\<lparr>pc_open := False, pc_connected := False\<rparr>"

definition conn_ping :: "'h conn \<Rightarrow> bool" where
  "conn_ping c = pc_connected c"

text \<open>The router's answer to a request for a port mapping is an argument.\<close>

definition perform_nat_traversal :: "(u16 \<Rightarrow> bool) \<Rightarrow> string \<Rightarrow> u16 \<Rightarrow> bool" where
  "perform_nat_traversal upnp ip port = upnp port"

definition conn_send_message :: "string \<Rightarrow> u16 \<Rightarrow> bytes \<Rightarrow> bool" where
  "conn_send_message address port message = True"

definition conn_set_message_handler :: "'h \<Rightarrow> 'h conn \<Rightarrow> 'h conn" where
  "conn_set_message_handler h c = c\<lparr>pc_handler := Some h\<rparr>"

definition conn_get_connected_peers :: "'h conn \<Rightarrow> (string \<times> string \<times> u16) list" where
  "conn_get_connected_peers c = []"

section \<open>Routing table\<close>

definition K :: nat where "K = 20"
definition ID_LENGTH :: nat where "ID_LENGTH = 160"

record knode =
  kn_id :: string
  kn_address :: string
  kn_port :: u16
  kn_last_seen :: int
  kn_is_validator :: bool

record kbucket =
  kb_nodes :: "knode list"
  kb_last_updated :: int

text \<open>A message handler of the network is the closure over its topic.\<close>

record p2p =
  connections :: "(string \<times> string conn) list"
  message_handlers :: "string list"
  connected_peers :: "string list"
  running :: bool
  node_id :: string
  is_validator :: bool
  buckets_locked :: bool
  k_buckets :: "kbucket list"

datatype p2p_error = Overflow_error | Deadlock

text \<open>A character is signed: the conversion to \<^verbatim>\<open>unsigned long long\<close> extends its sign over 64 bits.\<close>

definition bitset_of :: "char \<Rightarrow> 160 word" where
  "bitset_of c = ucast (scast (byte_of_char c) :: u64)"

fun xor_chars :: "nat \<Rightarrow> string \<Rightarrow> string \<Rightarrow> 160 word \<Rightarrow> 160 word" where
  "xor_chars i (c # cs) (d # ds) xor_result =
     xor_chars (i + 1) cs ds (xor_result OR push_bit (i * 8) (bitset_of c XOR bitset_of d))"
| "xor_chars i _ _ xor_result = xor_result"

text \<open>\<^verbatim>\<open>to_ulong\<close> throws when a bit from 64 on is set.\<close>

definition to_ulong :: "160 word \<Rightarrow> u64 option" where
  "to_ulong w = (if drop_bit 64 w = 0 then Some (ucast w) else None)"

definition calculate_id_distance :: "string \<Rightarrow> string \<Rightarrow> u64 option" where
  "calculate_id_distance id1 id2 = to_ulong (xor_chars 0 id1 id2 0)"

definition clzll :: "u64 \<Rightarrow> nat" where
  "clzll d = length (takeWhile (\<lambda>i. \<not> bit d i) (rev [0..<64]))"

definition get_bucket_index :: "string \<Rightarrow> string \<Rightarrow> nat option" where
  "get_bucket_index self nid =
     map_option (\<lambda>distance. if distance = 0 then 0 else ID_LENGTH - 1 - clzll distance) (calculate_id_distance self nid)"

definition ping_node :: "int \<Rightarrow> knode \<Rightarrow> p2p \<Rightarrow> bool \<times> p2p" where
  "ping_node now nd st =
     (case map_of (connections st) (kn_id nd) of
        Some connection \<Rightarrow> (conn_ping connection, st)
      | None \<Rightarrow>
          let connection = conn_new now
          in (conn_ping connection, st\<lparr>connections := AList.update (kn_id nd) connection (connections st)\<rparr>))"

definition update_routing_table :: "int \<Rightarrow> knode \<Rightarrow> p2p \<Rightarrow> p2p_error + p2p" where
  "update_routing_table now nd st =
     (if buckets_locked st then Inl Deadlock
      else case get_bucket_index (node_id st) (kn_id nd) of
        None \<Rightarrow> Inl Overflow_error
      | Some index \<Rightarrow>
          let ns = filter (\<lambda>n. kn_id n \<noteq> kn_id nd) (kb_nodes (k_buckets st ! index));
              (ns, st) =
                (if length ns < K then (nd # ns, st)
                 else let (oldest_alive, st) = ping_node now (last ns) st
                      in (if \<not> oldest_alive then nd # butlast ns else ns, st))
          in Inr (st\<lparr>k_buckets := (k_buckets st)[index := \<lparr>kb_nodes = ns, kb_last_updated = now\<rparr>]\<rparr>))"

section \<open>Search\<close>

text \<open>
  A \<^verbatim>\<open>std::priority_queue\<close> by its content and the position \<open>pick\<close> of its top, an element with the
  largest key; which one among equal keys is not specified.  Adding to a queue that is not empty
  compares, and a comparison throws when one of the distances does.
\<close>

type_synonym pq_top = "(knode \<Rightarrow> u64 option) \<Rightarrow> knode list \<Rightarrow> nat"

definition pq_top_ok :: "pq_top \<Rightarrow> bool" where
  "pq_top_ok pick \<longleftrightarrow> (\<forall>d q. q \<noteq> [] \<longrightarrow> pick d q < length q \<and> (\<forall>y \<in> set q. the (d y) \<le> the (d (q ! pick d q))))"

definition pq_pop :: "pq_top \<Rightarrow> (knode \<Rightarrow> u64 option) \<Rightarrow> knode list \<Rightarrow> knode list" where
  "pq_pop pick d q = (let i = pick d q in take i q @ drop (Suc i) q)"

definition pq_push :: "(knode \<Rightarrow> u64 option) \<Rightarrow> knode \<Rightarrow> knode list \<Rightarrow> p2p_error + knode list" where
  "pq_push d nd q = (if q \<noteq> [] \<and> list_ex (\<lambda>n. d n = None) (nd # q) then Inl Overflow_error else Inr (q @ [nd]))"

fun collect :: "pq_top \<Rightarrow> (knode \<Rightarrow> u64 option) \<Rightarrow> nat \<Rightarrow> knode list \<Rightarrow> knode list \<Rightarrow> p2p_error + knode list" where
  "collect pick d cnt [] closest = Inr closest"
| "collect pick d cnt (nd # ns) closest =
     (case pq_push d nd closest of
        Inl e \<Rightarrow> Inl e
      | Inr closest \<Rightarrow> collect pick d cnt ns (if length closest > cnt then pq_pop pick d closest else closest))"

text \<open>Emptying a queue of \<open>n\<close> elements from the top.\<close>

primrec drain :: "pq_top \<Rightarrow> (knode \<Rightarrow> u64 option) \<Rightarrow> nat \<Rightarrow> knode list \<Rightarrow> knode list" where
  "drain pick d 0 q = []"
| "drain pick d (Suc n) q = q ! pick d q # drain pick d n (pq_pop pick d q)"

definition all_nodes :: "p2p \<Rightarrow> knode list" where
  "all_nodes st = concat (map kb_nodes (k_buckets st))"

definition find_closest_nodes :: "pq_top \<Rightarrow> string \<Rightarrow> nat \<Rightarrow> p2p \<Rightarrow> p2p_error + knode list" where
  "find_closest_nodes pick target_id cnt st =
     (if buckets_locked st then Inl Deadlock
      else let d = \<lambda>n. calculate_id_distance target_id (kn_id n)
           in case collect pick d cnt (all_nodes st) [] of
                Inl e \<Rightarrow> Inl e
              | Inr closest \<Rightarrow> Inr (rev (drain pick d (length closest) closest)))"

section \<open>Refresh\<close>

definition generate_random_id_in_bucket :: "nat \<Rightarrow> string \<Rightarrow> string" where
  "generate_random_id_in_bucket bucket_index nid =
     (let bit_to_flip = ID_LENGTH - bucket_index; byte_index = bit_to_flip div 8; bit_index = bit_to_flip mod 8
      in if bucket_index > 0 \<and> byte_index < length nid
         then nid[byte_index := char_of_byte (byte_of_char (nid ! byte_index) XOR push_bit bit_index 1)] else nid)"

fun update_all :: "int \<Rightarrow> knode list \<Rightarrow> p2p \<Rightarrow> p2p_error + p2p" where
  "update_all now [] st = Inr st"
| "update_all now (nd # ns) st =
     (case update_routing_table now nd st of Inl e \<Rightarrow> Inl e | Inr st \<Rightarrow> update_all now ns st)"

text \<open>The time is in nanoseconds; \<^verbatim>\<open>duration_cast\<close> to hours.\<close>

definition is_stale :: "int \<Rightarrow> kbucket \<Rightarrow> bool" where
  "is_stale now b = ((now - kb_last_updated b) div 3600000000000 \<ge> 1)"

fun refresh_loop :: "pq_top \<Rightarrow> int \<Rightarrow> nat list \<Rightarrow> p2p \<Rightarrow> p2p_error + p2p" where
  "refresh_loop pick now [] st = Inr st"
| "refresh_loop pick now (i # is) st =
     (if is_stale now (k_buckets st ! i) then
        (case find_closest_nodes pick (generate_random_id_in_bucket i (node_id st)) K st of
           Inl e \<Rightarrow> Inl e
         | Inr nodes \<Rightarrow>
             (case update_all now nodes st of Inl e \<Rightarrow> Inl e | Inr st \<Rightarrow> refresh_loop pick now is st))
      else refresh_loop pick now is st)"

definition refresh_buckets :: "pq_top \<Rightarrow> int \<Rightarrow> p2p \<Rightarrow> p2p_error + p2p" where
  "refresh_buckets pick now st =
     (if buckets_locked st then Inl Deadlock
      else map_sum id (\<lambda>st. st\<lparr>buckets_locked := False\<rparr>)
             (refresh_loop pick now [0..<length (k_buckets st)] (st\<lparr>buckets_locked := True\<rparr>)))"

section \<open>Creation\<close>

definition hex_digit :: "nat \<Rightarrow> char" where
  "hex_digit n = ''0123456789abcdef'' ! n"

text \<open>Sixteen hexadecimal digits of a random number.\<close>

definition generate_node_id :: "u64 \<Rightarrow> string" where
  "generate_node_id r = map (\<lambda>i. hex_digit (unat (drop_bit (4 * i) r AND 15))) (rev [0..<16])"

definition p2p_new :: "u64 \<Rightarrow> p2p" where
  "p2p_new r = \<lparr>connections = [], message_handlers = [], connected_peers = [], running = False,
     node_id = generate_node_id r, is_validator = False, buckets_locked = False,
     k_buckets = replicate ID_LENGTH \<lparr>kb_nodes = [], kb_last_updated = 0\<rparr>\<rparr>"

section \<open>Bits of the distance\<close>

lemma bit_bitset_of: "bit (bitset_of c) n \<longleftrightarrow> n < 64 \<and> bit (byte_of_char c) (min 7 n)"
  by (auto simp: bitset_of_def bit_unsigned_iff bit_signed_iff)

definition differ_at :: "nat \<Rightarrow> string \<Rightarrow> string \<Rightarrow> nat \<Rightarrow> nat \<Rightarrow> bool" where
  "differ_at i a b n k \<longleftrightarrow> k < length a \<and> k < length b \<and> 8 * (i + k) \<le> n \<and> n < 160
     \<and> bit (bitset_of (a ! k)) (n - 8 * (i + k)) \<noteq> bit (bitset_of (b ! k)) (n - 8 * (i + k))"

lemma ex_differ_Cons:
  "(\<exists>k. differ_at i (c # cs) (d # ds) n k) \<longleftrightarrow>
     differ_at i (c # cs) (d # ds) n 0 \<or> (\<exists>k. differ_at (i + 1) cs ds n k)"
proof -
  have "differ_at i (c # cs) (d # ds) n (Suc k) \<longleftrightarrow> differ_at (i + 1) cs ds n k" for k
    by (simp add: differ_at_def)
  then show ?thesis by (metis not0_implies_Suc)
qed

lemma bit_xor_chars: "bit (xor_chars i a b acc) n \<longleftrightarrow> bit acc n \<or> (\<exists>k. differ_at i a b n k)"
proof (induction i a b acc rule: xor_chars.induct)
  case (1 i c cs d ds acc)
  have "bit (push_bit (i * 8) (bitset_of c XOR bitset_of d)) n \<longleftrightarrow> differ_at i (c # cs) (d # ds) n 0"
    by (auto simp: differ_at_def bit_push_bit_iff bit_xor_iff mult.commute)
  then show ?case
    unfolding xor_chars.simps 1 bit_or_iff ex_differ_Cons by blast
qed (simp_all add: differ_at_def)

lemma to_ulong_None: "to_ulong w = None \<longleftrightarrow> (\<exists>n. 64 \<le> n \<and> n < 160 \<and> bit w n)"
proof -
  have "drop_bit 64 w = 0" if "\<forall>n. \<not> bit w (64 + n)"
    by (rule bit_eqI) (use that in \<open>simp add: bit_drop_bit_eq\<close>)
  moreover have "\<not> bit w (64 + n)" if "drop_bit 64 w = 0" for n
  proof -
    have "\<not> bit (drop_bit 64 w) n" unfolding that by simp
    then show ?thesis by (simp add: bit_drop_bit_eq)
  qed
  ultimately have "to_ulong w = None \<longleftrightarrow> (\<exists>n. bit w (64 + n))"
    unfolding to_ulong_def by auto
  also have "\<dots> \<longleftrightarrow> (\<exists>n. 64 \<le> n \<and> bit w n)" by (metis le_add1 le_add_diff_inverse)
  also have "\<dots> \<longleftrightarrow> (\<exists>n. 64 \<le> n \<and> n < 160 \<and> bit w n)"
    using bit_imp_le_length [of w] by fastforce
  finally show ?thesis .
qed

lemma to_ulong_Some: "to_ulong w = Some d \<Longrightarrow> bit d n \<longleftrightarrow> n < 64 \<and> bit w n"
proof -
  assume "to_ulong w = Some d"
  then have "d = ucast w" by (simp add: to_ulong_def split: if_splits)
  then show ?thesis by (simp add: bit_unsigned_iff)
qed

lemma ascii_bits:
  "(of_char c :: nat) < 128 \<Longrightarrow> bit (bitset_of c) n \<longleftrightarrow> n < 7 \<and> bit (byte_of_char c) n"
proof -
  assume "(of_char c :: nat) < 128"
  then have "unat (byte_of_char c) < 2 ^ 7"
    using of_char_lt_256 [of c] by (simp add: byte_of_char_def unsigned_of_nat take_bit_nat_eq_self)
  then have "\<not> bit (unat (byte_of_char c)) 7" by (simp add: bit_iff_odd)
  then have "\<not> bit (byte_of_char c) 7" by (simp add: bit_unsigned_iff)
  moreover have "n < 7 \<or> min 7 n = 7" by auto
  ultimately show ?thesis by (auto simp: bit_bitset_of min_def)
qed

definition is_ascii :: "string \<Rightarrow> bool" where
  "is_ascii s \<longleftrightarrow> list_all (\<lambda>c. (of_char c :: nat) < 128) s"

lemma byte_of_char_eq [simp]: "byte_of_char c = byte_of_char d \<longleftrightarrow> c = d"
  by (metis char_of_byte_of_char)

lemma ascii_differ:
  assumes "(of_char c :: nat) < 128" "(of_char d :: nat) < 128" "c \<noteq> d"
  obtains j where "j < 7" "bit (bitset_of c) j \<noteq> bit (bitset_of d) j"
proof -
  from assms(3) have "byte_of_char c \<noteq> byte_of_char d" by simp
  then obtain j where j: "bit (byte_of_char c) j \<noteq> bit (byte_of_char d) j"
    by (auto simp: bit_eq_iff)
  have "j < 8" using j byte_high [of j] by (meson not_le)
  moreover have "j \<noteq> 7"
    using j ascii_bits [OF assms(1), of 7] ascii_bits [OF assms(2), of 7] by (auto simp: bit_bitset_of)
  ultimately have "j < 7" by linarith
  with j that [of j] show thesis using assms by (simp add: ascii_bits)
qed

lemma ascii_distance_None:
  assumes "is_ascii a" "is_ascii b"
  shows "calculate_id_distance a b = None \<longleftrightarrow>
    (\<exists>i. 8 \<le> i \<and> i < 20 \<and> i < length a \<and> i < length b \<and> a ! i \<noteq> b ! i)" (is "?l \<longleftrightarrow> ?r")
proof
  assume ?l
  then obtain n k where n: "64 \<le> n" "differ_at 0 a b n k"
    by (auto simp: calculate_id_distance_def to_ulong_None bit_xor_chars)
  then have k: "k < length a" "k < length b" "8 * k \<le> n" "n < 160" "a ! k \<noteq> b ! k"
      "bit (bitset_of (a ! k)) (n - 8 * k) \<or> bit (bitset_of (b ! k)) (n - 8 * k)"
    by (auto simp: differ_at_def)
  then have "n - 8 * k < 7"
    using assms by (auto simp: is_ascii_def list_all_length ascii_bits)
  with n(1) k have "8 \<le> k" "k < 20" by linarith+
  with k show ?r by blast
next
  assume ?r
  then obtain i where i: "8 \<le> i" "i < 20" "i < length a" "i < length b" "a ! i \<noteq> b ! i" by blast
  have "(of_char (a ! i) :: nat) < 128" "(of_char (b ! i) :: nat) < 128"
    using i assms by (auto simp: is_ascii_def list_all_length)
  then obtain j where "j < 7" "bit (bitset_of (a ! i)) j \<noteq> bit (bitset_of (b ! i)) j"
    using i(5) by (rule ascii_differ)
  with i have "differ_at 0 a b (8 * i + j) i" by (simp add: differ_at_def)
  moreover have "64 \<le> 8 * i + j" "8 * i + j < 160" using i \<open>j < 7\<close> by linarith+
  ultimately show ?l
    by (auto simp: calculate_id_distance_def to_ulong_None bit_xor_chars)
qed

section \<open>Generated identifiers\<close>

lemma length_generate_node_id [simp]: "length (generate_node_id r) = 16"
  by (simp add: generate_node_id_def)

lemma nibble_less: "unat (drop_bit k (r :: u64) AND 15) < 16"
proof -
  have "drop_bit k r AND 15 \<le> 15" by (rule word_and_le1)
  then show ?thesis by (simp add: word_le_nat_alt)
qed

lemma hex_digit_list: "n < 16 \<Longrightarrow> hex_digit n \<in> set ''0123456789abcdef''"
  unfolding hex_digit_def by (rule nth_mem) simp

lemma hex_digit_inj: "m < 16 \<Longrightarrow> n < 16 \<Longrightarrow> hex_digit m = hex_digit n \<longleftrightarrow> m = n"
proof -
  have "distinct ''0123456789abcdef''" by simp
  then show "m < 16 \<Longrightarrow> n < 16 \<Longrightarrow> hex_digit m = hex_digit n \<longleftrightarrow> m = n"
    unfolding hex_digit_def by (subst nth_eq_iff_index_eq) simp_all
qed

lemma ascii_generate_node_id [simp]: "is_ascii (generate_node_id r)"
proof -
  have "list_all (\<lambda>c. (of_char c :: nat) < 128) ''0123456789abcdef''" by simp
  then have "(of_char (hex_digit n) :: nat) < 128" if "n < 16" for n
    using hex_digit_list [OF that] by (auto simp: list_all_iff)
  then show ?thesis by (auto simp: is_ascii_def generate_node_id_def list_all_iff nibble_less)
qed

lemma generate_node_id_nth:
  "i < 16 \<Longrightarrow> generate_node_id r ! i = hex_digit (unat (drop_bit (4 * (15 - i)) r AND 15))"
  by (simp add: generate_node_id_def rev_nth)

lemma nibble_eq:
  "drop_bit k (r :: u64) AND 15 = drop_bit k s AND 15 \<longleftrightarrow> (\<forall>j<4. bit r (k + j) = bit s (k + j))" (is "?l \<longleftrightarrow> ?r")
proof -
  have m: "(15 :: u64) = mask 4" by (simp add: mask_eq_exp_minus_1)
  have b: "bit (drop_bit k x AND 15) j \<longleftrightarrow> j < 4 \<and> bit x (k + j)" for x :: u64 and j
    by (auto simp: m bit_and_iff bit_mask_iff bit_drop_bit_eq dest: bit_imp_le_length)
  show ?thesis
  proof
    assume ?l then show ?r by (metis b)
  next
    assume ?r then show ?l by (intro bit_eqI) (auto simp: b)
  qed
qed

lemma low_half_eq:
  "(\<forall>i. 8 \<le> i \<and> i < 16 \<longrightarrow> generate_node_id r ! i = generate_node_id s ! i) \<longleftrightarrow> take_bit 32 r = take_bit 32 s"
  (is "?l \<longleftrightarrow> ?r")
proof -
  have "?l \<longleftrightarrow> (\<forall>i. 8 \<le> i \<and> i < 16 \<longrightarrow> (\<forall>j<4. bit r (4 * (15 - i) + j) = bit s (4 * (15 - i) + j)))"
    by (simp add: generate_node_id_nth hex_digit_inj nibble_less nibble_eq [symmetric] word_unat_eq_iff)
  also have "\<dots> \<longleftrightarrow> (\<forall>n<32. bit r n = bit s n)" (is "?a \<longleftrightarrow> ?b")
  proof
    assume a: ?a
    show ?b
    proof (intro allI impI)
      fix n :: nat assume "n < 32"
      then have "8 \<le> 15 - n div 4" "15 - n div 4 < 16" "4 * (15 - (15 - n div 4)) + n mod 4 = n" by simp_all
      with a [rule_format, of "15 - n div 4" "n mod 4"] show "bit r n = bit s n" by simp
    qed
  next
    assume b: ?b
    show ?a
    proof (intro allI impI)
      fix i j :: nat assume "8 \<le> i \<and> i < 16" "j < 4"
      then have "4 * (15 - i) + j < 32" by linarith
      with b show "bit r (4 * (15 - i) + j) = bit s (4 * (15 - i) + j)" by blast
    qed
  qed
  also have "\<dots> \<longleftrightarrow> ?r"
  proof
    assume "\<forall>n<32. bit r n = bit s n"
    then show ?r by (intro bit_eqI) (auto simp: bit_take_bit_iff)
  next
    assume ?r then show "\<forall>n<32. bit r n = bit s n" by (metis bit_take_bit_iff)
  qed
  finally show ?thesis .
qed

lemma generated_distance_None:
  "calculate_id_distance (generate_node_id r) (generate_node_id s) = None \<longleftrightarrow> take_bit 32 r \<noteq> take_bit 32 s"
proof -
  have "calculate_id_distance (generate_node_id r) (generate_node_id s) = None \<longleftrightarrow>
      \<not> (\<forall>i. 8 \<le> i \<and> i < 16 \<longrightarrow> generate_node_id r ! i = generate_node_id s ! i)"
    by (auto simp: ascii_distance_None)
  then show ?thesis unfolding low_half_eq by simp
qed

section \<open>The bucket of an identifier\<close>

lemma clzll_top:
  assumes "bit d m" "\<And>j. m < j \<Longrightarrow> \<not> bit d j"
  shows "clzll d = 63 - m"
proof -
  have m: "m < 64" using assms(1) bit_imp_le_length by fastforce
  then have "[0..<64] = [0..<m] @ m # [Suc m..<64]"
    using upt_add_eq_append [of 0 m "64 - m"] upt_conv_Cons [OF m] le_add_diff_inverse [OF less_imp_le [OF m]]
    by (simp only: le0)
  then have "takeWhile (\<lambda>i. \<not> bit d i) (rev [0..<64]) = rev [Suc m..<64]"
    using assms by (simp add: takeWhile_append)
  then show ?thesis by (simp add: clzll_def)
qed

lemma top_bit:
  assumes "(d :: u64) \<noteq> 0"
  obtains m where "m < 64" "bit d m" "\<And>j. m < j \<Longrightarrow> \<not> bit d j"
proof -
  let ?S = "{n. bit d n}"
  have less: "n < 64" if "bit d n" for n using bit_imp_le_length [OF that] by simp
  then have fin: "finite ?S" by (intro finite_subset [of ?S "{..<64}"]) auto
  have ne: "?S \<noteq> {}"
  proof
    assume "?S = {}"
    then have "d = 0" by (intro bit_eqI) auto
    with assms show False by simp
  qed
  have "bit d (Max ?S)" using Max_in [OF fin ne] by simp
  moreover have "\<not> bit d j" if "Max ?S < j" for j using that by (metis Max_ge fin leD mem_Collect_eq)
  ultimately show thesis using that less by blast
qed

lemma bucket_index_top:
  assumes "calculate_id_distance self nid = Some d" "m < 64" "bit d m" "\<And>j. m < j \<Longrightarrow> \<not> bit d j"
  shows "get_bucket_index self nid = Some (96 + m)"
proof -
  have "d \<noteq> 0" using assms(3) by auto
  then show ?thesis
    using assms by (simp add: get_bucket_index_def clzll_top ID_LENGTH_def)
qed

lemma bucket_index_range:
  "get_bucket_index self nid = Some i \<Longrightarrow> i = 0 \<or> 96 \<le> i \<and> i < 160"
proof -
  assume i: "get_bucket_index self nid = Some i"
  then obtain d where d: "calculate_id_distance self nid = Some d" by (auto simp: get_bucket_index_def)
  show ?thesis
  proof (cases "d = 0")
    case False
    then obtain m where "m < 64" "bit d m" "\<And>j. m < j \<Longrightarrow> \<not> bit d j" by (rule top_bit) blast
    with bucket_index_top [OF d] i show ?thesis by simp
  qed (use i d in \<open>simp add: get_bucket_index_def\<close>)
qed

section \<open>The target of a refresh\<close>

lemma bit_flipped:
  assumes "j < 8"
  shows "bit (bitset_of (char_of_byte (byte_of_char c XOR push_bit j 1))) n \<noteq> bit (bitset_of c) n \<longleftrightarrow> n < 64 \<and> min 7 n = j"
  using assms by (auto simp: bit_bitset_of bit_xor_iff bit_exp_iff)

lemma refresh_target_bits:
  fixes nid :: string and bi :: nat
  defines "b \<equiv> 160 - bi"
  assumes "length nid = 16" "32 < bi" "bi < 160"
  shows "bit (xor_chars 0 nid (generate_random_id_in_bucket bi nid) 0) n \<longleftrightarrow>
    8 * (b div 8) \<le> n \<and> n < 160 \<and> n - 8 * (b div 8) < 64 \<and> min 7 (n - 8 * (b div 8)) = b mod 8"
proof -
  let ?y = "b div 8" and ?j = "b mod 8"
  let ?c = "char_of_byte (byte_of_char (nid ! ?y) XOR push_bit ?j 1)"
  have y: "?y < 16" "?j < 8" using assms by simp_all
  have gen: "generate_random_id_in_bucket bi nid = nid[?y := ?c]"
    using assms y by (simp add: generate_random_id_in_bucket_def ID_LENGTH_def Let_def)
  have "differ_at 0 nid (nid[?y := ?c]) n k \<longleftrightarrow>
      k = ?y \<and> 8 * ?y \<le> n \<and> n < 160 \<and> n - 8 * ?y < 64 \<and> min 7 (n - 8 * ?y) = ?j" for k
  proof (cases "k = ?y")
    case True
    then show ?thesis
      using bit_flipped [OF y(2), of "nid ! ?y" "n - 8 * ?y"] y(1) assms(2) by (auto simp: differ_at_def)
  qed (simp add: differ_at_def)
  then show ?thesis by (simp add: gen bit_xor_chars)
qed

lemma refresh_target_index:
  assumes "length nid = 16" "bi < 160"
  shows "get_bucket_index nid (generate_random_id_in_bucket bi nid) =
    (if bi \<le> 32 then Some 0 else if bi \<le> 96 then None else if bi = 153 then Some 159
     else if (160 - bi) mod 8 = 7 then None else Some (256 - bi))"
proof -
  define b where "b = 160 - bi"
  define x where "x = xor_chars 0 nid (generate_random_id_in_bucket bi nid) 0"
  have none: "get_bucket_index nid (generate_random_id_in_bucket bi nid) = None" if "bit x n" "64 \<le> n" "n < 160" for n
    using that by (auto simp: get_bucket_index_def calculate_id_distance_def to_ulong_None x_def)
  have some: "get_bucket_index nid (generate_random_id_in_bucket bi nid) = Some (96 + m)"
    if "bit x m" "m < 64" "\<And>n. m < n \<Longrightarrow> \<not> bit x n" for m
  proof -
    from that(2,3) have "to_ulong x \<noteq> None" unfolding to_ulong_None by (meson le_trans not_le less_le_trans)
    then obtain d where d: "to_ulong x = Some d" by blast
    show ?thesis
      by (rule bucket_index_top [of _ _ d]) (use d that in \<open>auto simp: calculate_id_distance_def x_def to_ulong_Some\<close>)
  qed
  show ?thesis
  proof (cases "bi \<le> 32")
    case True
    then have same: "generate_random_id_in_bucket bi nid = nid"
      using assms by (auto simp: generate_random_id_in_bucket_def ID_LENGTH_def Let_def)
    have "xor_chars 0 nid nid 0 = 0" by (rule bit_eqI) (simp add: bit_xor_chars differ_at_def)
    with True show ?thesis by (simp add: same get_bucket_index_def calculate_id_distance_def to_ulong_def)
  next
    case False
    have bx: "bit x n \<longleftrightarrow> 8 * (b div 8) \<le> n \<and> n < 160 \<and> n - 8 * (b div 8) < 64 \<and> min 7 (n - 8 * (b div 8)) = b mod 8" for n
      unfolding x_def b_def by (rule refresh_target_bits) (use assms False in simp_all)
    have b: "b < 128" "0 < b" "8 * (b div 8) + b mod 8 = b" using assms False by (simp_all add: b_def)
    have bb: "bit x b" unfolding bx using b by (auto simp: min_def minus_mult_div_eq_mod)
    consider "bi \<le> 96" | "96 < bi" "b mod 8 < 7" | "96 < bi" "b = 7" | "96 < bi" "b mod 8 = 7" "b \<noteq> 7" by linarith
    then show ?thesis
    proof cases
      case 1
      then show ?thesis using none [OF bb] b False by (simp add: b_def)
    next
      case 2
      then have "\<not> bit x n" if "b < n" for n using that b(3) unfolding bx by linarith
      moreover have "b < 64" "bi \<noteq> 153" using 2 by (auto simp: b_def)
      ultimately show ?thesis using some [OF bb] 2 assms(2) by (auto simp: b_def)
    next
      case 3
      then have "bit x 63" "\<And>n. 63 < n \<Longrightarrow> \<not> bit x n" unfolding bx by auto
      then show ?thesis using some [of 63] 3 assms(2) by (auto simp: b_def)
    next
      case 4
      then have "bit x (8 * (b div 8) + 63)" "1 \<le> b div 8" "b div 8 < 8" unfolding bx using b by (auto simp: b_def)
      then show ?thesis using none [of "8 * (b div 8) + 63"] 4 assms(2) by (auto simp: b_def)
    qed
  qed
qed

end
