(* ===== verification/Kademlia_Table.thy ===== *)
theory Kademlia_Table
  imports Kademlia
begin

text \<open>
  The routing table of \<^verbatim>\<open>network/P2PNetwork.cpp\<close>: an invariant of every reachable table, the table
  as a map from identifiers to nodes, and the search for the nearest nodes.
\<close>

unbundle bit_operations_syntax

section \<open>The table as a map\<close>

definition kad_lookup :: "p2p \<Rightarrow> string \<Rightarrow> knode option" where
  "kad_lookup st nid =
     (case get_bucket_index (node_id st) nid of
        None \<Rightarrow> None | Some i \<Rightarrow> find (\<lambda>n. kn_id n = nid) (kb_nodes (k_buckets st ! i)))"

definition bucket_ok :: "string \<Rightarrow> nat \<Rightarrow> knode list \<Rightarrow> bool" where
  "bucket_ok self i ns \<longleftrightarrow> length ns \<le> K \<and> distinct (map kn_id ns)
     \<and> list_all (\<lambda>n. get_bucket_index self (kn_id n) = Some i) ns"

definition kad_inv :: "p2p \<Rightarrow> bool" where
  "kad_inv st \<longleftrightarrow> length (k_buckets st) = ID_LENGTH \<and> \<not> buckets_locked st
     \<and> (\<forall>i<ID_LENGTH. bucket_ok (node_id st) i (kb_nodes (k_buckets st ! i)))"

lemma ping_node_frame [simp]:
  "node_id (snd (ping_node now nd st)) = node_id st" "k_buckets (snd (ping_node now nd st)) = k_buckets st"
  "buckets_locked (snd (ping_node now nd st)) = buckets_locked st"
  by (simp_all add: ping_node_def Let_def split: option.splits)

lemma find_filter_id:
  "find (\<lambda>n. kn_id n = m) (filter (\<lambda>n. kn_id n \<noteq> nid) ns) = (if m = nid then None else find (\<lambda>n. kn_id n = m) ns)"
  by (induction ns) auto

lemma find_butlast_id:
  fixes ns :: "knode list"
  assumes "distinct (map kn_id ns)" "ns \<noteq> []"
  shows "find (\<lambda>n. kn_id n = m) (butlast ns) = (if m = kn_id (last ns) then None else find (\<lambda>n. kn_id n = m) ns)"
proof -
  have *: "find P (xs @ [x]) = (case find P xs of Some y \<Rightarrow> Some y | None \<Rightarrow> if P x then Some x else None)"
    for P :: "knode \<Rightarrow> bool" and xs x by (induction xs) auto
  obtain xs x where "ns = xs @ [x]" using assms(2) by (metis append_butlast_last_id)
  with assms(1) show ?thesis by (auto simp: * find_None_iff image_iff split: option.splits)
qed

definition evicts :: "int \<Rightarrow> knode \<Rightarrow> p2p \<Rightarrow> nat \<Rightarrow> knode list" where
  "evicts now nd st i =
     (let ns = kb_nodes (k_buckets st ! i)
      in if length ns < K \<or> kn_id nd \<in> kn_id ` set ns then nd # filter (\<lambda>n. kn_id n \<noteq> kn_id nd) ns
         else if fst (ping_node now (last ns) st) then ns else nd # butlast ns)"

lemma length_filter_K:
  assumes "length ns \<le> K"
  shows "length (filter (\<lambda>n. kn_id n \<noteq> nid) ns) < K \<longleftrightarrow> length ns < K \<or> nid \<in> kn_id ` set ns"
proof (cases "nid \<in> kn_id ` set ns")
  case True
  then obtain n where "n \<in> set ns" "\<not> kn_id n \<noteq> nid" by auto
  then have "length (filter (\<lambda>n. kn_id n \<noteq> nid) ns) < length ns" by (rule length_filter_less)
  with assms True show ?thesis by simp
next
  case False
  then have "filter (\<lambda>n. kn_id n \<noteq> nid) ns = ns" by (auto simp: filter_id_conv)
  with False show ?thesis by simp
qed

lemma filter_absent: "nid \<notin> kn_id ` set ns \<Longrightarrow> filter (\<lambda>n. kn_id n \<noteq> nid) ns = ns"
  by (auto simp: filter_id_conv)

lemma index_less: "get_bucket_index self nid = Some i \<Longrightarrow> i < ID_LENGTH"
  using bucket_index_range [of self nid i] by (auto simp: ID_LENGTH_def)

lemma update_routing_table_eq:
  assumes "kad_inv st" "get_bucket_index (node_id st) (kn_id nd) = Some i"
  shows "\<exists>st'. update_routing_table now nd st = Inr st' \<and> node_id st' = node_id st \<and> \<not> buckets_locked st'
    \<and> k_buckets st' = (k_buckets st)[i := \<lparr>kb_nodes = evicts now nd st i, kb_last_updated = now\<rparr>]"
proof -
  let ?ns = "kb_nodes (k_buckets st ! i)"
  have ok: "bucket_ok (node_id st) i ?ns" "\<not> buckets_locked st"
    using assms index_less [OF assms(2)] by (auto simp: kad_inv_def)
  then have K: "length (filter (\<lambda>n. kn_id n \<noteq> kn_id nd) ?ns) < K \<longleftrightarrow> length ?ns < K \<or> kn_id nd \<in> kn_id ` set ?ns"
    by (intro length_filter_K) (simp add: bucket_ok_def)
  show ?thesis
  proof (cases "length ?ns < K \<or> kn_id nd \<in> kn_id ` set ?ns")
    case True
    then show ?thesis using ok assms(2) K by (simp add: update_routing_table_def evicts_def Let_def)
  next
    case False
    then have "filter (\<lambda>n. kn_id n \<noteq> kn_id nd) ?ns = ?ns" by (intro filter_absent) blast
    with False show ?thesis
      using ok assms(2) by (simp add: update_routing_table_def evicts_def Let_def case_prod_beta)
  qed
qed

lemma bucket_ok_evicts:
  assumes "bucket_ok self i (kb_nodes (k_buckets st ! i))" "get_bucket_index self (kn_id nd) = Some i"
  shows "bucket_ok self i (evicts now nd st i)"
proof -
  let ?ns = "kb_nodes (k_buckets st ! i)"
  have d: "distinct (map kn_id ?ns)" "length ?ns \<le> K" "list_all (\<lambda>n. get_bucket_index self (kn_id n) = Some i) ?ns"
    using assms(1) by (simp_all add: bucket_ok_def)
  have 1: "bucket_ok self i (nd # filter (\<lambda>n. kn_id n \<noteq> kn_id nd) ?ns)" if "length ?ns < K \<or> kn_id nd \<in> kn_id ` set ?ns"
    using that d length_filter_K [OF d(2)] assms(2)
    by (auto simp: bucket_ok_def list_all_iff distinct_map inj_on_def Suc_le_eq)
  have 2: "bucket_ok self i (nd # butlast ?ns)" if "kn_id nd \<notin> kn_id ` set ?ns" "\<not> length ?ns < K"
    using that d assms(2)
    by (auto simp: bucket_ok_def list_all_iff K_def map_butlast distinct_butlast dest: in_set_butlastD)
  show ?thesis using 1 2 assms(1) by (auto simp: evicts_def Let_def)
qed

lemma update_routing_table_map:
  assumes "kad_inv st" "update_routing_table now nd st = Inr st'"
  obtains i where "get_bucket_index (node_id st) (kn_id nd) = Some i" "kad_inv st'" "node_id st' = node_id st"
    "kad_lookup st' =
      (let ns = kb_nodes (k_buckets st ! i)
       in if length ns < K \<or> kad_lookup st (kn_id nd) \<noteq> None then (kad_lookup st)(kn_id nd \<mapsto> nd)
          else if fst (ping_node now (last ns) st) then kad_lookup st
          else (kad_lookup st)(kn_id (last ns) := None, kn_id nd \<mapsto> nd))"
proof -
  have "get_bucket_index (node_id st) (kn_id nd) \<noteq> None"
    by (rule notI) (use assms in \<open>simp add: update_routing_table_def kad_inv_def\<close>)
  then obtain i where i: "get_bucket_index (node_id st) (kn_id nd) = Some i" by blast
  let ?ns = "kb_nodes (k_buckets st ! i)"
  have st': "node_id st' = node_id st" "\<not> buckets_locked st'"
      "k_buckets st' = (k_buckets st)[i := \<lparr>kb_nodes = evicts now nd st i, kb_last_updated = now\<rparr>]"
    using update_routing_table_eq [OF assms(1) i, of now] assms(2) by auto
  have len: "i < length (k_buckets st)" and ok: "bucket_ok (node_id st) i ?ns"
    using assms(1) index_less [OF i] by (auto simp: kad_inv_def)
  have inv: "kad_inv st'"
    using assms(1) bucket_ok_evicts [OF ok i] len by (auto simp: kad_inv_def st' nth_list_update)
  have mem: "kad_lookup st (kn_id nd) \<noteq> None \<longleftrightarrow> kn_id nd \<in> kn_id ` set ?ns"
  proof -
    have "kad_lookup st (kn_id nd) = None \<longleftrightarrow> \<not> (\<exists>x. x \<in> set ?ns \<and> kn_id x = kn_id nd)"
      by (simp add: kad_lookup_def i find_None_iff)
    then show ?thesis by (simp only: image_iff Bex_def) (metis (no_types))
  qed
  have ne: "?ns \<noteq> []" if "\<not> length ?ns < K" using that by (auto simp: K_def)
  have "kad_lookup st' m =
      (let ns = ?ns
       in if length ns < K \<or> kad_lookup st (kn_id nd) \<noteq> None then (kad_lookup st)(kn_id nd \<mapsto> nd)
          else if fst (ping_node now (last ns) st) then kad_lookup st
          else (kad_lookup st)(kn_id (last ns) := None, kn_id nd \<mapsto> nd)) m" for m
  proof (cases "get_bucket_index (node_id st) m = Some i")
    case True
    have "distinct (map kn_id ?ns)" using ok by (simp add: bucket_ok_def)
    note fb = find_butlast_id [OF this]
    show ?thesis
      unfolding mem using True len ne fb
      by (auto simp: kad_lookup_def st' evicts_def Let_def find_filter_id)
  next
    case False
    then have "m \<noteq> kn_id nd" using i by auto
    moreover have "m \<noteq> kn_id (last ?ns)" if "\<not> length ?ns < K"
      using False ok ne [OF that] by (auto simp: bucket_ok_def list_all_iff)
    ultimately show ?thesis
      using False by (auto simp: kad_lookup_def st' Let_def split: option.splits)
  qed
  then show thesis by (intro that [OF i inv st'(1)]) (rule ext)
qed

section \<open>Reachable tables\<close>

lemma kad_inv_new: "kad_inv (p2p_new r)"
  by (simp add: kad_inv_def p2p_new_def bucket_ok_def)

lemma refresh_loop_locked:
  "buckets_locked st \<Longrightarrow>
   refresh_loop pick now is st = (if list_ex (\<lambda>i. is_stale now (k_buckets st ! i)) is then Inl Deadlock else Inr st)"
  by (induction "is") (simp_all add: find_closest_nodes_def)

lemma refresh_buckets_eq:
  assumes "\<not> buckets_locked st"
  shows "refresh_buckets pick now st = (if list_ex (is_stale now) (k_buckets st) then Inl Deadlock else Inr st)"
proof -
  have "list_ex (\<lambda>i. is_stale now (k_buckets st ! i)) [0..<length (k_buckets st)] \<longleftrightarrow> list_ex (is_stale now) (k_buckets st)"
    by (auto simp: list_ex_length)
  moreover have "st\<lparr>buckets_locked := False\<rparr> = st" using assms by (cases st) simp
  ultimately show ?thesis
    using assms by (simp add: refresh_buckets_def refresh_loop_locked)
qed

inductive kad_reach :: "u64 \<Rightarrow> p2p \<Rightarrow> bool" for r where
  kad_init: "kad_reach r (p2p_new r)"
| kad_update: "kad_reach r st \<Longrightarrow> update_routing_table now nd st = Inr st' \<Longrightarrow> kad_reach r st'"
| kad_refresh: "kad_reach r st \<Longrightarrow> refresh_buckets pick now st = Inr st' \<Longrightarrow> kad_reach r st'"

lemma kad_reach_inv: "kad_reach r st \<Longrightarrow> kad_inv st \<and> node_id st = generate_node_id r"
proof (induction rule: kad_reach.induct)
  case kad_init
  show ?case by (simp add: kad_inv_new) (simp add: p2p_new_def)
next
  case (kad_update st now nd st')
  then show ?case by (metis update_routing_table_map)
next
  case (kad_refresh st pick now st')
  then show ?case by (auto simp: refresh_buckets_eq kad_inv_def split: if_splits)
qed

lemma distinct_concat_index:
  "\<lbrakk>\<forall>i<length xss. distinct (xss ! i);
    \<forall>i<length xss. \<forall>j<length xss. i \<noteq> j \<longrightarrow> set (xss ! i) \<inter> set (xss ! j) = {}\<rbrakk> \<Longrightarrow> distinct (concat xss)"
proof (induction xss)
  case (Cons xs xss)
  have "set xs \<inter> set ys = {}" if "ys \<in> set xss" for ys
  proof -
    from that obtain j where "j < length xss" "ys = xss ! j" by (auto simp: in_set_conv_nth)
    with Cons.prems(2) [rule_format, of 0 "Suc j"] show ?thesis by simp
  qed
  moreover have "distinct (concat xss)"
  proof (rule Cons.IH)
    show "\<forall>i<length xss. distinct (xss ! i)" using Cons.prems(1) by auto
    show "\<forall>i<length xss. \<forall>j<length xss. i \<noteq> j \<longrightarrow> set (xss ! i) \<inter> set (xss ! j) = {}"
      using Cons.prems(2) by (metis Suc_less_eq length_Cons nat.inject nth_Cons_Suc)
  qed
  moreover have "distinct xs" using Cons.prems(1) [rule_format, of 0] by simp
  ultimately show ?case by auto
qed simp

lemma distinct_buckets:
  assumes "kad_inv st"
  shows "distinct (map kn_id (all_nodes st))"
proof -
  let ?f = "\<lambda>b. map kn_id (kb_nodes b)"
  have "distinct (concat (map ?f (k_buckets st)))"
  proof (rule distinct_concat_index; intro allI impI)
    fix i assume "i < length (map ?f (k_buckets st))"
    then show "distinct (map ?f (k_buckets st) ! i)" using assms by (auto simp: kad_inv_def bucket_ok_def)
  next
    fix i j assume ij: "i < length (map ?f (k_buckets st))" "j < length (map ?f (k_buckets st))" "i \<noteq> j"
    have "get_bucket_index (node_id st) x = Some k" if "x \<in> set (map ?f (k_buckets st) ! k)" "k < length (k_buckets st)" for x k
      using that assms by (auto simp: kad_inv_def bucket_ok_def list_all_iff)
    with ij show "set (map ?f (k_buckets st) ! i) \<inter> set (map ?f (k_buckets st) ! j) = {}"
      by (metis (no_types, lifting) disjoint_iff length_map option.inject)
  qed
  then show ?thesis by (simp add: all_nodes_def map_concat comp_def)
qed

section \<open>The bounded queue\<close>

lemma pq_pop_mset:
  assumes "pq_top_ok pick" "q \<noteq> []"
  shows "mset q = add_mset (q ! pick d q) (mset (pq_pop pick d q))"
proof -
  have "pick d q < length q" using assms by (simp add: pq_top_ok_def)
  then have "q = take (pick d q) q @ q ! pick d q # drop (Suc (pick d q)) q" by (rule id_take_nth_drop)
  then have "mset q = mset (take (pick d q) q @ q ! pick d q # drop (Suc (pick d q)) q)" by (rule arg_cong)
  then show ?thesis by (simp add: pq_pop_def Let_def)
qed

lemma pq_top_max: "pq_top_ok pick \<Longrightarrow> y \<in> set q \<Longrightarrow> the (d y) \<le> the (d (q ! pick d q))"
  unfolding pq_top_ok_def by (metis empty_iff list.set(1))

text \<open>The queue holds the nearest nodes seen so far, the others (\<open>rest\<close>) are no nearer.\<close>

definition nearest :: "(knode \<Rightarrow> u64 option) \<Rightarrow> nat \<Rightarrow> knode list \<Rightarrow> knode list \<Rightarrow> bool" where
  "nearest d cnt seen q \<longleftrightarrow> length q = min cnt (length seen) \<and>
     (\<exists>rest. mset seen = mset q + mset rest \<and> (\<forall>x \<in> set q. \<forall>y \<in> set rest. the (d x) \<le> the (d y)))"

lemma nearest_step:
  assumes "pq_top_ok pick" "nearest d cnt seen q"
  shows "nearest d cnt (seen @ [nd]) (if length (q @ [nd]) > cnt then pq_pop pick d (q @ [nd]) else q @ [nd])"
proof -
  from assms(2) obtain rest where q: "length q = min cnt (length seen)" "mset seen = mset q + mset rest"
      and le: "\<And>x y. x \<in> set q \<Longrightarrow> y \<in> set rest \<Longrightarrow> the (d x) \<le> the (d y)"
    by (auto simp: nearest_def)
  show ?thesis
  proof (cases "length (q @ [nd]) > cnt")
    case False
    then have "length q = length seen" using q(1) by simp
    then have "rest = []" using arg_cong [OF q(2), of size] by simp
    then show ?thesis using False q by (auto simp: nearest_def intro!: exI [of _ "[]"])
  next
    case True
    let ?p = "q @ [nd]" let ?top = "?p ! pick d ?p"
    have m: "mset ?p = add_mset ?top (mset (pq_pop pick d ?p))" by (rule pq_pop_mset [OF assms(1)]) simp
    have set: "set ?p = insert ?top (set (pq_pop pick d ?p))"
      unfolding set_mset_mset [symmetric] m by (rule set_mset_add_mset_insert)
    have "length ?p = Suc (length (pq_pop pick d ?p))" unfolding size_mset [symmetric] m by simp
    then have len: "length (pq_pop pick d ?p) = length q" by simp
    have top: "the (d x) \<le> the (d ?top)" if "x \<in> set ?p" for x using that by (rule pq_top_max [OF assms(1)])
    have "the (d x) \<le> the (d y)" if "x \<in> set (pq_pop pick d ?p)" "y \<in> set rest" for x y
    proof (cases "x \<in> set q")
      case False
      then have x: "x = nd" "?top \<in> set ?p" using that(1) set by auto
      show ?thesis
      proof (cases "?top \<in> set q")
        case True
        have "x \<in> set ?p" using x(1) by simp
        from order_trans [OF top [OF this] le [OF True that(2)]] show ?thesis .
      next
        case False
        with x have "?top = nd" by auto
        with m have "mset q = mset (pq_pop pick d ?p)" by simp
        then have "set (pq_pop pick d ?p) = set q" by (metis mset_eq_setD)
        with that le show ?thesis by simp
      qed
    qed (use le that(2) in blast)
    moreover have "mset (seen @ [nd]) = mset (pq_pop pick d ?p) + mset (?top # rest)" using q(2) m by simp
    moreover have "the (d x) \<le> the (d ?top)" if "x \<in> set (pq_pop pick d ?p)" for x using top set that by blast
    moreover have "length (pq_pop pick d ?p) = min cnt (length (seen @ [nd]))" using True q(1) len by simp
    ultimately show ?thesis
      unfolding if_P [OF True] nearest_def by (metis set_ConsD)
  qed
qed

lemma collect_ok:
  "\<lbrakk>collect pick d cnt ns q = Inr q'; pq_top_ok pick; nearest d cnt seen q\<rbrakk> \<Longrightarrow> nearest d cnt (seen @ ns) q'"
proof (induction ns arbitrary: q seen)
  case (Cons nd ns)
  then have "pq_push d nd q = Inr (q @ [nd])" by (auto simp: pq_push_def split: if_splits)
  with Cons.prems have "collect pick d cnt ns (if length (q @ [nd]) > cnt then pq_pop pick d (q @ [nd]) else q @ [nd]) = Inr q'"
    by simp
  from Cons.IH [OF this Cons.prems(2) nearest_step [OF Cons.prems(2,3)]] show ?case by simp
qed simp

lemma drain_ok:
  assumes "pq_top_ok pick"
  shows "length q = n \<Longrightarrow> mset (drain pick d n q) = mset q \<and> sorted_wrt (\<lambda>x y. the (d y) \<le> the (d x)) (drain pick d n q)"
proof (induction n arbitrary: q)
  case (Suc n)
  then have "q \<noteq> []" by auto
  note m = pq_pop_mset [OF assms this, of d]
  have "length q = Suc (length (pq_pop pick d q))" unfolding size_mset [symmetric] m by simp
  then have "length (pq_pop pick d q) = n" using Suc.prems by simp
  note IH = Suc.IH [OF this]
  have "set (drain pick d n (pq_pop pick d q)) \<subseteq> set q"
    unfolding set_mset_mset [symmetric] m conjunct1 [OF IH] by auto
  then have "sorted_wrt (\<lambda>x y. the (d y) \<le> the (d x)) (drain pick d (Suc n) q)"
    using IH pq_top_max [OF assms] by (simp add: subset_iff)
  moreover have "mset (drain pick d (Suc n) q) = mset q" using IH m by simp
  ultimately show ?case by blast
qed simp

lemma find_closest_nodes_ok:
  assumes "pq_top_ok pick" "find_closest_nodes pick target cnt st = Inr res"
  shows "nearest (\<lambda>n. calculate_id_distance target (kn_id n)) cnt (all_nodes st) res
    \<and> sorted_wrt (\<lambda>x y. the (calculate_id_distance target (kn_id x)) \<le> the (calculate_id_distance target (kn_id y))) res"
proof -
  let ?d = "\<lambda>n. calculate_id_distance target (kn_id n)"
  from assms(2) obtain q where q: "collect pick ?d cnt (all_nodes st) [] = Inr q" "res = rev (drain pick ?d (length q) q)"
    by (auto simp: find_closest_nodes_def Let_def split: sum.splits if_splits)
  have "nearest ?d cnt [] []" by (simp add: nearest_def)
  from collect_ok [OF q(1) assms(1) this] have "nearest ?d cnt (all_nodes st) q" by simp
  moreover have dr: "mset (drain pick ?d (length q) q) = mset q"
      "sorted_wrt (\<lambda>x y. the (?d y) \<le> the (?d x)) (drain pick ?d (length q) q)"
    using drain_ok [OF assms(1) refl, of ?d q] by blast+
  moreover have "mset res = mset q" "length res = length q" "set res = set q"
    using dr(1) mset_eq_length [OF dr(1)] mset_eq_setD [OF dr(1)] by (simp_all add: q(2))
  ultimately show ?thesis by (simp add: nearest_def q(2) sorted_wrt_rev)
qed

lemma collect_Inl:
  "(q = [] \<or> list_all (\<lambda>n. d n \<noteq> None) q) \<and> (length q \<le> cnt) \<Longrightarrow> cnt \<ge> 1 \<Longrightarrow> pq_top_ok pick \<Longrightarrow> q \<noteq> [] \<Longrightarrow>
   list_ex (\<lambda>n. d n = None) ns \<Longrightarrow> collect pick d cnt ns q = Inl Overflow_error"
proof (induction ns arbitrary: q)
  case (Cons nd ns)
  show ?case
  proof (cases "d nd = None")
    case True
    then show ?thesis using Cons.prems by (simp add: pq_push_def)
  next
    case False
    let ?p = "q @ [nd]"
    have ok: "list_all (\<lambda>n. d n \<noteq> None) ?p" using Cons.prems False by auto
    then have push: "pq_push d nd q = Inr ?p" by (auto simp: pq_push_def list_all_iff list_ex_iff)
    have m: "mset ?p = add_mset (?p ! pick d ?p) (mset (pq_pop pick d ?p))" by (rule pq_pop_mset [OF Cons.prems(3)]) simp
    have "length ?p = Suc (length (pq_pop pick d ?p))" unfolding size_mset [symmetric] m by simp
    then have len: "length (pq_pop pick d ?p) = length q" by simp
    have "set (pq_pop pick d ?p) \<subseteq> set ?p" unfolding set_mset_mset [symmetric] m by auto
    with ok have "list_all (\<lambda>n. d n \<noteq> None) (pq_pop pick d ?p)" by (auto simp: list_all_iff)
    moreover have "pq_pop pick d ?p \<noteq> []" using len Cons.prems(4) by auto
    moreover have "list_ex (\<lambda>n. d n = None) ns" using Cons.prems(5) False by simp
    ultimately show ?thesis
      using Cons.IH [of "?p"] Cons.IH [of "pq_pop pick d ?p"] ok push len Cons.prems by simp
  qed
qed simp

lemma collect_Inr:
  "pq_top_ok pick \<Longrightarrow> list_all (\<lambda>n. d n \<noteq> None) (q @ ns) \<Longrightarrow> collect pick d cnt ns q \<noteq> Inl e"
proof (induction ns arbitrary: q)
  case (Cons nd ns)
  let ?p = "q @ [nd]"
  have push: "pq_push d nd q = Inr ?p" using Cons.prems(2) by (auto simp: pq_push_def list_all_iff list_ex_iff)
  have m: "mset ?p = add_mset (?p ! pick d ?p) (mset (pq_pop pick d ?p))" by (rule pq_pop_mset [OF Cons.prems(1)]) simp
  have "set (pq_pop pick d ?p) \<subseteq> set ?p" unfolding set_mset_mset [symmetric] m by auto
  then have "list_all (\<lambda>n. d n \<noteq> None) (pq_pop pick d ?p @ ns)" using Cons.prems(2) by (auto simp: list_all_iff)
  then show ?case using Cons.IH [of "?p"] Cons.IH [of "pq_pop pick d ?p"] push Cons.prems by simp
qed simp

lemma collect_zero: "pq_top_ok pick \<Longrightarrow> collect pick d 0 ns [] = Inr []"
proof (induction ns)
  case (Cons nd ns)
  have "pick d [nd] < length [nd]" using Cons.prems unfolding pq_top_ok_def by blast
  then have "pick d [nd] = 0" by simp
  with Cons show ?case by (simp add: pq_push_def pq_pop_def)
qed simp

lemma collect_overflow:
  assumes "pq_top_ok pick"
  shows "collect pick d cnt ns [] = Inl e \<longleftrightarrow> e = Overflow_error \<and> 1 \<le> cnt \<and> 2 \<le> length ns \<and> list_ex (\<lambda>n. d n = None) ns"
proof (cases "cnt = 0 \<or> length ns < 2")
  case True
  then consider "cnt = 0" | "ns = []" | n where "ns = [n]" by (cases ns; cases "tl ns") auto
  then show ?thesis by cases (simp_all add: collect_zero [OF assms] pq_push_def)
next
  case False
  then obtain n ms where ns: "ns = n # ms" "ms \<noteq> []" by (cases ns) auto
  have first: "collect pick d cnt ns [] = collect pick d cnt ms [n]" using False by (simp add: ns pq_push_def)
  show ?thesis
  proof (cases "list_ex (\<lambda>n. d n = None) ns")
    case True
    have "collect pick d cnt ms [n] = Inl Overflow_error"
    proof (cases "d n = None")
      case True
      then show ?thesis using ns(2) by (cases ms) (simp_all add: pq_push_def)
    qed (use collect_Inl [of "[n]" d cnt pick ms] True False assms ns in auto)
    then show ?thesis unfolding first using True False by auto
  next
    case False
    then have "collect pick d cnt ns [] \<noteq> Inl e" by (intro collect_Inr [OF assms]) (simp add: list_all_iff list_ex_iff)
    with False show ?thesis by simp
  qed
qed

section \<open>A queue and a table for examples\<close>

fun heap_top :: pq_top where
  "heap_top d [] = 0"
| "heap_top d [x] = 0"
| "heap_top d (x # y # ys) =
     (let i = heap_top d (y # ys) in if the (d ((y # ys) ! i)) \<le> the (d x) then 0 else Suc i)"

lemma heap_top_max:
  "q \<noteq> [] \<Longrightarrow> heap_top d q < length q \<and> (\<forall>y \<in> set q. the (d y) \<le> the (d (q ! heap_top d q)))"
proof (induction d q rule: heap_top.induct)
  case (3 d x y ys)
  then have IH: "heap_top d (y # ys) < length (y # ys)"
      "\<forall>z \<in> set (y # ys). the (d z) \<le> the (d ((y # ys) ! heap_top d (y # ys)))" by simp_all
  show ?case
  proof (cases "the (d ((y # ys) ! heap_top d (y # ys))) \<le> the (d x)")
    case True
    have "the (d z) \<le> the (d x)" if "z \<in> set (y # ys)" for z
      by (rule order_trans [OF bspec [OF IH(2) that] True])
    moreover have "heap_top d (x # y # ys) = 0" unfolding heap_top.simps Let_def if_P [OF True] ..
    ultimately show ?thesis by simp
  next
    case False
    have i: "heap_top d (x # y # ys) = Suc (heap_top d (y # ys))" unfolding heap_top.simps Let_def if_not_P [OF False] ..
    have "the (d x) \<le> the (d ((y # ys) ! heap_top d (y # ys)))" using False by (simp only: not_le less_imp_le)
    then show ?thesis unfolding i using IH by simp
  qed
qed simp_all

lemma heap_top_ok: "pq_top_ok heap_top"
  unfolding pq_top_ok_def using heap_top_max by blast

definition example_node :: "string \<Rightarrow> knode" where
  "example_node s = \<lparr>kn_id = s, kn_address = ''10.0.0.1'', kn_port = 30303, kn_last_seen = 5, kn_is_validator = False\<rparr>"

definition example_table :: p2p where
  "example_table = (p2p_new 0)\<lparr>k_buckets := [\<lparr>kb_nodes = map example_node [''a'', ''d'', ''b''], kb_last_updated = 0\<rparr>]\<rparr>"

lemma get_bucket_index_self [simp]: "get_bucket_index s s = Some 0"
proof -
  have "xor_chars 0 s s 0 = 0" by (rule bit_eqI) (simp add: bit_xor_chars differ_at_def)
  then show ?thesis by (simp add: get_bucket_index_def calculate_id_distance_def to_ulong_def)
qed

lemma ID_LENGTH_pos: "0 < ID_LENGTH"
  by (simp add: ID_LENGTH_def)

lemma example_update:
  "update_routing_table 7 (example_node (generate_node_id r)) (p2p_new r) =
     Inr ((p2p_new r)\<lparr>k_buckets :=
       (replicate ID_LENGTH \<lparr>kb_nodes = [], kb_last_updated = 0\<rparr>)[0 :=
          \<lparr>kb_nodes = [example_node (generate_node_id r)], kb_last_updated = 7\<rparr>]\<rparr>)"
  by (simp add: update_routing_table_def p2p_new_def example_node_def Let_def K_def ID_LENGTH_pos)

section \<open>Properties\<close>

text \<open>
  C22: in every reachable routing table of a node each of the 160 buckets has at most twenty nodes, no
  identifier occurs twice in the whole table, every node is in the bucket of its distance, and the
  buckets 1 to 95 stay empty.
\<close>

theorem kademlia_invariant:
  assumes "kad_reach r st"
  shows "length (k_buckets st) = 160 \<and> distinct (map kn_id (all_nodes st)) \<and>
    (\<forall>i<160. length (kb_nodes (k_buckets st ! i)) \<le> 20
       \<and> (\<forall>n \<in> set (kb_nodes (k_buckets st ! i)). get_bucket_index (node_id st) (kn_id n) = Some i)
       \<and> (0 < i \<and> i < 96 \<longrightarrow> kb_nodes (k_buckets st ! i) = []))"
proof -
  have inv: "kad_inv st" using kad_reach_inv [OF assms] by blast
  have b: "bucket_ok (node_id st) i (kb_nodes (k_buckets st ! i))" if "i < 160" for i
    using inv that by (simp add: kad_inv_def ID_LENGTH_def)
  have "kb_nodes (k_buckets st ! i) = []" if "0 < i" "i < 96" for i
  proof (rule ccontr)
    assume "kb_nodes (k_buckets st ! i) \<noteq> []"
    then have "get_bucket_index (node_id st) (kn_id (hd (kb_nodes (k_buckets st ! i)))) = Some i"
      using b [of i] that by (simp add: bucket_ok_def list_all_iff)
    from bucket_index_range [OF this] that show False by simp
  qed
  with inv b distinct_buckets [OF inv] show ?thesis
    by (auto simp: kad_inv_def ID_LENGTH_def bucket_ok_def K_def list_all_iff)
qed

theorem kademlia_invariant_witness:
  "length (k_buckets (projr (update_routing_table 7 (example_node (generate_node_id 9)) (p2p_new 9)))) = 160
   \<and> kb_nodes (k_buckets (projr (update_routing_table 7 (example_node (generate_node_id 9)) (p2p_new 9))) ! 50) = []"
proof -
  have "kad_reach 9 (projr (update_routing_table 7 (example_node (generate_node_id 9)) (p2p_new 9)))"
    by (rule kad_update [OF kad_init, where now = 7 and nd = "example_node (generate_node_id 9)"])
      (simp add: example_update)
  from kademlia_invariant [OF this] show ?thesis by simp
qed

text \<open>
  C23: on a table that satisfies the invariant a successful update of a node is the update of the map
  from identifiers to nodes; only when the node is new and its bucket holds twenty nodes the oldest
  of them is pinged: it is replaced when it does not answer, and otherwise nothing changes.
\<close>

theorem routing_update_refines:
  assumes "kad_inv st" "update_routing_table now nd st = Inr st'"
  shows "\<exists>i. get_bucket_index (node_id st) (kn_id nd) = Some i \<and> kad_inv st' \<and>
    kad_lookup st' =
      (let ns = kb_nodes (k_buckets st ! i)
       in if length ns < 20 \<or> kad_lookup st (kn_id nd) \<noteq> None then (kad_lookup st)(kn_id nd \<mapsto> nd)
          else if fst (ping_node now (last ns) st) then kad_lookup st
          else (kad_lookup st)(kn_id (last ns) := None, kn_id nd \<mapsto> nd))"
  using update_routing_table_map [OF assms] unfolding K_def by metis

theorem routing_update_refines_witness:
  "kad_inv (p2p_new 9) \<and>
   kad_lookup (projr (update_routing_table 7 (example_node (generate_node_id 9)) (p2p_new 9))) (generate_node_id 9)
     = Some (example_node (generate_node_id 9))"
proof -
  have "update_routing_table 7 (example_node (generate_node_id 9)) (p2p_new 9)
      = Inr (projr (update_routing_table 7 (example_node (generate_node_id 9)) (p2p_new 9)))"
    by (simp add: example_update)
  from routing_update_refines [OF kad_inv_new this] obtain i where
    i: "get_bucket_index (node_id (p2p_new 9)) (kn_id (example_node (generate_node_id 9))) = Some i"
    and l: "kad_lookup (projr (update_routing_table 7 (example_node (generate_node_id 9)) (p2p_new 9))) =
      (let ns = kb_nodes (k_buckets (p2p_new 9) ! i)
       in if length ns < 20 \<or> kad_lookup (p2p_new 9) (kn_id (example_node (generate_node_id 9))) \<noteq> None
          then (kad_lookup (p2p_new 9))(kn_id (example_node (generate_node_id 9)) \<mapsto> example_node (generate_node_id 9))
          else if fst (ping_node 7 (last ns) (p2p_new 9)) then kad_lookup (p2p_new 9)
          else (kad_lookup (p2p_new 9))(kn_id (last ns) := None,
                  kn_id (example_node (generate_node_id 9)) \<mapsto> example_node (generate_node_id 9)))"
    by blast
  have "i < ID_LENGTH" using i by (rule index_less)
  then have "kb_nodes (k_buckets (p2p_new 9) ! i) = []" by (simp add: p2p_new_def)
  then show ?thesis unfolding l by (simp add: Let_def kad_inv_new example_node_def)
qed

text \<open>
  C25: a search that returns gives the requested number of nodes of the table, or all of them, in the
  order of their distance from the target, and no node left out is nearer than one returned, for
  every order in which the queue breaks ties.  It throws exactly when at least one of two or more
  nodes has an undefined distance.
\<close>

theorem routing_search_nearest:
  assumes "pq_top_ok pick" "\<not> buckets_locked st"
  shows "case find_closest_nodes pick target cnt st of
    Inl e \<Rightarrow> e = Overflow_error \<and> 1 \<le> cnt \<and> 2 \<le> length (all_nodes st)
      \<and> list_ex (\<lambda>n. calculate_id_distance target (kn_id n) = None) (all_nodes st)
  | Inr res \<Rightarrow>
    (cnt = 0 \<or> length (all_nodes st) < 2 \<or> list_all (\<lambda>n. calculate_id_distance target (kn_id n) \<noteq> None) (all_nodes st)) \<and>
    length res = min cnt (length (all_nodes st)) \<and>
    sorted (map (\<lambda>n. the (calculate_id_distance target (kn_id n))) res) \<and>
    (\<exists>rest. mset (all_nodes st) = mset res + mset rest \<and>
       (\<forall>x \<in> set res. \<forall>y \<in> set rest.
          the (calculate_id_distance target (kn_id x)) \<le> the (calculate_id_distance target (kn_id y))))"
proof (cases "find_closest_nodes pick target cnt st")
  case (Inl e)
  then have "collect pick (\<lambda>n. calculate_id_distance target (kn_id n)) cnt (all_nodes st) [] = Inl e"
    using assms(2) by (auto simp: find_closest_nodes_def Let_def split: sum.splits)
  with Inl show ?thesis by (simp add: collect_overflow [OF assms(1)])
next
  case (Inr res)
  then have "collect pick (\<lambda>n. calculate_id_distance target (kn_id n)) cnt (all_nodes st) [] \<noteq> Inl Overflow_error"
    using assms(2) by (auto simp: find_closest_nodes_def Let_def)
  then have "cnt = 0 \<or> length (all_nodes st) < 2 \<or> list_all (\<lambda>n. calculate_id_distance target (kn_id n) \<noteq> None) (all_nodes st)"
    unfolding collect_overflow [OF assms(1)] by (auto simp: list_ex_iff list_all_iff)
  with find_closest_nodes_ok [OF assms(1) Inr] show ?thesis by (simp add: Inr nearest_def sorted_map)
qed

theorem routing_search_nearest_witness:
  "find_closest_nodes heap_top ''a'' 2 example_table = Inr [example_node ''a'', example_node ''b''] \<and>
   length [example_node ''a'', example_node ''b''] = min 2 (length (all_nodes example_table))"
proof -
  have d: "calculate_id_distance ''a'' ''a'' = Some 0" "calculate_id_distance ''a'' ''d'' = Some 5"
      "calculate_id_distance ''a'' ''b'' = Some 3" by code_simp+
  let ?d = "\<lambda>n. calculate_id_distance ''a'' (kn_id n)"
  have nodes: "all_nodes example_table = [example_node ''a'', example_node ''d'', example_node ''b'']"
    by (simp add: all_nodes_def example_table_def)
  have q: "collect heap_top ?d 2 (all_nodes example_table) [] = Inr [example_node ''a'', example_node ''b'']"
    unfolding nodes by (simp add: pq_push_def pq_pop_def d example_node_def)
  have dr: "drain heap_top ?d (Suc (Suc 0)) [example_node ''a'', example_node ''b''] = [example_node ''b'', example_node ''a'']"
    by (simp add: pq_pop_def d example_node_def)
  have l: "\<not> buckets_locked example_table" by (simp add: example_table_def p2p_new_def)
  have e: "find_closest_nodes heap_top ''a'' 2 example_table = Inr [example_node ''a'', example_node ''b'']"
    unfolding find_closest_nodes_def Let_def q using l dr by simp
  from routing_search_nearest [OF heap_top_ok l, of 2 "''a''"] show ?thesis unfolding e by simp
qed

text \<open>
  C39: the distance of two identifiers that the program generates from random numbers is undefined, and
  the conversion throws, exactly when the low 32 bits of the numbers differ; a table of such a node
  then rejects the other node.
\<close>

theorem generated_ids_overflow:
  "(calculate_id_distance (generate_node_id r) (generate_node_id s) = None) = (take_bit 32 r \<noteq> take_bit 32 s) \<and>
   (take_bit 32 r = take_bit 32 s
    \<or> update_routing_table now \<lparr>kn_id = generate_node_id s, kn_address = a, kn_port = p, kn_last_seen = t, kn_is_validator = v\<rparr>
        (p2p_new r) = Inl Overflow_error)"
  using generated_distance_None [of r s]
  by (auto simp: update_routing_table_def p2p_new_def get_bucket_index_def)

text \<open>
  C38: where the identifier that a refresh looks up really belongs: in its bucket only for the
  buckets 0 and 128.
\<close>

theorem refresh_target_bucket:
  assumes "length nid = 16" "bi < 160"
  shows "get_bucket_index nid (generate_random_id_in_bucket bi nid) =
    (if bi \<le> 32 then Some 0 else if bi \<le> 96 then None else if bi = 153 then Some 159
     else if (160 - bi) mod 8 = 7 then None else Some (256 - bi))"
  by (rule refresh_target_index [OF assms])

theorem refresh_target_bucket_witness:
  "get_bucket_index (replicate 16 CHR ''0'') (generate_random_id_in_bucket 130 (replicate 16 CHR ''0'')) = Some 126"
  using refresh_target_bucket [of "replicate 16 CHR ''0''" 130] by simp

text \<open>a refresh changes nothing while every bucket is younger than an hour, and locks its mutex twice as soon as one is not.\<close>

theorem refresh_deadlocks:
  assumes "\<not> buckets_locked st"
  shows "refresh_buckets pick now st = (if list_ex (is_stale now) (k_buckets st) then Inl Deadlock else Inr st)"
  by (rule refresh_buckets_eq [OF assms])

theorem refresh_deadlocks_witness:
  "\<not> buckets_locked (p2p_new 0) \<and> refresh_buckets heap_top 3600000000000 (p2p_new 0) = Inl Deadlock"
  using refresh_deadlocks [of "p2p_new 0" heap_top 3600000000000]
  by (simp add: p2p_new_def is_stale_def list_ex_iff ID_LENGTH_def)

end
