(* ===== verification/P2P_Network.thy ===== *)
theory P2P_Network
  imports Kademlia_Table
begin

text \<open>
  The operations of \<^verbatim>\<open>network/P2PNetwork.cpp\<close> over the connections and the routing table: start and
  stop, connecting to a peer given as text, message handlers and validators.  The router's answer
  to a port mapping and whether a socket opens are arguments.  The thread that \<^verbatim>\<open>discover_peers\<close> starts
  adds the peers of the connections, of which there are none.
\<close>

section \<open>Addresses\<close>

text \<open>\<^verbatim>\<open>std::stoi\<close>; both exceptions are \<^term>\<open>None\<close>.\<close>

definition stoi :: "string \<Rightarrow> int option" where
  "stoi s =
     (let s1 = dropWhile isspace s;
          neg = (s1 \<noteq> [] \<and> hd s1 = CHR ''-'');
          s2 = (if s1 \<noteq> [] \<and> (hd s1 = CHR ''-'' \<or> hd s1 = CHR ''+'') then tl s1 else s1);
          ds = takeWhile is_digit_char s2;
          v = (if neg then - int (parse_digits 0 ds) else int (parse_digits 0 ds))
      in if ds = [] \<or> v < - (2 ^ 31) \<or> v \<ge> 2 ^ 31 then None else Some v)"

section \<open>Operations\<close>

definition handle_peer_connection :: "string \<Rightarrow> p2p \<Rightarrow> p2p" where
  "handle_peer_connection peer_address st = st\<lparr>connected_peers := connected_peers st @ [peer_address]\<rparr>"

definition handle_peer_disconnection :: "string \<Rightarrow> p2p \<Rightarrow> p2p" where
  "handle_peer_disconnection peer_address st = st\<lparr>connected_peers := remove1 peer_address (connected_peers st)\<rparr>"

definition connect_to_peer :: "(u16 \<Rightarrow> bool) \<Rightarrow> string \<Rightarrow> p2p \<Rightarrow> bool \<times> p2p" where
  "connect_to_peer upnp peer_address st =
     (if \<not> running st then (False, st)
      else case find_char CHR '':'' peer_address of
        None \<Rightarrow> (False, st)
      | Some pos \<Rightarrow>
          (let ip = substr 0 (Some pos) peer_address
           in case stoi (substr (pos + 1) None peer_address) of
                None \<Rightarrow> (False, st)
              | Some n \<Rightarrow>
                  (let port = of_int n
                   in case map_of (connections st) ''main'' of
                        None \<Rightarrow> (False, st)
                      | Some main_connection \<Rightarrow>
                          if perform_nat_traversal upnp ip port then (True, handle_peer_connection peer_address st)
                          else (False, st))))"

definition network_start :: "(u16 \<Rightarrow> bool) \<Rightarrow> bool \<Rightarrow> string list \<Rightarrow> int \<Rightarrow> p2p \<Rightarrow> p2p" where
  "network_start upnp opens bootstrap_nodes now st =
     (if running st then st
      else let (started, connection) = conn_start opens (conn_new now)
           in if \<not> started then st
              else let st = st\<lparr>connections := AList.update ''main'' connection (connections st)\<rparr>;
                       st = fold (\<lambda>addr st. snd (connect_to_peer upnp addr st)) bootstrap_nodes st
                   in st\<lparr>running := True\<rparr>)"

text \<open>The connections are stopped and then released.\<close>

definition network_stop :: "p2p \<Rightarrow> p2p" where
  "network_stop st =
     (if \<not> running st then st
      else let st = st\<lparr>connections := map (\<lambda>(k, c). (k, conn_stop c)) (connections st)\<rparr>
           in st\<lparr>connections := [], running := False\<rparr>)"

definition get_connected_peers :: "p2p \<Rightarrow> (string \<times> string \<times> u16) list" where
  "get_connected_peers st = concat (map (\<lambda>(k, c). conn_get_connected_peers c) (connections st))"

definition register_message_handler :: "string \<Rightarrow> p2p \<Rightarrow> p2p" where
  "register_message_handler topic st =
     (let st = st\<lparr>message_handlers := List.insert topic (message_handlers st)\<rparr>
      in st\<lparr>connections := map (\<lambda>(k, c). (k, conn_set_message_handler topic c)) (connections st)\<rparr>)"

definition register_as_validator :: "string \<Rightarrow> p2p \<Rightarrow> bool \<times> p2p" where
  "register_as_validator validator_key st = (True, st\<lparr>is_validator := True\<rparr>)"

section \<open>Reachable networks\<close>

inductive net_step :: "p2p \<Rightarrow> p2p \<Rightarrow> bool" where
  net_start: "net_step st (network_start upnp opens bootstrap now st)"
| net_stop: "net_step st (network_stop st)"
| net_connect: "net_step st (snd (connect_to_peer upnp addr st))"
| net_disconnect: "net_step st (handle_peer_disconnection addr st)"
| net_handler: "net_step st (register_message_handler topic st)"
| net_validator: "net_step st (snd (register_as_validator key st))"
| net_update: "update_routing_table now nd st = Inr st' \<Longrightarrow> net_step st st'"
| net_refresh: "refresh_buckets pick now st = Inr st' \<Longrightarrow> net_step st st'"

inductive net_reach :: "u64 \<Rightarrow> p2p \<Rightarrow> bool" for r where
  net_init: "net_reach r (p2p_new r)"
| net_next: "net_reach r st \<Longrightarrow> net_step st st' \<Longrightarrow> net_reach r st'"

inductive_cases net_stepE: "net_step st st'"

definition unconnected :: "p2p \<Rightarrow> bool" where
  "unconnected st \<longleftrightarrow> list_all (\<lambda>(k, c). \<not> pc_connected c) (connections st)"

definition net_inv :: "p2p \<Rightarrow> bool" where
  "net_inv st \<longleftrightarrow> kad_inv st \<and> unconnected st \<and> (running st \<longrightarrow> map_of (connections st) ''main'' \<noteq> None)"

named_theorems net_ops \<open>definitions of the network operations\<close>

lemmas [net_ops] = conn_new_def conn_start_def conn_stop_def conn_set_message_handler_def
  handle_peer_connection_def handle_peer_disconnection_def

lemma connect_to_peer_frame:
  "connections (snd (connect_to_peer upnp addr st)) = connections st"
  "running (snd (connect_to_peer upnp addr st)) = running st"
  "node_id (snd (connect_to_peer upnp addr st)) = node_id st"
  "k_buckets (snd (connect_to_peer upnp addr st)) = k_buckets st"
  "buckets_locked (snd (connect_to_peer upnp addr st)) = buckets_locked st"
  by (simp_all add: connect_to_peer_def net_ops Let_def split: option.splits)

lemma bootstrap_idle:
  "\<not> running st \<Longrightarrow> fold (\<lambda>addr st. snd (connect_to_peer upnp addr st)) addrs st = st"
  by (induction addrs) (simp_all add: connect_to_peer_def)

lemma network_start_eq:
  "network_start upnp opens addrs now st =
     (if running st \<or> \<not> opens then st
      else st\<lparr>connections := AList.update ''main'' (conn_new now\<lparr>pc_open := True\<rparr>) (connections st), running := True\<rparr>)"
  by (simp add: network_start_def bootstrap_idle conn_start_def Let_def) (simp add: conn_new_def)

lemma list_all_alist_update: "list_all P al \<Longrightarrow> P (k, c) \<Longrightarrow> list_all P (AList.update k c al)"
  by (induction al) auto

lemma unconnected_update:
  "unconnected st \<Longrightarrow> \<not> pc_connected c \<Longrightarrow> unconnected (st\<lparr>connections := AList.update k c (connections st)\<rparr>)"
  by (simp add: unconnected_def list_all_alist_update)

lemma ping_unconnected: "unconnected st \<Longrightarrow> \<not> fst (ping_node now nd st)"
  by (auto simp: unconnected_def ping_node_def conn_ping_def conn_new_def list_all_iff Let_def
      dest!: map_of_SomeD split: option.splits)

lemma ping_node_keeps:
  "unconnected st \<Longrightarrow> unconnected (snd (ping_node now nd st))"
  "running (snd (ping_node now nd st)) = running st"
  "map_of (connections st) k \<noteq> None \<Longrightarrow> map_of (connections (snd (ping_node now nd st))) k \<noteq> None"
  by (auto simp: ping_node_def Let_def unconnected_update conn_new_def update_conv' split: option.splits)

lemma update_routing_table_connections:
  assumes "update_routing_table now nd st = Inr st'"
  shows "running st' = running st \<and> (connections st' = connections st \<or> (\<exists>old. connections st' = connections (snd (ping_node now old st))))"
proof -
  from assms obtain i where i: "get_bucket_index (node_id st) (kn_id nd) = Some i" "\<not> buckets_locked st"
    by (auto simp: update_routing_table_def split: option.splits if_splits)
  let ?ns = "filter (\<lambda>n. kn_id n \<noteq> kn_id nd) (kb_nodes (k_buckets st ! i))"
  show ?thesis
  proof (cases "length ?ns < K")
    case False
    with assms i have "\<exists>b. st' = (snd (ping_node now (last ?ns) st))\<lparr>k_buckets := b\<rparr>"
      by (auto simp: update_routing_table_def Let_def case_prod_beta)
    then show ?thesis by (auto simp: ping_node_keeps)
  qed (use assms i in \<open>auto simp: update_routing_table_def Let_def\<close>)
qed

lemma net_inv_update:
  assumes "net_inv st" "update_routing_table now nd st = Inr st'"
  shows "net_inv st'"
proof -
  have "kad_inv st'" using assms by (metis net_inv_def update_routing_table_map)
  moreover from update_routing_table_connections [OF assms(2)] consider
      "running st' = running st" "connections st' = connections st"
    | old where "running st' = running st" "connections st' = connections (snd (ping_node now old st))" by blast
  then have "unconnected st' \<and> (running st' \<longrightarrow> map_of (connections st') ''main'' \<noteq> None)"
  proof cases
    case 1
    then show ?thesis using assms(1) by (simp add: net_inv_def unconnected_def)
  next
    case (2 old)
    have "unconnected (snd (ping_node now old st))" using assms(1) by (intro ping_node_keeps) (simp add: net_inv_def)
    with 2 assms(1) ping_node_keeps(3) [of st "''main''" now old] show ?thesis by (auto simp: net_inv_def unconnected_def)
  qed
  ultimately show ?thesis by (simp add: net_inv_def)
qed

lemma map_of_map_snd: "map_of (map (\<lambda>(k, c). (k, f c)) al) k = map_option f (map_of al k)"
  by (induction al) auto

lemma net_inv_step: "net_step st st' \<Longrightarrow> net_inv st \<Longrightarrow> net_inv st'"
proof (induction rule: net_step.induct)
  case (net_start st upnp opens addrs now)
  then show ?case
    by (auto simp: network_start_eq net_inv_def kad_inv_def update_conv' unconnected_def conn_new_def
        intro!: list_all_alist_update)
next
  case (net_handler st topic)
  then show ?case
    by (auto simp: register_message_handler_def net_inv_def kad_inv_def unconnected_def map_of_map_snd
        list_all_iff conn_set_message_handler_def)
next
  case (net_update now nd st st')
  then show ?case by (blast intro: net_inv_update)
next
  case (net_refresh pick now st st')
  then show ?case by (auto simp: refresh_buckets_eq net_inv_def kad_inv_def split: if_splits)
qed (auto simp: network_stop_def connect_to_peer_frame handle_peer_disconnection_def register_as_validator_def
    net_inv_def kad_inv_def unconnected_def)

lemma net_reach_inv: "net_reach r st \<Longrightarrow> net_inv st"
proof (induction rule: net_reach.induct)
  case net_init
  show ?case by (simp add: net_inv_def kad_inv_new unconnected_def) (simp add: p2p_new_def)
qed (blast intro: net_inv_step)

lemma stoi_digits:
  assumes "list_all is_digit_char ds" "ds \<noteq> []" "parse_digits 0 ds < 2 ^ 31"
  shows "stoi ds = Some (int (parse_digits 0 ds))"
proof -
  obtain c cs where ds: "ds = c # cs" using assms(2) by (cases ds) auto
  have c: "is_digit_char c" using assms(1) ds by simp
  have "dropWhile isspace ds = ds" using c isspace_not_digit by (simp add: ds)
  moreover have "hd ds \<noteq> CHR ''-'' \<and> hd ds \<noteq> CHR ''+''" using digit_not_sign [OF c] ds by simp
  ultimately show ?thesis
    using assms by (simp add: stoi_def Let_def takeWhile_all)
qed

lemma find_char_append: "c \<notin> set s \<Longrightarrow> find_char c (s @ c # t) = Some (length s)"
  by (induction s) auto

section \<open>Properties\<close>

text \<open>
  C24: no connection of a reachable network is ever connected, so the list of connected peers is
  empty and every ping fails; therefore an update of the routing table that does not throw always
  stores its node, a full bucket giving up its oldest node for it.  (An update throws when the
  distance of the node to the own identifier is undefined.)
\<close>

theorem network_never_connected:
  assumes "net_reach r st"
  shows "get_connected_peers st = [] \<and> list_all (\<lambda>(k, c). \<not> pc_connected c) (connections st) \<and>
    (\<forall>now nd. \<not> fst (ping_node now nd st)) \<and>
    (\<forall>now nd st'. update_routing_table now nd st = Inr st' \<longrightarrow> kad_lookup st' (kn_id nd) = Some nd)"
proof -
  have inv: "kad_inv st" "unconnected st" using net_reach_inv [OF assms] by (simp_all add: net_inv_def)
  have "kad_lookup st' (kn_id nd) = Some nd" if "update_routing_table now nd st = Inr st'" for now nd st'
    by (rule update_routing_table_map [OF inv(1) that]) (use ping_unconnected [OF inv(2)] in \<open>simp add: Let_def\<close>)
  moreover have "get_connected_peers st = []" by (simp add: get_connected_peers_def conn_get_connected_peers_def)
  ultimately show ?thesis using inv(2) ping_unconnected by (auto simp: unconnected_def)
qed

theorem network_never_connected_witness:
  "get_connected_peers (network_start (\<lambda>p. True) True [''10.0.0.1:80''] 3 (p2p_new 9)) = [] \<and>
   \<not> fst (ping_node 5 (example_node ''a'') (network_start (\<lambda>p. True) True [''10.0.0.1:80''] 3 (p2p_new 9)))"
proof -
  have "net_reach 9 (network_start (\<lambda>p. True) True [''10.0.0.1:80''] 3 (p2p_new 9))"
    by (rule net_next [OF net_init net_start])
  from network_never_connected [OF this] show ?thesis by simp
qed

text \<open>
  starting a network that does not run opens the main connection and runs, or does nothing when
  the socket does not open; none of the bootstrap nodes is contacted, since the network does not
  run yet when it connects to them.
\<close>

theorem start_skips_bootstrap:
  assumes "\<not> running st"
  shows "network_start upnp opens bootstrap now st =
    (if opens then st\<lparr>connections := AList.update ''main'' (conn_new now\<lparr>pc_open := True\<rparr>) (connections st), running := True\<rparr>
     else st)"
  using assms by (simp add: network_start_eq)

theorem start_skips_bootstrap_witness:
  "connected_peers (network_start (\<lambda>p. True) True [''10.0.0.1:80'', ''10.0.0.2:81''] 3 (p2p_new 9)) = [] \<and>
   running (network_start (\<lambda>p. True) True [''10.0.0.1:80'', ''10.0.0.2:81''] 3 (p2p_new 9))"
  using start_skips_bootstrap [of "p2p_new 9" "\<lambda>p. True" True "[''10.0.0.1:80'', ''10.0.0.2:81'']" 3]
  by (simp add: p2p_new_def)

text \<open>
  C37: in a reachable network that runs, connecting to an address written as a host without a colon
  and a decimal port asks the router for exactly that port, and records the peer when it grants it.
\<close>

theorem connect_to_peer_correct:
  assumes "net_reach r st" "running st" "CHR '':'' \<notin> set host"
  shows "connect_to_peer upnp (host @ CHR '':'' # dec_string (unat port)) st =
    (if upnp port then (True, st\<lparr>connected_peers := connected_peers st @ [host @ CHR '':'' # dec_string (unat port)]\<rparr>)
     else (False, st))"
proof -
  have "map_of (connections st) ''main'' \<noteq> None" using net_reach_inv [OF assms(1)] assms(2) by (simp add: net_inv_def)
  then obtain c where c: "map_of (connections st) ''main'' = Some c" by blast
  have "unat port < 2 ^ 31" using unsigned_less [of port, where ?'a = nat] by simp
  then have "stoi (dec_string (unat port)) = Some (int (unat port))"
    using stoi_digits [OF dec_string_digits dec_string_not_Nil, of "unat port"] by (simp add: parse_dec_string)
  then show ?thesis
    using assms(2) c find_char_append [OF assms(3)]
    by (simp add: connect_to_peer_def substr_def perform_nat_traversal_def handle_peer_connection_def Let_def)
qed

theorem connect_to_peer_correct_witness:
  "connected_peers (snd (connect_to_peer (\<lambda>p. p = 80) (''10.0.0.1'' @ CHR '':'' # dec_string (unat (80 :: u16)))
     (network_start (\<lambda>p. True) True [] 3 (p2p_new 9)))) = [''10.0.0.1'' @ CHR '':'' # dec_string (unat (80 :: u16))]"
proof -
  have "net_reach 9 (network_start (\<lambda>p. True) True [] 3 (p2p_new 9))" by (rule net_next [OF net_init net_start])
  moreover have "running (network_start (\<lambda>p. True) True [] 3 (p2p_new 9))"
      "connected_peers (network_start (\<lambda>p. True) True [] 3 (p2p_new 9)) = []"
    by (simp_all add: network_start_eq p2p_new_def)
  ultimately show ?thesis
    using connect_to_peer_correct [of 9 "network_start (\<lambda>p. True) True [] 3 (p2p_new 9)" "''10.0.0.1''" "\<lambda>p. p = 80" 80]
    by simp
qed

end
