(* ===== verification/Spec2Isabelle.thy ===== *)
theory Spec2Isabelle
  imports
    State_Laws State_Refinement Account_Codec Accounts
    EVM_Data EVM_Machine Decimal Solidity_Lexer
    Rollup_Proofs Rollup_Bridges Rollup_Queues
    Falcon_Verify Lock_Free_Queue Network_DHT P2P_Network
begin

text \<open>
  A verification library for QUIDS, a rollup node in C++.

  \<^bold>\<open>The program.\<close>  Clients submit signed transactions.  The transaction API and the batch and
  parallel processors queue them and hand them to the state manager, which keeps accounts, a
  bounded history and the state root.  Contracts run in a small EVM with its own balances, code and
  storage; a tokenizer and a fixed-point type serve the contract tools.  Over the state manager sit
  the proofs of state transitions, fraud proofs, an optimistic adapter and an emergency exit; the
  bridges carry commitments and messages to other chains, and the aggregator merges proofs in a
  Merkle tree.  The address manager keeps a second account book and shares locations among several
  parties.  Signatures are Falcon's, over SHAKE256; nodes find each other in a distributed hash
  table, and threads exchange work over a lock-free queue.

  \<^bold>\<open>How the code is modelled.\<close>  Machine integers are words of their width, byte vectors lists of
  8-bit words, C++ strings HOL strings, hash tables association lists.  The order of
  such a list stands for the iteration order of the table, which C++ leaves open; an equation between
  two lists therefore means that the tables agree when they are iterated in that order.  Exceptions and undefined behaviour (reads and writes out of bounds, null pointers,
  locking a mutex twice) are error values.  The hash functions, the clock, random numbers, the
  platform's mutex, the zero-knowledge proof system and floating-point numbers are arguments of
  the definitions that use them.  Loops are structural, or recursive with a termination proof, and
  no fuel is used; the one loop that may run forever, the rejection sampling of \<open>hash_to_point\<close>, is a
  partial function whose result is \<^term>\<open>None\<close> when it does not return, with a theorem that says when
  it returns.  Threads are an inductive step relation over the atomic accesses of the code.

  \<^bold>\<open>Where the models depart from the code.\<close>  The signature decoder reads up to two bytes past the end of its
  buffer; \<open>decompress_sig\<close> takes the bytes found there as its argument \<open>beyond\<close> instead of failing, and the
  theorems hold for all of them.  The lengths in the SHAKE256 object are natural numbers where the
  code has \<^verbatim>\<open>size_t\<close>, which differs for messages of 2^61 bytes and more.  A bucket of the hash table carries
  no metrics (\<^verbatim>\<open>update_metrics\<close> works on floating-point vectors), so \<open>bucket_add\<close> leaves them out.  The
  parallel processor's batch functions start from an allocated \<^verbatim>\<open>Impl\<close>; the constructor never
  allocates one, which \<open>constructed_processor_has_no_impl\<close> records.  The validation and the insertion of a
  submission to the transaction API are one step, although the code releases the mutex in between.

  \<^bold>\<open>Theories\<close> (sources under \<^verbatim>\<open>src/src\<close> and \<^verbatim>\<open>src/include\<close>).

  \<^item> \<open>QPrelude\<close>: types, little-endian codecs with the interface \<open>byte_codec\<close>, association lists.
  \<^item> \<open>Transactions\<close> (\<^verbatim>\<open>blockchain/StandardTransaction.cpp\<close>): wire format, hash and verification;
    round trip, what a signature binds and where it is ambiguous or forgeable.
  \<^item> \<open>Ledger_Interface\<close>: the contract \<open>value_ledger\<close> of a book of balances, with conservation laws;
    interpreted for the state manager, the address manager and the EVM executor.
  \<^item> \<open>State_Manager\<close> (\<^verbatim>\<open>rollup/StateManager.cpp\<close>): every method, with its locks, in a state monad; \<open>glibc_grant\<close> is
    the documented, non-recursive \<^verbatim>\<open>std::shared_mutex\<close>, under which apply and revert throw because they
    lock twice.  \<open>State_Refinement\<close>: with that mutex the manager implements an abstract one over finite
    maps, for every sequence of calls, and the outcome of \<open>apply_transaction\<close> for every mutex.
    \<open>State_Laws\<close>: the invariant of all reachable states; and, for the method bodies with the locks
    erased (\<open>locks_erased\<close>, which no \<^verbatim>\<open>std::shared_mutex\<close> is), conservation, revert as inverse of
    apply, and what self transfers and wrapped sums would do.
    \<open>Account_Codec\<close>: account serialisation and the state root.
  \<^item> \<open>Accounts\<close> (\<^verbatim>\<open>blockchain/AddressManager.cpp\<close>): account book, address checks, secret sharing.
  \<^item> \<open>EVM_Data\<close> (\<^verbatim>\<open>evm/Address.cpp\<close>, \<^verbatim>\<open>Stack.cpp\<close>, \<^verbatim>\<open>Memory.cpp\<close>, \<^verbatim>\<open>Storage.cpp\<close>) and \<open>EVM_Machine\<close>
    (\<^verbatim>\<open>evm/EVMExecutor.cpp\<close>): data structures, opcodes, gas; containment of every run.
  \<^item> \<open>CStrings\<close>, \<open>Decimal\<close> (\<^verbatim>\<open>evm/FloatingPoint.cpp\<close>), \<open>Solidity_Lexer\<close> (\<^verbatim>\<open>evm/SolidityParser.cpp\<close>):
    C string functions, fixed-point decimals with text round trip, types, and tokens that spell the
    source.
  \<^item> \<open>Rollup_Proofs\<close> (\<^verbatim>\<open>rollup/StateTransitionProof.cpp\<close>, \<^verbatim>\<open>RollupStateTransition.cpp\<close>,
    \<^verbatim>\<open>FraudProof.cpp\<close>, \<^verbatim>\<open>OptimisticAdapter.cpp\<close>, \<^verbatim>\<open>EmergencyExit.cpp\<close>): proofs over the state manager
    and exactly what their verifiers accept.
  \<^item> \<open>Rollup_Bridges\<close> (\<^verbatim>\<open>rollup/L1Bridge.cpp\<close>, \<^verbatim>\<open>CrossRollupBridge.cpp\<close>, \<^verbatim>\<open>ProofAggregator.cpp\<close>):
    commitments, message register, Merkle tree computed in place against a reference.
  \<^item> \<open>Rollup_Queues\<close> (\<^verbatim>\<open>rollup/RollupTransactionAPI.cpp\<close>, \<^verbatim>\<open>BatchProcessor.cpp\<close>,
    \<^verbatim>\<open>ParallelProcessor.cpp\<close>): queues behind the interface \<open>work_queue\<close>, bounded but for empty batches, the split into
    independent batches and its determinism under any order of execution.
  \<^item> \<open>Falcon_Field\<close>, \<open>Falcon_NTT\<close>, \<open>Falcon_Keys\<close>, \<open>Falcon_Signature\<close>, \<open>Falcon_Verify\<close>
    (\<^verbatim>\<open>crypto/falcon/ff.hpp\<close>, \<^verbatim>\<open>ntt.hpp\<close>, \<^verbatim>\<open>polynomial.hpp\<close>, \<^verbatim>\<open>encoding.hpp\<close>, \<^verbatim>\<open>decoding.hpp\<close>,
    \<^verbatim>\<open>hashing.hpp\<close>, \<^verbatim>\<open>verification.hpp\<close>): arithmetic modulo 12289, the number theoretic transform behind
    the interface \<open>ntt_tables\<close> and its convolution theorem, key and signature codecs with round trips,
    hashing to a point, and verification from bytes to verdict against its specification.
  \<^item> \<open>Keccak\<close>, \<open>Shake256\<close> (\<^verbatim>\<open>crypto/falcon/keccak.hpp\<close>, \<^verbatim>\<open>sponge.hpp\<close>, \<^verbatim>\<open>shake256.hpp\<close>): the permutation
    and its vectorised form, the incremental sponge; absorbing and squeezing in pieces does not
    matter.
  \<^item> \<open>Lock_Free_Queue\<close> (\<^verbatim>\<open>utils/LockFreeQueue.hpp\<close>): the atomic steps of push and pop under every
    interleaving; with one producer and one consumer whose weak exchange does not fail spuriously it is an
    atomic queue, and what goes wrong otherwise.
  \<^item> \<open>Network_DHT\<close> (\<^verbatim>\<open>network/QDHT.cpp\<close>): buckets as maps, their split, and the search by distance.
  \<^item> \<open>Kademlia\<close>, \<open>Kademlia_Table\<close>, \<open>P2P_Network\<close> (\<^verbatim>\<open>network/P2PNetwork.cpp\<close>, \<^verbatim>\<open>P2PConnection.cpp\<close>): distances
    of identifiers and when they throw, the routing table as a map with its invariant, the nearest
    nodes, and the operations of the network over all its reachable states.

  \<^bold>\<open>Not modelled.\<close>  Neural networks, quantum simulation and the proof generators compute with
  floating-point linear algebra; network transport, storage and the command line are input and
  output; compression, key encapsulation and most signatures are wrappers of libraries.
  In Falcon the Gaussian sampler, the tree and key generation are floating-point.  Consensus and block
  production are not modelled yet.
\<close>

end
